(* ===== verification/Prelude.thy ===== *)
theory Prelude
  imports Main "HOL-Library.Word" "HOL-Library.Signed_Division"
begin

text \<open>
  Shared vocabulary of the development: the machine integer types of the C++ sources, the result
  type of code that may throw or fail an \<^verbatim>\<open>assert\<close>, and the value of a little-endian sequence of
  words, which the limb arithmetic, the byte encodings and the hashes all use.  The collections
  \<open>width_simps\<close> and \<open>value_simps\<close> carry the facts that the component proofs hand to the simplifier.
\<close>

unbundle bit_operations_syntax

named_theorems width_simps \<open>lengths of the arrays an operation returns\<close>
named_theorems value_simps \<open>what an operation does to the number an array represents\<close>

type_synonym u8 = "8 word"
type_synonym u16 = "16 word"
type_synonym u32 = "32 word"
type_synonym u64 = "64 word"
type_synonym bytes = "u8 list"

section \<open>Results of code that may fail\<close>

text \<open>
  A failed \<^verbatim>\<open>assert\<close> and a dereferenced null pointer stop the process; an exception carries its
  message.  All of them are the left injection of a sum.
\<close>

datatype cpp_error = Assert_failed | Null_deref | Out_of_range | Div_by_zero | Thrown string

type_synonym 'a result = "cpp_error + 'a"

definition rbind :: "('e + 'a) \<Rightarrow> ('a \<Rightarrow> 'e + 'b) \<Rightarrow> 'e + 'b" where
  "rbind m f = (case m of Inl e \<Rightarrow> Inl e | Inr x \<Rightarrow> f x)"

lemma rbind_simps [simp]:
  "rbind (Inl e) f = Inl e"
  "rbind (Inr x) f = f x"
  by (simp_all add: rbind_def)

lemma rbind_eq_Inr [simp]: "rbind m f = Inr y \<longleftrightarrow> (\<exists>x. m = Inr x \<and> f x = Inr y)"
  by (cases m) auto

lemma rbind_assoc: "rbind (rbind m f) g = rbind m (\<lambda>x. rbind (f x) g)"
  by (cases m) auto

lemma rbind_cong [fundef_cong]:
  "m = m' \<Longrightarrow> (\<And>x. m' = Inr x \<Longrightarrow> f x = f' x) \<Longrightarrow> rbind m f = rbind m' f'"
  by (cases m') auto

definition cpp_assert :: "bool \<Rightarrow> unit result" where
  "cpp_assert b = (if b then Inr () else Inl Assert_failed)"

lemma cpp_assert_simps [simp]:
  "cpp_assert True = Inr ()"
  "cpp_assert False = Inl Assert_failed"
  "cpp_assert b = Inr u \<longleftrightarrow> b"
  by (simp_all add: cpp_assert_def)

section \<open>Machine words as numbers\<close>

lemma unat_ucast_mod: "unat (ucast (w :: 'a::len word) :: 'b::len word) = unat w mod 2 ^ LENGTH('b)"
  by (simp only: unsigned_ucast_eq take_bit_eq_mod)

lemma unat_ucast_up:
  assumes "LENGTH('a) \<le> LENGTH('b)"
  shows "unat (ucast (w :: 'a::len word) :: 'b::len word) = unat w"
proof -
  have "unat w < 2 ^ LENGTH('a)" by (rule unsigned_less)
  also have "(2 :: nat) ^ LENGTH('a) \<le> 2 ^ LENGTH('b)" using assms by (intro power_increasing) auto
  finally show ?thesis by (simp only: unat_ucast_mod mod_less)
qed

lemma unat_drop_bit_div: "unat (drop_bit n (w :: 'a::len word)) = unat w div 2 ^ n"
  unfolding unat_drop_bit_eq by (rule drop_bit_eq_div)

lemma unat_push_bit_mod:
  "unat (push_bit n (w :: 'a::len word)) = (unat w * 2 ^ n) mod 2 ^ LENGTH('a)"
  unfolding unsigned_push_bit_eq unfolding push_bit_eq_mult by (rule take_bit_eq_mod)

lemma unat_and_mask: "unat ((w :: 'a::len word) AND mask n) = unat w mod 2 ^ n"
  unfolding take_bit_eq_mask [symmetric] unsigned_take_bit_eq by (rule take_bit_eq_mod)

lemma nat_top_bit: "(n :: nat) < 2 ^ Suc k \<Longrightarrow> bit n k \<longleftrightarrow> 2 ^ k \<le> n"
proof -
  assume "n < 2 ^ Suc k"
  then have "n div 2 ^ k < 2"
    by (intro less_mult_imp_div_less) simp
  then have "odd (n div 2 ^ k) \<longleftrightarrow> n div 2 ^ k \<noteq> 0"
    by (cases "n div 2 ^ k = 1") (auto simp: less_2_cases_iff)
  also have "\<dots> \<longleftrightarrow> 2 ^ k \<le> n"
    by (simp add: div_eq_0_iff not_less)
  finally show ?thesis
    by (simp add: bit_iff_odd)
qed

lemma scaled_less:
  fixes x y B :: nat
  assumes "x < B" "p < q"
  shows "x + B * p < y + B * q"
proof -
  have "x + B * p < B * Suc p"
    using assms(1) by simp
  also have "\<dots> \<le> B * q"
    using assms(2) by (intro mult_le_mono2) simp
  finally show ?thesis by simp
qed

lemma or_exp_disjoint: "\<not> bit a n \<Longrightarrow> a OR 2 ^ n = a + 2 ^ n" for a :: "'a::len word"
  by (rule disjunctive_add [symmetric]) (auto simp: bit_exp_iff)

lemma pow256: "(256 :: nat) ^ n = 2 ^ (8 * n)"
  by (simp add: power_mult)

lemma div8_bounds: "8 * (n div 8) \<le> n" "n < 8 * (n div 8) + (8 :: nat)"
  by linarith+

lemma ceil8: "\<not> 8 dvd n \<Longrightarrow> (n + 7) div 8 = n div 8 + (1 :: nat)"
proof -
  assume "\<not> 8 dvd n"
  then obtain q r where "n = 8 * q + r" "0 < r" "r < 8"
    by (metis div8_bounds dvd_eq_mod_eq_0 gr0I mod_less_divisor mult_div_mod_eq zero_less_numeral)
  then show ?thesis by simp
qed

subsection \<open>Bit length\<close>

fun bit_length :: "nat \<Rightarrow> nat" where
  "bit_length n = (if n = 0 then 0 else Suc (bit_length (n div 2)))"

declare bit_length.simps [simp del]

lemma bit_length_0 [simp]: "bit_length 0 = 0"
  by (simp add: bit_length.simps)

lemma bit_length_le_iff: "bit_length n \<le> k \<longleftrightarrow> n < 2 ^ k"
proof (induction n arbitrary: k rule: bit_length.induct)
  case (1 n)
  show ?case
  proof (cases "n = 0")
    case True
    then show ?thesis by simp
  next
    case False
    show ?thesis
    proof (cases k)
      case 0
      then show ?thesis using False by (simp add: bit_length.simps [of n])
    next
      case (Suc k')
      have "bit_length n \<le> k \<longleftrightarrow> bit_length (n div 2) \<le> k'"
        using False Suc by (simp add: bit_length.simps [of n])
      also have "\<dots> \<longleftrightarrow> n div 2 < 2 ^ k'"
        using 1 False by simp
      also have "\<dots> \<longleftrightarrow> n < 2 ^ k"
        unfolding Suc by (simp add: div_less_iff_less_mult mult.commute)
      finally show ?thesis .
    qed
  qed
qed

lemma bit_length_upper: "n < 2 ^ bit_length n"
  using bit_length_le_iff [of n "bit_length n"] by simp

lemma bit_length_lower: "n \<noteq> 0 \<Longrightarrow> 2 ^ (bit_length n - 1) \<le> n"
  using bit_length_le_iff [of n "bit_length n - 1"] bit_length_le_iff [of n 0]
  by (cases "bit_length n") auto

lemma bit_length_0_iff [simp]: "bit_length n = 0 \<longleftrightarrow> n = 0"
  using bit_length_le_iff [of n 0] by auto

lemma bit_length_mono: "m \<le> n \<Longrightarrow> bit_length m \<le> bit_length n"
  using bit_length_upper [of n] by (simp add: bit_length_le_iff)

lemma bit_length_eqI: "2 ^ k \<le> n \<Longrightarrow> n < 2 ^ Suc k \<Longrightarrow> bit_length n = Suc k"
  using bit_length_le_iff [of n "Suc k"] bit_length_le_iff [of n k] by linarith

section \<open>Little-endian sequences of words\<close>

fun le_val :: "'a::len word list \<Rightarrow> nat" where
  "le_val [] = 0"
| "le_val (x # xs) = unat x + 2 ^ LENGTH('a) * le_val xs"

lemma mod_add_split:
  fixes c :: nat
  assumes "0 < m" and "a = c mod m" and "b = (k + c div m) mod n"
  shows "a + m * b = (c + m * k) mod (m * n)"
proof -
  have "(c + m * k) mod (m * n) = m * ((c + m * k) div m mod n) + (c + m * k) mod m"
    by (rule mod_mult2_eq)
  moreover have "(c + m * k) div m mod n = (k + c div m) mod n"
    using \<open>0 < m\<close> by simp
  ultimately show ?thesis
    using assms by simp
qed

lemma mod_add_low: "(a :: nat) < m \<Longrightarrow> a + m * (k mod n) = (a + m * k) mod (m * n)"
  by (rule mod_add_split) auto

lemma le_val_bound: "le_val (xs :: 'a::len word list) < 2 ^ (LENGTH('a) * length xs)"
proof (induction xs)
  case Nil
  show ?case by simp
next
  case (Cons x xs)
  have small: "unat x < 2 ^ LENGTH('a)"
    by (rule unsigned_less)
  have "2 ^ LENGTH('a) * (le_val xs + 1) \<le> (2 :: nat) ^ LENGTH('a) * 2 ^ (LENGTH('a) * length xs)"
    using Cons.IH by (intro mult_le_mono) auto
  then have "unat x + 2 ^ LENGTH('a) * le_val xs < 2 ^ LENGTH('a) * 2 ^ (LENGTH('a) * length xs)"
    using small unfolding distrib_left by linarith
  then show ?case
    by (simp add: power_add)
qed

lemma le_val_append:
  "le_val (xs @ ys :: 'a::len word list) = le_val xs + 2 ^ (LENGTH('a) * length xs) * le_val ys"
  by (induction xs) (simp_all add: power_add algebra_simps)

lemma le_val_replicate_0 [simp]: "le_val (replicate n 0) = 0"
  by (induction n) simp_all

lemma le_val_eq_0_iff: "le_val xs = 0 \<longleftrightarrow> (\<forall>x \<in> set xs. x = 0)"
  by (induction xs) (auto simp: unat_eq_0)

lemma le_val_inject:
  "length xs = length ys \<Longrightarrow> le_val xs = le_val ys \<longleftrightarrow> xs = ys"
proof (induction xs ys rule: list_induct2)
  case Nil
  show ?case by simp
next
  case (Cons x xs y ys)
  have small: "unat x < 2 ^ LENGTH('a)" "unat y < 2 ^ LENGTH('a)"
    by (rule unsigned_less)+
  have "unat x + 2 ^ LENGTH('a) * le_val xs = unat y + 2 ^ LENGTH('a) * le_val ys
    \<longleftrightarrow> unat x = unat y \<and> le_val xs = le_val ys"
  proof
    assume eq: "unat x + 2 ^ LENGTH('a) * le_val xs = unat y + 2 ^ LENGTH('a) * le_val ys"
    from arg_cong [OF eq, of "\<lambda>n. n mod 2 ^ LENGTH('a)"]
    have "unat x = unat y" using small by simp
    with eq show "unat x = unat y \<and> le_val xs = le_val ys" by simp
  qed simp
  with Cons.IH show ?case by (auto simp: word_unat_eq_iff)
qed

lemma div_mod_Suc_helper:
  fixes L n :: nat
  assumes "0 < L" and "\<not> n < L"
  shows "n div L = Suc ((n - L) div L)" and "n mod L = (n - L) mod L"
  using assms by (simp_all add: le_div_geq le_mod_geq)

lemma bit_le_val:
  "bit (le_val (xs :: 'a::len word list)) n \<longleftrightarrow>
     n div LENGTH('a) < length xs \<and> bit (xs ! (n div LENGTH('a))) (n mod LENGTH('a))"
proof (induction xs arbitrary: n)
  case Nil
  show ?case by simp
next
  case (Cons x xs)
  let ?L = "LENGTH('a)"
  have split: "bit (unat x + 2 ^ ?L * le_val xs) n \<longleftrightarrow>
      (if n < ?L then bit (unat x) n else bit (le_val xs) (n - ?L))"
  proof -
    have "unat x + 2 ^ ?L * le_val xs = unat x OR push_bit ?L (le_val xs)"
    proof (subst disjunctive_add [symmetric])
      show "\<not> bit (unat x) k \<or> \<not> bit (push_bit ?L (le_val xs)) k" for k
        by (auto simp: bit_push_bit_iff bit_unsigned_iff dest: bit_imp_le_length)
    qed (simp add: push_bit_eq_mult)
    then show ?thesis
      by (auto simp: bit_or_iff bit_push_bit_iff bit_unsigned_iff dest: bit_imp_le_length)
  qed
  show ?case
  proof (cases "n < ?L")
    case True
    with split show ?thesis by (simp add: bit_unsigned_iff)
  next
    case False
    with split Cons.IH [of "n - ?L"] show ?thesis
      by (simp add: div_mod_Suc_helper)
  qed
qed


subsection \<open>Bit fields\<close>

lemma and_eq_0_bit:
  fixes a :: "'a::len word"
  assumes "a AND b = 0"
  shows "\<not> (bit a n \<and> bit b n)"
proof -
  have "bit (a AND b) n = False" by (simp add: assms)
  thus ?thesis by (simp add: bit_and_iff)
qed

lemma replace_field_read:
  fixes m :: "'a::len word"
  assumes "v AND NOT m = 0"
  shows "((x AND NOT m) OR v) AND m = v"
proof (rule bit_word_eqI)
  fix n assume "n < LENGTH('a)"
  thus "bit (((x AND NOT m) OR v) AND m) n = bit v n"
    using and_eq_0_bit [OF assms, of n] by (auto simp: bit_simps)
qed

lemma replace_field_other:
  fixes m :: "'a::len word"
  assumes "v AND NOT m = 0" "m' AND m = 0"
  shows "((x AND NOT m) OR v) AND m' = x AND m'"
proof (rule bit_word_eqI)
  fix n assume "n < LENGTH('a)"
  thus "bit (((x AND NOT m) OR v) AND m') n = bit (x AND m') n"
    using and_eq_0_bit [OF assms(1), of n] and_eq_0_bit [OF assms(2), of n] by (auto simp: bit_simps)
qed

lemma and_not_disjoint:
  fixes m :: "'a::len word"
  assumes "m' AND m = 0"
  shows "(x AND NOT m) AND m' = x AND m'"
proof (rule bit_word_eqI)
  fix n assume "n < LENGTH('a)"
  thus "bit ((x AND NOT m) AND m') n = bit (x AND m') n"
    using and_eq_0_bit [OF assms, of n] by (auto simp: bit_simps)
qed

subsection \<open>Signed division\<close>

text \<open>
  Integer division and remainder of C++ truncate towards zero; a zero divisor traps.
\<close>

definition cpp_div :: "int \<Rightarrow> int \<Rightarrow> int result" where
  "cpp_div a b = (if b = 0 then Inl Div_by_zero else Inr (a sdiv b))"

definition cpp_mod :: "int \<Rightarrow> int \<Rightarrow> int result" where
  "cpp_mod a b = (if b = 0 then Inl Div_by_zero else Inr (a smod b))"

lemma sdiv_nonneg: "0 \<le> (a :: int) \<Longrightarrow> 0 \<le> b \<Longrightarrow> a sdiv b = a div b"
  by (cases "a = 0"; cases "b = 0") (simp_all add: signed_divide_int_def sgn_mult)

lemma smod_nonneg: "0 \<le> (a :: int) \<Longrightarrow> 0 \<le> b \<Longrightarrow> a smod b = a mod b"
  by (cases "a = 0") (simp_all add: signed_modulo_int_def)

lemma cpp_div_pos [simp]: "0 \<le> a \<Longrightarrow> 0 < b \<Longrightarrow> cpp_div a b = Inr (a div b)"
  and cpp_mod_pos [simp]: "0 \<le> a \<Longrightarrow> 0 < b \<Longrightarrow> cpp_mod a b = Inr (a mod b)"
  by (simp_all add: cpp_div_def cpp_mod_def sdiv_nonneg smod_nonneg)

end
