(* ===== verification/Crypto_Common.thy ===== *)
theory Crypto_Common
  imports Prelude
begin

text \<open>
  Fixed-width integers in memory: \<^verbatim>\<open>crypto/common.h\<close>.  A pointer is the list of bytes it points to;
  a read uses the first bytes of the list, as the \<^verbatim>\<open>memcpy\<close> of the source does.
\<close>

section \<open>Words as byte sequences\<close>

definition le_bytes :: "nat \<Rightarrow> 'a::len word \<Rightarrow> bytes" where
  "le_bytes n x = map (\<lambda>i. ucast (drop_bit (8 * i) x)) [0..<n]"

lemma le_bytes_length [simp, width_simps]: "length (le_bytes n x) = n"
  by (simp add: le_bytes_def)

lemma le_val_le_bytes: "LENGTH('a) = 8 * n \<Longrightarrow> le_val (le_bytes n (x :: 'a::len word)) = unat x"
proof (rule bit_eqI)
  fix k
  assume n: "LENGTH('a) = 8 * n"
  have "bit (le_val (le_bytes n x)) k \<longleftrightarrow> k div 8 < n \<and> bit x (8 * (k div 8) + k mod 8)"
    by (auto simp: bit_le_val le_bytes_def bit_ucast_iff bit_drop_bit_eq)
  also have "\<dots> \<longleftrightarrow> bit x k"
    using bit_imp_le_length [of x k] n by auto
  finally show "bit (le_val (le_bytes n x)) k \<longleftrightarrow> bit (unat x) k"
    by (simp add: bit_unsigned_iff)
qed

lemma unat_of_le_val:
  assumes "8 * length xs \<le> LENGTH('a)"
  shows "unat (of_nat (le_val (xs :: bytes)) :: 'a::len word) = le_val xs"
proof -
  have "le_val xs < 2 ^ (8 * length xs)"
    using le_val_bound [of xs] by simp
  also have "\<dots> \<le> (2 :: nat) ^ LENGTH('a)"
    using assms by (rule power_increasing) simp
  finally show ?thesis
    by (simp add: unat_of_nat)
qed

lemma of_nat_le_bytes: "LENGTH('a) = 8 * n \<Longrightarrow> of_nat (le_val (le_bytes n x)) = (x :: 'a::len word)"
  by (simp add: le_val_le_bytes)

lemma le_bytes_of_nat:
  assumes "LENGTH('a) = 8 * n" "length xs = n"
  shows "le_bytes n (of_nat (le_val xs) :: 'a::len word) = xs"
proof -
  have "le_val (le_bytes n (of_nat (le_val xs) :: 'a word)) = le_val xs"
    using assms by (simp add: le_val_le_bytes unat_of_le_val)
  then show ?thesis
    using assms(2) by (subst (asm) le_val_inject) simp_all
qed

section \<open>Reads and writes\<close>

definition ReadLE16 :: "bytes \<Rightarrow> u16" where
  "ReadLE16 ptr = of_nat (le_val (take 2 ptr))"

definition ReadLE32 :: "bytes \<Rightarrow> u32" where
  "ReadLE32 ptr = of_nat (le_val (take 4 ptr))"

definition ReadLE64 :: "bytes \<Rightarrow> u64" where
  "ReadLE64 ptr = of_nat (le_val (take 8 ptr))"

definition WriteLE16 :: "u16 \<Rightarrow> bytes" where
  "WriteLE16 x = le_bytes 2 x"

definition WriteLE32 :: "u32 \<Rightarrow> bytes" where
  "WriteLE32 x = le_bytes 4 x"

definition WriteLE64 :: "u64 \<Rightarrow> bytes" where
  "WriteLE64 x = le_bytes 8 x"

definition ReadBE16 :: "bytes \<Rightarrow> u16" where
  "ReadBE16 ptr = of_nat (le_val (rev (take 2 ptr)))"

definition ReadBE32 :: "bytes \<Rightarrow> u32" where
  "ReadBE32 ptr = of_nat (le_val (rev (take 4 ptr)))"

definition ReadBE64 :: "bytes \<Rightarrow> u64" where
  "ReadBE64 ptr = of_nat (le_val (rev (take 8 ptr)))"

definition WriteBE32 :: "u32 \<Rightarrow> bytes" where
  "WriteBE32 x = rev (le_bytes 4 x)"

definition WriteBE64 :: "u64 \<Rightarrow> bytes" where
  "WriteBE64 x = rev (le_bytes 8 x)"

lemma write_lengths [simp, width_simps]:
  "length (WriteLE16 h) = 2" "length (WriteLE32 x) = 4" "length (WriteLE64 y) = 8"
  "length (WriteBE32 x) = 4" "length (WriteBE64 y) = 8"
  by (simp_all add: WriteLE16_def WriteLE32_def WriteLE64_def WriteBE32_def WriteBE64_def)

lemma read_write_le [simp]:
  "ReadLE16 (WriteLE16 h @ r) = h" "ReadLE32 (WriteLE32 x @ r) = x" "ReadLE64 (WriteLE64 y @ r) = y"
  by (simp_all add: ReadLE16_def WriteLE16_def ReadLE32_def WriteLE32_def ReadLE64_def WriteLE64_def
      of_nat_le_bytes)

lemma read_write_be [simp]:
  "ReadBE32 (WriteBE32 x @ r) = x" "ReadBE64 (WriteBE64 y @ r) = y"
  by (simp_all add: ReadBE32_def WriteBE32_def ReadBE64_def WriteBE64_def of_nat_le_bytes)

lemma le_val_WriteLE32: "le_val (WriteLE32 x) = unat x"
  by (simp add: WriteLE32_def le_val_le_bytes)

lemma unat_ReadLE32: "unat (ReadLE32 ptr) = le_val (take 4 ptr)"
  unfolding ReadLE32_def by (rule unat_of_le_val) simp

end
