(* ===== verification/Arith_Uint256.thy ===== *)
theory Arith_Uint256
  imports Crypto_Common
begin

text \<open>
  The 256-bit unsigned integers of \<^verbatim>\<open>arith_uint256.h\<close> and \<^verbatim>\<open>arith_uint256.cpp\<close>.  A
  \<^verbatim>\<open>base_uint<256>\<close> is its array \<^verbatim>\<open>pn\<close> of eight 32-bit limbs, least significant first; every loop
  over the limbs is a recursion over that list with the 64-bit carry of the source.  The value of
  an array is \<open>le_val\<close>; the theorems say that each operation computes on that value what the
  corresponding machine operation computes on a 256-bit word.
\<close>

section \<open>Representation and construction\<close>

definition WIDTH :: nat where
  "WIDTH = 8"

type_synonym base_uint = "u32 list"

definition wf_uint :: "base_uint \<Rightarrow> bool" where
  "wf_uint a \<longleftrightarrow> length a = WIDTH"

definition base_uint_zero :: base_uint where
  "base_uint_zero = replicate WIDTH 0"

definition base_uint_u64 :: "u64 \<Rightarrow> base_uint" where
  "base_uint_u64 b = ucast b # ucast (drop_bit 32 b) # replicate (WIDTH - 2) 0"

section \<open>Bitwise operations\<close>

definition op_not :: "base_uint \<Rightarrow> base_uint" where
  "op_not pn = map (\<lambda>p. NOT p) pn"

definition op_xor :: "base_uint \<Rightarrow> base_uint \<Rightarrow> base_uint" where
  "op_xor pn b = map2 (\<lambda>x y. x XOR y) pn b"

definition op_and :: "base_uint \<Rightarrow> base_uint \<Rightarrow> base_uint" where
  "op_and pn b = map2 (\<lambda>x y. x AND y) pn b"

definition op_or :: "base_uint \<Rightarrow> base_uint \<Rightarrow> base_uint" where
  "op_or pn b = map2 (\<lambda>x y. x OR y) pn b"

definition op_xor64 :: "base_uint \<Rightarrow> u64 \<Rightarrow> base_uint" where
  "op_xor64 pn b = pn[0 := pn ! 0 XOR ucast b, 1 := pn ! 1 XOR ucast (drop_bit 32 b)]"

definition op_or64 :: "base_uint \<Rightarrow> u64 \<Rightarrow> base_uint" where
  "op_or64 pn b = pn[0 := pn ! 0 OR ucast b, 1 := pn ! 1 OR ucast (drop_bit 32 b)]"

text \<open>
  The shifts clear the array and then OR every source limb into the one or two places it lands
  in, exactly as the two loops of \<^verbatim>\<open>operator<<=\<close> and \<^verbatim>\<open>operator>>=\<close> do.
\<close>

definition or_at :: "nat \<Rightarrow> u32 \<Rightarrow> base_uint \<Rightarrow> base_uint" where
  "or_at i v pn = pn[i := pn ! i OR v]"

definition shl_step :: "base_uint \<Rightarrow> nat \<Rightarrow> nat \<Rightarrow> nat \<Rightarrow> base_uint \<Rightarrow> base_uint" where
  "shl_step a k shift i pn =
     (let pn' = (if i + k + 1 < WIDTH \<and> shift \<noteq> 0
                 then or_at (i + k + 1) (drop_bit (32 - shift) (a ! i)) pn else pn)
      in if i + k < WIDTH then or_at (i + k) (push_bit shift (a ! i)) pn' else pn')"

definition op_shl :: "base_uint \<Rightarrow> nat \<Rightarrow> base_uint" where
  "op_shl a shift =
     (let k = shift div 32; shift' = shift mod 32
      in fold (shl_step a k shift') [0..<WIDTH] base_uint_zero)"

definition shr_step :: "base_uint \<Rightarrow> nat \<Rightarrow> nat \<Rightarrow> nat \<Rightarrow> base_uint \<Rightarrow> base_uint" where
  "shr_step a k shift i pn =
     (let pn' = (if k + 1 \<le> i \<and> shift \<noteq> 0
                 then or_at (i - k - 1) (push_bit (32 - shift) (a ! i)) pn else pn)
      in if k \<le> i then or_at (i - k) (drop_bit shift (a ! i)) pn' else pn')"

definition op_shr :: "base_uint \<Rightarrow> nat \<Rightarrow> base_uint" where
  "op_shr a shift =
     (let k = shift div 32; shift' = shift mod 32
      in fold (shr_step a k shift') [0..<WIDTH] base_uint_zero)"

section \<open>Addition, subtraction, increments\<close>

fun add_limbs :: "u64 \<Rightarrow> u32 list \<Rightarrow> u32 list \<Rightarrow> u32 list" where
  "add_limbs carry (p # pn) (b # bs) =
     (let n = carry + ucast p + ucast b
      in ucast (n AND 0xffffffff) # add_limbs (drop_bit 32 n) pn bs)"
| "add_limbs carry pn bs = []"

definition op_add :: "base_uint \<Rightarrow> base_uint \<Rightarrow> base_uint" where
  "op_add pn b = add_limbs 0 pn b"

fun inc_limbs :: "u32 list \<Rightarrow> u32 list" where
  "inc_limbs [] = []"
| "inc_limbs (p # pn) = (if p + 1 = 0 then (p + 1) # inc_limbs pn else (p + 1) # pn)"

definition op_inc :: "base_uint \<Rightarrow> base_uint" where
  "op_inc pn = inc_limbs pn"

fun dec_limbs :: "u32 list \<Rightarrow> u32 list" where
  "dec_limbs [] = []"
| "dec_limbs (p # pn) = (if p - 1 = 0xffffffff then (p - 1) # dec_limbs pn else (p - 1) # pn)"

definition op_dec :: "base_uint \<Rightarrow> base_uint" where
  "op_dec pn = dec_limbs pn"

definition op_neg :: "base_uint \<Rightarrow> base_uint" where
  "op_neg pn = op_inc (map (\<lambda>p. NOT p) pn)"

definition op_sub :: "base_uint \<Rightarrow> base_uint \<Rightarrow> base_uint" where
  "op_sub pn b = op_add pn (op_neg b)"

definition op_add64 :: "base_uint \<Rightarrow> u64 \<Rightarrow> base_uint" where
  "op_add64 pn b64 = op_add pn (base_uint_u64 b64)"

definition op_sub64 :: "base_uint \<Rightarrow> u64 \<Rightarrow> base_uint" where
  "op_sub64 pn b64 = op_add pn (op_neg (base_uint_u64 b64))"

section \<open>Multiplication\<close>

fun mul32_limbs :: "u64 \<Rightarrow> u32 \<Rightarrow> u32 list \<Rightarrow> u32 list" where
  "mul32_limbs carry b32 [] = []"
| "mul32_limbs carry b32 (p # pn) =
     (let n = carry + ucast b32 * ucast p
      in ucast (n AND 0xffffffff) # mul32_limbs (drop_bit 32 n) b32 pn)"

definition op_mul32 :: "base_uint \<Rightarrow> u32 \<Rightarrow> base_uint" where
  "op_mul32 pn b32 = mul32_limbs 0 b32 pn"

text \<open>
  The inner loop of \<^verbatim>\<open>operator*=\<close> runs over \<^verbatim>\<open>a.pn[j..WIDTH)\<close> and the first limbs of \<^verbatim>\<open>b\<close>; it
  stops when the tail of \<^verbatim>\<open>a\<close> ends, which drops the last carry.
\<close>

fun mul_inner :: "u64 \<Rightarrow> u32 \<Rightarrow> u32 list \<Rightarrow> u32 list \<Rightarrow> u32 list" where
  "mul_inner carry pj (x # a) (b # bs) =
     (let n = carry + ucast x + ucast pj * ucast b
      in ucast (n AND 0xffffffff) # mul_inner (drop_bit 32 n) pj a bs)"
| "mul_inner carry pj a bs = a"

definition mul_step :: "base_uint \<Rightarrow> base_uint \<Rightarrow> nat \<Rightarrow> base_uint \<Rightarrow> base_uint" where
  "mul_step pn b j a = take j a @ mul_inner 0 (pn ! j) (drop j a) b"

definition op_mul :: "base_uint \<Rightarrow> base_uint \<Rightarrow> base_uint" where
  "op_mul pn b = fold (mul_step pn b) [0..<WIDTH] base_uint_zero"

section \<open>Comparison, bit length, division\<close>

text \<open>The loop of \<^verbatim>\<open>CompareTo\<close> starts at the most significant limb, so it runs on reversed arrays.\<close>

fun compare_down :: "u32 list \<Rightarrow> u32 list \<Rightarrow> int" where
  "compare_down (p # pn) (b # bs) =
     (if p < b then -1 else if p > b then 1 else compare_down pn bs)"
| "compare_down pn bs = 0"

definition CompareTo :: "base_uint \<Rightarrow> base_uint \<Rightarrow> int" where
  "CompareTo pn b = compare_down (rev pn) (rev b)"

definition EqualTo :: "base_uint \<Rightarrow> u64 \<Rightarrow> bool" where
  "EqualTo pn b \<longleftrightarrow>
     (if \<exists>i \<in> set (rev [2..<WIDTH]). pn ! i \<noteq> 0 then False
      else if ucast (pn ! 1) \<noteq> drop_bit 32 b then False
      else if ucast (pn ! 0) \<noteq> b AND 0xffffffff then False
      else True)"

fun top_bit :: "nat \<Rightarrow> u32 \<Rightarrow> nat \<Rightarrow> nat" where
  "top_bit 0 p pos = 32 * pos + 1"
| "top_bit (Suc n) p pos =
     (if p AND push_bit (Suc n) 1 \<noteq> 0 then 32 * pos + Suc n + 1 else top_bit n p pos)"

fun bits_down :: "u32 list \<Rightarrow> nat" where
  "bits_down [] = 0"
| "bits_down (p # pn) = (if p \<noteq> 0 then top_bit 31 p (length pn) else bits_down pn)"

definition bits_uint :: "base_uint \<Rightarrow> nat" where
  "bits_uint pn = bits_down (rev pn)"

text \<open>
  The division loop counts \<^verbatim>\<open>shift\<close> down to zero inclusive; the first argument is the number of
  iterations still to run, so inside it is \<^verbatim>\<open>shift + 1\<close>.  It returns the quotient and the remainder
  that the comment of the source mentions.
\<close>

fun div_loop :: "nat \<Rightarrow> base_uint \<Rightarrow> base_uint \<Rightarrow> base_uint \<Rightarrow> base_uint \<times> base_uint" where
  "div_loop 0 num dv q = (q, num)"
| "div_loop (Suc shift) num dv q =
     (if CompareTo num dv \<ge> 0
      then div_loop shift (op_sub num dv) (op_shr dv 1)
             (q[shift div 32 := q ! (shift div 32) OR push_bit (shift AND 31) 1])
      else div_loop shift num (op_shr dv 1) q)"

definition op_div :: "base_uint \<Rightarrow> base_uint \<Rightarrow> base_uint result" where
  "op_div pn b =
     (let num_bits = bits_uint pn; div_bits = bits_uint b
      in if div_bits = 0 then Inl (Thrown ''Division by zero'')
         else if div_bits > num_bits then Inr base_uint_zero
         else let shift = num_bits - div_bits
              in Inr (fst (div_loop (Suc shift) pn (op_shl b shift) base_uint_zero)))"

section \<open>Low word\<close>

definition GetLow64 :: "base_uint \<Rightarrow> u64" where
  "GetLow64 pn = ucast (pn ! 0) OR push_bit 32 (ucast (pn ! 1))"

section \<open>Conversion from and to opaque 256-bit blobs\<close>

type_synonym uint256 = bytes

definition wf_uint256 :: "uint256 \<Rightarrow> bool" where
  "wf_uint256 h \<longleftrightarrow> length h = 32"

definition ArithToUint256 :: "base_uint \<Rightarrow> uint256" where
  "ArithToUint256 a = concat (map (\<lambda>x. WriteLE32 (a ! x)) [0..<WIDTH])"

definition UintToArith256 :: "uint256 \<Rightarrow> base_uint" where
  "UintToArith256 a = map (\<lambda>x. ReadLE32 (drop (x * 4) a)) [0..<WIDTH]"

section \<open>The limb loops compute on values\<close>

lemma u32_bound: "unat (p :: u32) < 2 ^ 32"
  by (rule order.strict_trans2 [OF unsigned_less]) simp

lemma unat_ucast_u32_u64 [simp]: "unat (ucast (p :: u32) :: u64) = unat p"
  by (rule unat_ucast_up) simp

lemma unat_low32: "unat (ucast ((n :: u64) AND 0xffffffff) :: u32) = unat n mod 2 ^ 32"
proof -
  have m: "(0xffffffff :: u64) = mask 32"
    by (simp add: mask_eq_exp_minus_1)
  show ?thesis
    unfolding m by (simp only: unat_ucast_mod unat_and_mask) simp
qed

lemma unat_add_limb:
  assumes "unat carry < 2 ^ 32"
  shows "unat ((carry :: u64) + ucast (p :: u32) + ucast (b :: u32)) = unat carry + unat p + unat b"
  using assms u32_bound [of p] u32_bound [of b] by (simp add: unat_word_ariths)

lemma unat_mac_limb:
  assumes "unat carry < 2 ^ 32"
  shows "unat ((carry :: u64) + ucast (x :: u32) + ucast (p :: u32) * ucast (b :: u32))
       = unat carry + unat x + unat p * unat b"
proof -
  have "unat p * unat b \<le> (2 ^ 32 - 1) * (2 ^ 32 - 1)"
    using u32_bound [of p] u32_bound [of b] by (intro mult_le_mono) auto
  then show ?thesis
    using assms u32_bound [of x] by (simp add: unat_word_ariths)
qed

lemma add_limbs_length [width_simps]: "length (add_limbs c pn bs) = min (length pn) (length bs)"
  by (induction c pn bs rule: add_limbs.induct) (simp_all add: Let_def)


lemma le_val_Cons32: "le_val ((x :: u32) # xs) = unat x + 2 ^ 32 * le_val xs"
  by simp

lemma carry_step:
  assumes "unat n = N" and "le_val rest = (k + N div 2 ^ 32) mod 2 ^ (32 * m)"
  shows "le_val ((ucast ((n :: u64) AND 0xffffffff) :: u32) # rest) = (N + 2 ^ 32 * k) mod 2 ^ (32 * Suc m)"
proof -
  have "unat (ucast (n AND 0xffffffff) :: u32) + 2 ^ 32 * le_val rest
      = (N + 2 ^ 32 * k) mod (2 ^ 32 * 2 ^ (32 * m))"
    using assms by (intro mod_add_split) (simp_all only: unat_low32, simp)
  also have "(2 :: nat) ^ 32 * 2 ^ (32 * m) = 2 ^ (32 * Suc m)"
    by (simp only: power_add [symmetric]) simp
  finally show ?thesis
    by (simp only: le_val_Cons32)
qed

lemma le_val_add_limbs:
  "length pn = length bs \<Longrightarrow> unat carry < 2 ^ 32 \<Longrightarrow>
     le_val (add_limbs carry pn bs) = (unat carry + le_val pn + le_val bs) mod 2 ^ (32 * length pn)"
proof (induction pn bs arbitrary: carry rule: list_induct2)
  case Nil
  show ?case by simp
next
  case (Cons p pn b bs)
  let ?n = "carry + ucast p + ucast b" and ?N = "unat carry + unat p + unat b"
  have n: "unat ?n = ?N"
    using Cons.prems by (rule unat_add_limb)
  have "unat (drop_bit 32 ?n) = ?N div 2 ^ 32"
    unfolding n [symmetric] by (rule unat_drop_bit_div)
  moreover have "?N div 2 ^ 32 < 2 ^ 32"
    using Cons.prems u32_bound [of p] u32_bound [of b] by simp
  ultimately have IH: "le_val (add_limbs (drop_bit 32 ?n) pn bs)
      = (le_val pn + le_val bs + ?N div 2 ^ 32) mod 2 ^ (32 * length pn)"
    using Cons.IH [of "drop_bit 32 ?n"] by (simp only: ac_simps)
  have "unat carry + le_val (p # pn) + le_val (b # bs) = ?N + 2 ^ 32 * (le_val pn + le_val bs)"
    by (simp only: le_val_Cons32 algebra_simps)
  then show ?case
    using carry_step [OF n IH] by (simp only: add_limbs.simps Let_def length_Cons)
qed

lemma mul32_limbs_length [width_simps]: "length (mul32_limbs c b pn) = length pn"
  by (induction c b pn rule: mul32_limbs.induct) (simp_all add: Let_def)

lemma mac_carry_bound:
  assumes "c < 2 ^ 32" shows "(c + unat (x :: u32) + unat (p :: u32) * unat (b :: u32)) div 2 ^ 32 < 2 ^ 32"
proof -
  have "unat p * unat b \<le> (2 ^ 32 - 1) * (2 ^ 32 - 1)"
    using u32_bound [of p] u32_bound [of b] by (intro mult_le_mono) auto
  then have "c + unat x + unat p * unat b < 2 ^ 32 * 2 ^ 32"
    using assms u32_bound [of x] by simp
  then show ?thesis by (rule less_mult_imp_div_less)
qed

lemma le_val_mul32_limbs:
  "unat carry < 2 ^ 32 \<Longrightarrow>
     le_val (mul32_limbs carry b pn) = (unat carry + unat b * le_val pn) mod 2 ^ (32 * length pn)"
proof (induction pn arbitrary: carry)
  case Nil
  show ?case by simp
next
  case (Cons p pn)
  let ?n = "carry + ucast b * ucast p" and ?N = "unat carry + unat b * unat p"
  have n: "unat ?n = ?N"
    using unat_mac_limb [OF Cons.prems, of 0 b p] by simp
  have "unat (drop_bit 32 ?n) = ?N div 2 ^ 32"
    unfolding n [symmetric] by (rule unat_drop_bit_div)
  moreover have "?N div 2 ^ 32 < 2 ^ 32"
    using mac_carry_bound [OF Cons.prems, of 0 b p] by (simp only: unsigned_0 add_0_right)
  ultimately have IH: "le_val (mul32_limbs (drop_bit 32 ?n) b pn)
      = (unat b * le_val pn + ?N div 2 ^ 32) mod 2 ^ (32 * length pn)"
    using Cons.IH [of "drop_bit 32 ?n"] by (simp only: ac_simps)
  have "unat carry + unat b * le_val (p # pn) = ?N + 2 ^ 32 * (unat b * le_val pn)"
    by (simp only: le_val_Cons32 algebra_simps)
  then show ?case
    using carry_step [OF n IH] by (simp only: mul32_limbs.simps Let_def length_Cons)
qed

lemma mul_inner_length [width_simps]: "length (mul_inner c pj a bs) = length a"
  by (induction c pj a bs rule: mul_inner.induct) (simp_all add: Let_def)

lemma le_val_mul_inner:
  "unat carry < 2 ^ 32 \<Longrightarrow> length a \<le> length bs \<Longrightarrow>
     le_val (mul_inner carry pj a bs)
       = (unat carry + le_val a + unat pj * le_val bs) mod 2 ^ (32 * length a)"
proof (induction a arbitrary: carry bs)
  case Nil
  show ?case by simp
next
  case (Cons x a)
  from Cons.prems(2) obtain b bs' where bs: "bs = b # bs'" and len: "length a \<le> length bs'"
    by (cases bs) auto
  let ?n = "carry + ucast x + ucast pj * ucast b" and ?N = "unat carry + unat x + unat pj * unat b"
  have n: "unat ?n = ?N"
    using Cons.prems(1) by (rule unat_mac_limb)
  have "unat (drop_bit 32 ?n) = ?N div 2 ^ 32"
    unfolding n [symmetric] by (rule unat_drop_bit_div)
  moreover have "?N div 2 ^ 32 < 2 ^ 32"
    using Cons.prems(1) by (rule mac_carry_bound)
  ultimately have IH: "le_val (mul_inner (drop_bit 32 ?n) pj a bs')
      = (le_val a + unat pj * le_val bs' + ?N div 2 ^ 32) mod 2 ^ (32 * length a)"
    using Cons.IH [of "drop_bit 32 ?n", OF _ len] by (simp only: ac_simps)
  have "unat carry + le_val (x # a) + unat pj * le_val bs
      = ?N + 2 ^ 32 * (le_val a + unat pj * le_val bs')"
    unfolding bs by (simp only: le_val_Cons32 algebra_simps)
  then show ?case
    using carry_step [OF n IH] unfolding bs by (simp only: mul_inner.simps Let_def length_Cons)
qed

lemma inc_limbs_length [width_simps]: "length (inc_limbs pn) = length pn"
  by (induction pn) simp_all

lemma u32_wrap_inc: "(p :: u32) + 1 = 0 \<longleftrightarrow> unat p = 2 ^ 32 - 1"
proof -
  have "p + 1 = 0 \<longleftrightarrow> p = - 1"
    by (simp add: add_eq_0_iff2)
  also have "\<dots> \<longleftrightarrow> unat p = unat (- 1 :: u32)"
    by (rule word_unat_eq_iff)
  finally show ?thesis
    by (simp add: unsigned_minus_1_eq_mask mask_eq_exp_minus_1)
qed

lemma unat_inc: "(p :: u32) + 1 \<noteq> 0 \<Longrightarrow> unat (p + 1) = unat p + 1"
proof -
  assume "p + 1 \<noteq> 0"
  then have "unat p + 1 < 2 ^ 32"
    using u32_bound [of p] unfolding u32_wrap_inc by linarith
  then show "unat (p + 1) = unat p + 1"
    by (simp add: unat_word_ariths)
qed

lemma le_val_bound32: "le_val (pn :: u32 list) < 2 ^ (32 * length pn)"
  using le_val_bound [of pn] by simp

lemma pow32_Suc: "(2 :: nat) ^ (32 * length (p # pn)) = 2 ^ 32 * 2 ^ (32 * length pn)"
  by (simp only: length_Cons mult_Suc_right power_add)

lemma le_val_inc_limbs: "le_val (inc_limbs pn) = (le_val pn + 1) mod 2 ^ (32 * length pn)"
proof (induction pn)
  case Nil
  show ?case by simp
next
  case (Cons p pn)
  show ?case
  proof (cases "p + 1 = 0")
    case True
    then have p: "unat p = 2 ^ 32 - 1" by (simp only: u32_wrap_inc)
    have "le_val (inc_limbs (p # pn)) = 2 ^ 32 * ((le_val pn + 1) mod 2 ^ (32 * length pn))"
      using True Cons.IH by (simp only: inc_limbs.simps refl if_True le_val_Cons32 unsigned_0 add_0)
    also have "\<dots> = (le_val (p # pn) + 1) mod 2 ^ (32 * length (p # pn))"
      unfolding pow32_Suc le_val_Cons32 p by (simp add: mult_mod_right)
    finally show ?thesis .
  next
    case False
    then have "unat (p + 1) = unat p + 1" by (rule unat_inc)
    moreover have "le_val ((p + 1) # pn) < 2 ^ (32 * length ((p + 1) # pn))"
      by (rule le_val_bound32)
    ultimately show ?thesis
      using False by (simp only: inc_limbs.simps if_False le_val_Cons32 length_Cons) simp
  qed
qed

lemma unat_not32: "unat (NOT (p :: u32)) = 2 ^ 32 - 1 - unat p"
proof -
  have "NOT p = - 1 - p"
    by (simp add: not_eq_complement)
  moreover have "unat (- 1 - p) = unat (- 1 :: u32) - unat p"
    by (rule unat_sub) (rule word_order.extremum)
  ultimately show ?thesis
    by (simp add: unsigned_minus_1_eq_mask mask_eq_exp_minus_1)
qed

lemma le_val_not: "le_val (map (\<lambda>p. NOT p) (pn :: u32 list)) = 2 ^ (32 * length pn) - 1 - le_val pn"
proof (induction pn)
  case Nil
  show ?case by simp
next
  case (Cons p pn)
  have "le_val pn + 1 \<le> 2 ^ (32 * length pn)" and "unat p < 2 ^ 32"
    using le_val_bound32 [of pn] u32_bound by auto
  moreover from this(1) have "2 ^ 32 * (le_val pn + 1) \<le> (2 :: nat) ^ 32 * 2 ^ (32 * length pn)"
    by (rule mult_le_mono2)
  ultimately show ?case
    using Cons.IH unfolding list.map le_val_Cons32 unat_not32 pow32_Suc
    by (simp add: diff_mult_distrib2)
qed

lemma dec_limbs_length [width_simps]: "length (dec_limbs pn) = length pn"
  by (induction pn) simp_all

lemma inc_dec_limbs: "inc_limbs (dec_limbs pn) = pn"
  by (induction pn) auto

lemma dec_inc_limbs: "dec_limbs (inc_limbs pn) = pn"
  by (induction pn) (auto simp: add_eq_0_iff2)

lemma le_val_dec_limbs: "(le_val (dec_limbs pn) + 1) mod 2 ^ (32 * length pn) = le_val pn"
  using le_val_inc_limbs [of "dec_limbs pn"] by (simp add: inc_dec_limbs dec_limbs_length)

section \<open>Values of the operations at width 256\<close>

lemma WIDTH_bits: "32 * WIDTH = 256"
  by (simp add: WIDTH_def)

lemma wf_uint_zero [simp]: "wf_uint base_uint_zero"
  by (simp add: wf_uint_def base_uint_zero_def)

lemma wf_uint_ops [simp]:
  "wf_uint (base_uint_u64 b)"
  "wf_uint a \<Longrightarrow> wf_uint (op_not a)"
  "wf_uint a \<Longrightarrow> wf_uint (op_inc a)"
  "wf_uint a \<Longrightarrow> wf_uint (op_dec a)"
  "wf_uint a \<Longrightarrow> wf_uint (op_neg a)"
  "wf_uint a \<Longrightarrow> wf_uint (op_mul32 a m)"
  "wf_uint a \<Longrightarrow> wf_uint b' \<Longrightarrow> wf_uint (op_add a b')"
  "wf_uint a \<Longrightarrow> wf_uint b' \<Longrightarrow> wf_uint (op_sub a b')"
  "wf_uint a \<Longrightarrow> wf_uint b' \<Longrightarrow> wf_uint (op_and a b')"
  "wf_uint a \<Longrightarrow> wf_uint b' \<Longrightarrow> wf_uint (op_or a b')"
  "wf_uint a \<Longrightarrow> wf_uint b' \<Longrightarrow> wf_uint (op_xor a b')"
  by (simp_all add: wf_uint_def base_uint_u64_def op_not_def op_inc_def op_dec_def op_neg_def
      op_mul32_def op_add_def op_sub_def op_and_def op_or_def op_xor_def width_simps WIDTH_def)

lemma wf_uint_value_bound: "wf_uint a \<Longrightarrow> le_val a < 2 ^ 256"
  using le_val_bound32 [of a] by (simp add: wf_uint_def WIDTH_def)

lemma le_val_u64 [value_simps]: "le_val (base_uint_u64 b) = unat b"
proof -
  have "unat (ucast b :: u32) = unat b mod 2 ^ 32" 
    unfolding unat_ucast_mod by simp
  moreover have "unat (ucast (drop_bit 32 b) :: u32) = unat b div 2 ^ 32"
  proof -
    have "unat b < 2 ^ 64"
      by (rule order.strict_trans2 [OF unsigned_less]) simp
    then have "unat b div 2 ^ 32 < 2 ^ 32"
      by (intro less_mult_imp_div_less) simp
    then show ?thesis
      unfolding unat_ucast_mod unat_drop_bit_div by simp
  qed
  ultimately show ?thesis
    unfolding base_uint_u64_def le_val_Cons32 by simp
qed

lemma le_val_op_add [value_simps]:
  "wf_uint a \<Longrightarrow> wf_uint b \<Longrightarrow> le_val (op_add a b) = (le_val a + le_val b) mod 2 ^ 256"
  using le_val_add_limbs [of a b 0] unfolding wf_uint_def op_add_def WIDTH_def by simp

lemma le_val_op_inc [value_simps]:
  "wf_uint a \<Longrightarrow> le_val (op_inc a) = (le_val a + 1) mod 2 ^ 256"
  using le_val_inc_limbs [of a] unfolding wf_uint_def op_inc_def WIDTH_def by simp

lemma le_val_op_not [value_simps]:
  "wf_uint a \<Longrightarrow> le_val (op_not a) = 2 ^ 256 - 1 - le_val a"
  using le_val_not [of a] unfolding wf_uint_def op_not_def WIDTH_def by simp

lemma le_val_op_neg [value_simps]:
  assumes "wf_uint a"
  shows "le_val (op_neg a) = (2 ^ 256 - le_val a) mod 2 ^ 256"
proof -
  have "op_neg a = op_inc (op_not a)"
    by (simp only: op_neg_def op_not_def)
  moreover have "2 ^ 256 - 1 - le_val a + 1 = 2 ^ 256 - le_val a"
    using wf_uint_value_bound [OF assms] by simp
  ultimately show ?thesis
    using assms by (simp only: le_val_op_inc le_val_op_not wf_uint_ops)
qed

lemma le_val_op_sub [value_simps]:
  assumes "wf_uint a" "wf_uint b"
  shows "le_val (op_sub a b) = (le_val a + (2 ^ 256 - le_val b)) mod 2 ^ 256"
  unfolding op_sub_def using assms
  by (simp only: le_val_op_add le_val_op_neg wf_uint_ops mod_add_right_eq)

lemma le_val_op_sub_le:
  assumes "wf_uint a" "wf_uint b" "le_val b \<le> le_val a"
  shows "le_val (op_sub a b) = le_val a - le_val b"
proof -
  have "le_val a + (2 ^ 256 - le_val b) = (le_val a - le_val b) + 2 ^ 256"
    using assms(3) wf_uint_value_bound [OF assms(2)] by linarith
  moreover have "le_val a - le_val b < 2 ^ 256"
    using wf_uint_value_bound [OF assms(1)] by linarith
  ultimately show ?thesis
    using assms(1,2) by (simp only: le_val_op_sub mod_add_self2 mod_less)
qed

lemma le_val_op_mul32 [value_simps]:
  "wf_uint a \<Longrightarrow> le_val (op_mul32 a m) = (le_val a * unat m) mod 2 ^ 256"
  using le_val_mul32_limbs [of 0 m a] unfolding wf_uint_def op_mul32_def WIDTH_def
  by (simp add: mult.commute)

lemma le_val_mul_step:
  assumes "length a = WIDTH" "length b = WIDTH" "j < WIDTH"
  shows "le_val (mul_step pn b j a) = (le_val a + 2 ^ (32 * j) * (unat (pn ! j) * le_val b)) mod 2 ^ 256"
proof -
  have low: "le_val (take j a) < 2 ^ (32 * j)"
    using le_val_bound32 [of "take j a"] assms by simp
  have "le_val (mul_inner 0 (pn ! j) (drop j a) b)
      = (le_val (drop j a) + unat (pn ! j) * le_val b) mod 2 ^ (32 * (WIDTH - j))"
    using le_val_mul_inner [of 0 "drop j a" b "pn ! j"] assms by simp
  then have "le_val (mul_step pn b j a) = le_val (take j a)
      + 2 ^ (32 * j) * ((le_val (drop j a) + unat (pn ! j) * le_val b) mod 2 ^ (32 * (WIDTH - j)))"
    using assms by (simp add: mul_step_def le_val_append)
  also have "\<dots> = (le_val (take j a) + 2 ^ (32 * j) * (le_val (drop j a) + unat (pn ! j) * le_val b))
      mod (2 ^ (32 * j) * 2 ^ (32 * (WIDTH - j)))"
    by (rule mod_add_low [OF low])
  also have "(2 :: nat) ^ (32 * j) * 2 ^ (32 * (WIDTH - j)) = 2 ^ 256"
  proof -
    have "32 * j + 32 * (WIDTH - j) = 256"
      using assms(3) by (simp add: WIDTH_def)
    then show ?thesis
      by (simp only: power_add [symmetric])
  qed
  also have "le_val (take j a) + 2 ^ (32 * j) * (le_val (drop j a) + unat (pn ! j) * le_val b)
      = le_val a + 2 ^ (32 * j) * (unat (pn ! j) * le_val b)"
  proof -
    have "le_val a = le_val (take j a) + 2 ^ (32 * j) * le_val (drop j a)"
      using le_val_append [of "take j a" "drop j a"] assms by simp
    then show ?thesis
      by (simp only: algebra_simps)
  qed
  finally show ?thesis .
qed

lemma mul_step_length: "length a = WIDTH \<Longrightarrow> length (mul_step pn b j a) = WIDTH"
  by (simp add: mul_step_def mul_inner_length)

lemma le_val_mul_fold:
  assumes "wf_uint b" "wf_uint pn" "j \<le> WIDTH"
  shows "length (fold (mul_step pn b) [0..<j] base_uint_zero) = WIDTH
    \<and> le_val (fold (mul_step pn b) [0..<j] base_uint_zero) = (le_val (take j pn) * le_val b) mod 2 ^ 256"
  using assms(3)
proof (induction j)
  case 0
  show ?case by (simp add: base_uint_zero_def)
next
  case (Suc j)
  let ?a = "fold (mul_step pn b) [0..<j] base_uint_zero"
  have j: "j < length pn" "j < WIDTH"
    using Suc.prems assms(2) by (simp_all add: wf_uint_def)
  have IH: "length ?a = WIDTH" "le_val ?a = (le_val (take j pn) * le_val b) mod 2 ^ 256"
    using Suc by simp_all
  have "le_val (take (Suc j) pn) = le_val (take j pn) + 2 ^ (32 * j) * unat (pn ! j)"
    using j by (simp add: take_Suc_conv_app_nth le_val_append)
  then have "(le_val (take (Suc j) pn) * le_val b) mod 2 ^ 256
      = (le_val ?a + 2 ^ (32 * j) * (unat (pn ! j) * le_val b)) mod 2 ^ 256"
    unfolding IH(2) by (simp only: mod_add_left_eq mod_add_right_eq algebra_simps)
  also have "\<dots> = le_val (mul_step pn b j ?a)"
    using le_val_mul_step [OF IH(1) _ j(2)] assms(1) by (simp add: wf_uint_def)
  finally show ?case
    using IH(1) by (simp add: mul_step_length)
qed

lemma wf_uint_op_mul [simp]: "wf_uint a \<Longrightarrow> wf_uint b \<Longrightarrow> wf_uint (op_mul a b)"
  using le_val_mul_fold [of b a WIDTH] by (simp add: wf_uint_def op_mul_def)

lemma le_val_op_mul [value_simps]:
  "wf_uint a \<Longrightarrow> wf_uint b \<Longrightarrow> le_val (op_mul a b) = (le_val a * le_val b) mod 2 ^ 256"
  using le_val_mul_fold [of b a WIDTH] by (simp add: wf_uint_def op_mul_def)

section \<open>Shifts\<close>

lemma or_at_length [width_simps]: "length (or_at i v pn) = length pn"
  by (simp add: or_at_def)

lemma nth_or_at: "m < length pn \<Longrightarrow> or_at i v pn ! m = (if m = i then pn ! m OR v else pn ! m)"
  by (simp add: or_at_def nth_list_update)

lemma shl_step_length [width_simps]: "length (shl_step a k s i pn) = length pn"
  by (simp add: shl_step_def Let_def width_simps)

lemma shr_step_length [width_simps]: "length (shr_step a k s i pn) = length pn"
  by (simp add: shr_step_def Let_def width_simps)

lemma fold_length:
  "(\<And>i pn. length (f i pn) = length pn) \<Longrightarrow> length (fold f is pn) = length pn"
  by (induction "is" arbitrary: pn) simp_all

lemma base_uint_zero_nth [simp]: "m < WIDTH \<Longrightarrow> base_uint_zero ! m = 0"
  by (simp add: base_uint_zero_def)

lemma base_uint_zero_length [simp]: "length base_uint_zero = WIDTH"
  by (simp add: base_uint_zero_def)

lemma shl_step_nth:
  assumes "length pn = WIDTH" "m < WIDTH"
  shows "shl_step a k s i pn ! m =
    (if m = i + k then pn ! m OR push_bit s (a ! i)
     else if m = i + k + 1 \<and> s \<noteq> 0 then pn ! m OR drop_bit (32 - s) (a ! i) else pn ! m)"
  using assms by (simp add: shl_step_def Let_def nth_or_at width_simps)


lemma shl_fold_bit:
  assumes "n \<le> WIDTH" "m < WIDTH"
  shows "bit (fold (shl_step a k s) [0..<n] base_uint_zero ! m) t \<longleftrightarrow>
    (k \<le> m \<and> m - k < n \<and> bit (push_bit s (a ! (m - k))) t) \<or>
    (k + 1 \<le> m \<and> m - k - 1 < n \<and> s \<noteq> 0 \<and> bit (drop_bit (32 - s) (a ! (m - k - 1))) t)"
  using assms(1)
proof (induction n)
  case 0
  show ?case using assms(2) by simp
next
  case (Suc n)
  let ?p = "fold (shl_step a k s) [0..<n] base_uint_zero"
  have "length ?p = WIDTH"
    by (simp add: fold_length width_simps)
  then have "bit (shl_step a k s n ?p ! m) t \<longleftrightarrow> bit (?p ! m) t
      \<or> (m = n + k \<and> bit (push_bit s (a ! n)) t)
      \<or> (m = n + k + 1 \<and> s \<noteq> 0 \<and> bit (drop_bit (32 - s) (a ! n)) t)"
    by (simp only: shl_step_nth [OF _ assms(2)] bit_or_iff split: if_split) auto
  moreover have "m = n + k \<longleftrightarrow> k \<le> m \<and> m - k = n" "m = n + k + 1 \<longleftrightarrow> k + 1 \<le> m \<and> m - k - 1 = n"
    by auto
  moreover have "bit (?p ! m) t \<longleftrightarrow>
    (k \<le> m \<and> m - k < n \<and> bit (push_bit s (a ! (m - k))) t) \<or>
    (k + 1 \<le> m \<and> m - k - 1 < n \<and> s \<noteq> 0 \<and> bit (drop_bit (32 - s) (a ! (m - k - 1))) t)"
    using Suc by simp
  ultimately show ?case
    unfolding upt_Suc_append [OF le0] fold_append fold_Cons fold_Nil comp_def id_def less_Suc_eq by metis
qed

lemma shr_step_nth:
  assumes "length pn = WIDTH" "m < WIDTH" "i < WIDTH"
  shows "shr_step a k s i pn ! m =
    (if i = m + k then pn ! m OR drop_bit s (a ! i)
     else if i = m + k + 1 \<and> s \<noteq> 0 then pn ! m OR push_bit (32 - s) (a ! i) else pn ! m)"
  using assms by (auto simp add: shr_step_def Let_def nth_or_at width_simps)

lemma shr_fold_bit:
  assumes "n \<le> WIDTH" "m < WIDTH"
  shows "bit (fold (shr_step a k s) [0..<n] base_uint_zero ! m) t \<longleftrightarrow>
    (m + k < n \<and> bit (drop_bit s (a ! (m + k))) t) \<or>
    (m + k + 1 < n \<and> s \<noteq> 0 \<and> bit (push_bit (32 - s) (a ! (m + k + 1))) t)"
  using assms(1)
proof (induction n)
  case 0
  show ?case using assms(2) by simp
next
  case (Suc n)
  let ?p = "fold (shr_step a k s) [0..<n] base_uint_zero"
  have "length ?p = WIDTH"
    by (simp add: fold_length width_simps)
  moreover have "n < WIDTH"
    using Suc.prems by simp
  ultimately have "bit (shr_step a k s n ?p ! m) t \<longleftrightarrow> bit (?p ! m) t
      \<or> (m + k = n \<and> bit (drop_bit s (a ! n)) t)
      \<or> (m + k + 1 = n \<and> s \<noteq> 0 \<and> bit (push_bit (32 - s) (a ! n)) t)"
    by (simp only: shr_step_nth [OF _ assms(2)] bit_or_iff split: if_split) auto
  moreover have "bit (?p ! m) t \<longleftrightarrow>
    (m + k < n \<and> bit (drop_bit s (a ! (m + k))) t) \<or>
    (m + k + 1 < n \<and> s \<noteq> 0 \<and> bit (push_bit (32 - s) (a ! (m + k + 1))) t)"
    using Suc by simp
  ultimately show ?case
    unfolding upt_Suc_append [OF le0] fold_append fold_Cons fold_Nil comp_def id_def less_Suc_eq by metis
qed

lemma wf_uint_shift [simp]: "wf_uint (op_shl a s)" "wf_uint (op_shr a s)"
  by (simp_all add: wf_uint_def op_shl_def op_shr_def Let_def fold_length width_simps)

lemma bit_le_val32: "bit (le_val (pn :: u32 list)) n \<longleftrightarrow> n div 32 < length pn \<and> bit (pn ! (n div 32)) (n mod 32)"
  using bit_le_val [of pn n] by simp

lemma bit_le_val_at:
  "r < 32 \<Longrightarrow> bit (le_val (pn :: u32 list)) (q * 32 + r) \<longleftrightarrow> q < length pn \<and> bit (pn ! q) r"
  by (simp add: bit_le_val32)

lemma u32_bit_length: "bit (x :: u32) n \<Longrightarrow> n < 32"
  using bit_imp_le_length [of x n] by simp

lemma bit_op_shl_limb:
  assumes "length a = WIDTH" "m < WIDTH" "t < 32" "s < 32"
  shows "bit (op_shl a (32 * k + s) ! m) t \<longleftrightarrow> 32 * k + s \<le> 32 * m + t \<and> bit (le_val a) (32 * m + t - (32 * k + s))"
proof -
  have lhs: "bit (op_shl a (32 * k + s) ! m) t \<longleftrightarrow>
      (k \<le> m \<and> s \<le> t \<and> bit (a ! (m - k)) (t - s)) \<or>
      (k + 1 \<le> m \<and> s \<noteq> 0 \<and> bit (a ! (m - k - 1)) (32 - s + t))"
    using assms unfolding op_shl_def Let_def
    by (subst shl_fold_bit) (auto simp: bit_push_bit_iff bit_drop_bit_eq)
  show ?thesis
  proof (cases "s \<le> t")
    case True
    have no: "\<not> bit (a ! (m - k - 1)) (32 - s + t)"
      using True assms(4) u32_bit_length [of "a ! (m - k - 1)" "32 - s + t"] by linarith
    have le: "32 * k + s \<le> 32 * m + t \<longleftrightarrow> k \<le> m"
      using True assms by linarith
    have e: "32 * m + t - (32 * k + s) = (m - k) * 32 + (t - s)" if "k \<le> m"
      using True that by (simp add: algebra_simps)
    have "bit (le_val a) ((m - k) * 32 + (t - s)) \<longleftrightarrow> m - k < WIDTH \<and> bit (a ! (m - k)) (t - s)"
      using assms by (subst bit_le_val_at) simp_all
    then show ?thesis
      using lhs no True assms(2) unfolding le by (metis e less_imp_diff_less)
  next
    case False
    have le: "32 * k + s \<le> 32 * m + t \<longleftrightarrow> k + 1 \<le> m"
      using False assms by linarith
    have e: "32 * m + t - (32 * k + s) = (m - k - 1) * 32 + (32 - s + t)" if "k + 1 \<le> m"
      using False assms that by (simp add: algebra_simps)
    have "bit (le_val a) ((m - k - 1) * 32 + (32 - s + t)) \<longleftrightarrow> m - k - 1 < WIDTH \<and> bit (a ! (m - k - 1)) (32 - s + t)"
      using False assms by (subst bit_le_val_at) simp_all
    moreover have "s \<noteq> 0"
      using False by simp
    ultimately show ?thesis
      using lhs False assms(2) unfolding le by (metis e less_imp_diff_less)
  qed
qed

lemma bit_op_shr_limb:
  assumes "length a = WIDTH" "m < WIDTH" "t < 32" "s < 32"
  shows "bit (op_shr a (32 * k + s) ! m) t \<longleftrightarrow> bit (le_val a) (32 * m + t + (32 * k + s))"
proof -
  have lhs: "bit (op_shr a (32 * k + s) ! m) t \<longleftrightarrow>
      (m + k < WIDTH \<and> bit (a ! (m + k)) (s + t)) \<or>
      (m + k + 1 < WIDTH \<and> s \<noteq> 0 \<and> 32 - s \<le> t \<and> bit (a ! (m + k + 1)) (t - (32 - s)))"
    using assms unfolding op_shr_def Let_def
    by (subst shr_fold_bit) (auto simp: bit_push_bit_iff bit_drop_bit_eq)
  show ?thesis
  proof (cases "s + t < 32")
    case True
    have e: "32 * m + t + (32 * k + s) = (m + k) * 32 + (s + t)"
      by (simp add: algebra_simps)
    have "\<not> 32 - s \<le> t" if "s \<noteq> 0"
      using True that by linarith
    then show ?thesis
      using lhs unfolding e bit_le_val_at [OF True] assms(1) by metis
  next
    case False
    have e: "32 * m + t + (32 * k + s) = (m + k + 1) * 32 + (t - (32 - s))"
      using False assms by (simp add: algebra_simps)
    have no: "\<not> bit (a ! (m + k)) (s + t)"
      using False u32_bit_length by blast
    have small: "t - (32 - s) < 32" "s \<noteq> 0" "32 - s \<le> t"
      using False assms by auto
    show ?thesis
      using lhs no small(2,3) unfolding e bit_le_val_at [OF small(1)] assms(1) by metis
  qed
qed

lemma bit_op_shl:
  assumes "wf_uint a"
  shows "bit (le_val (op_shl a shift)) n \<longleftrightarrow> n < 256 \<and> shift \<le> n \<and> bit (le_val a) (n - shift)"
proof -
  have len: "length a = WIDTH" "length (op_shl a shift) = WIDTH"
    using assms wf_uint_shift(1) [of a shift] by (simp_all only: wf_uint_def)
  have "bit (op_shl a (32 * (shift div 32) + shift mod 32) ! (n div 32)) (n mod 32)
      \<longleftrightarrow> 32 * (shift div 32) + shift mod 32 \<le> 32 * (n div 32) + n mod 32
        \<and> bit (le_val a) (32 * (n div 32) + n mod 32 - (32 * (shift div 32) + shift mod 32))"
    if "n div 32 < WIDTH"
    using len that by (intro bit_op_shl_limb) simp_all
  moreover have "n div 32 < WIDTH \<longleftrightarrow> n < 256"
    by (auto simp: WIDTH_def)
  ultimately show ?thesis
    unfolding bit_le_val32 [of "op_shl a shift"] len(2) mult_div_mod_eq by metis
qed

lemma bit_op_shr:
  assumes "wf_uint a"
  shows "bit (le_val (op_shr a shift)) n \<longleftrightarrow> bit (le_val a) (n + shift)"
proof -
  have len: "length a = WIDTH" "length (op_shr a shift) = WIDTH"
    using assms wf_uint_shift(2) [of a shift] by (simp_all only: wf_uint_def)
  have "bit (op_shr a (32 * (shift div 32) + shift mod 32) ! (n div 32)) (n mod 32)
      \<longleftrightarrow> bit (le_val a) (32 * (n div 32) + n mod 32 + (32 * (shift div 32) + shift mod 32))"
    if "n div 32 < WIDTH"
    using len that by (intro bit_op_shr_limb) simp_all
  moreover have "n div 32 < WIDTH" if "bit (le_val a) (n + shift)"
  proof -
    have "(n + shift) div 32 < WIDTH"
      using that len(1) by (simp add: bit_le_val32)
    moreover have "n div 32 \<le> (n + shift) div 32"
      by (rule div_le_mono) simp
    ultimately show ?thesis by linarith
  qed
  ultimately show ?thesis
    unfolding bit_le_val32 [of "op_shr a shift"] len(2) mult_div_mod_eq by metis
qed

lemma le_val_op_shl [value_simps]:
  assumes "wf_uint a"
  shows "le_val (op_shl a shift) = (le_val a * 2 ^ shift) mod 2 ^ 256"
proof -
  have "le_val (op_shl a shift) = take_bit 256 (push_bit shift (le_val a))"
    using assms by (intro bit_eqI) (simp only: bit_op_shl bit_take_bit_iff bit_push_bit_iff, auto)
  then show ?thesis
    by (simp only: take_bit_eq_mod push_bit_eq_mult)
qed

lemma le_val_op_shr [value_simps]:
  assumes "wf_uint a"
  shows "le_val (op_shr a shift) = le_val a div 2 ^ shift"
proof -
  have "le_val (op_shr a shift) = drop_bit shift (le_val a)"
    using assms by (intro bit_eqI) (simp only: bit_op_shr bit_drop_bit_eq comp_def add.commute)
  then show ?thesis
    by (simp only: drop_bit_eq_div)
qed

section \<open>Comparison and bit length\<close>

lemma le_val_rev_Cons: "le_val (rev (p # pn)) = le_val (rev pn) + 2 ^ (32 * length pn) * unat (p :: u32)"
  by (simp add: le_val_append)

lemma compare_down_value:
  "length pn = length bs \<Longrightarrow>
     compare_down pn bs = (if le_val (rev pn) < le_val (rev bs) then -1
                           else if le_val (rev bs) < le_val (rev pn) then 1 else 0)"
proof (induction pn bs rule: list_induct2)
  case Nil
  show ?case by simp
next
  case (Cons p pn b bs)
  have bound: "le_val (rev pn) < 2 ^ (32 * length pn)" "le_val (rev bs) < 2 ^ (32 * length pn)"
    using le_val_bound32 [of "rev pn"] le_val_bound32 [of "rev bs"] Cons.hyps by simp_all
  consider "p < b" | "b < p" | "p = b" by (rule linorder_cases)
  then show ?case
  proof cases
    case 1
    then have "le_val (rev (p # pn)) < le_val (rev (b # bs))"
      unfolding le_val_rev_Cons Cons.hyps [symmetric] by (intro scaled_less bound) (simp add: word_less_nat_alt)
    with 1 show ?thesis by simp
  next
    case 2
    then have "le_val (rev (b # bs)) < le_val (rev (p # pn))"
      unfolding le_val_rev_Cons Cons.hyps [symmetric] by (intro scaled_less bound) (simp add: word_less_nat_alt)
    with 2 show ?thesis by simp
  next
    case 3
    then show ?thesis
      using Cons.IH by (simp only: compare_down.simps le_val_rev_Cons Cons.hyps add_less_cancel_right
          less_irrefl if_False)
  qed
qed

lemma CompareTo_value:
  assumes "wf_uint a" "wf_uint b"
  shows "CompareTo a b = (if le_val a < le_val b then -1 else if le_val b < le_val a then 1 else 0)"
  unfolding CompareTo_def using assms by (subst compare_down_value) (simp_all add: wf_uint_def)

lemma u64_bound: "unat (b :: u64) < 2 ^ 64"
  by (rule order.strict_trans2 [OF unsigned_less]) simp

lemma unat_halves_u64:
  "unat (ucast (b :: u64) :: u32) = unat b mod 2 ^ 32"
  "unat (ucast (drop_bit 32 (b :: u64)) :: u32) = unat b div 2 ^ 32"
proof -
  show "unat (ucast b :: u32) = unat b mod 2 ^ 32"
    unfolding unat_ucast_mod by simp
  have "unat b div 2 ^ 32 < 2 ^ 32"
    using u64_bound [of b] by (intro less_mult_imp_div_less) simp
  then show "unat (ucast (drop_bit 32 b) :: u32) = unat b div 2 ^ 32"
    unfolding unat_ucast_mod unat_drop_bit_div by simp
qed

lemma EqualTo_value:
  assumes "wf_uint a"
  shows "EqualTo a b \<longleftrightarrow> le_val a = unat b"
proof -
  from assms obtain x0 x1 x2 x3 x4 x5 x6 x7 where a: "a = [x0, x1, x2, x3, x4, x5, x6, x7]"
    by (auto simp: wf_uint_def WIDTH_def length_Suc_conv eval_nat_numeral)
  have idx: "set (rev [2..<WIDTH]) = {2, 3, 4, 5, 6, 7}"
    by (auto simp: WIDTH_def)
  have m: "(0xffffffff :: u64) = mask 32"
    by (simp add: mask_eq_exp_minus_1)
  have high: "unat b div 4294967296 mod 4294967296 = unat b div 4294967296"
    using u64_bound [of b] by (intro mod_less less_mult_imp_div_less) simp
  have ucast_eq: "ucast (x :: u32) = (w :: u64) \<longleftrightarrow> unat x = unat w" for x w
    by (simp add: word_unat_eq_iff)
  have b: "base_uint_u64 b = [ucast b, ucast (drop_bit 32 b), 0, 0, 0, 0, 0, 0]"
    by (simp add: base_uint_u64_def WIDTH_def eval_nat_numeral)
  have "EqualTo a b \<longleftrightarrow> x2 = 0 \<and> x3 = 0 \<and> x4 = 0 \<and> x5 = 0 \<and> x6 = 0 \<and> x7 = 0
      \<and> unat x1 = unat (drop_bit 32 b) \<and> unat x0 = unat (b AND mask 32)"
    unfolding EqualTo_def idx by (auto simp: a ucast_eq m)
  also have "\<dots> \<longleftrightarrow> a = base_uint_u64 b"
    unfolding a b by (auto simp: word_unat_eq_iff unat_halves_u64 unat_and_mask unat_drop_bit_div high)
  also have "\<dots> \<longleftrightarrow> le_val a = le_val (base_uint_u64 b)"
    using assms wf_uint_ops(1) [of b] by (subst le_val_inject) (simp_all add: wf_uint_def)
  finally show ?thesis
    by (simp only: le_val_u64)
qed

lemma top_bit_value:
  assumes "unat p < 2 ^ Suc n" "p \<noteq> 0"
  shows "\<exists>r. top_bit n p pos = 32 * pos + Suc r \<and> r \<le> n \<and> 2 ^ r \<le> unat p \<and> unat p < 2 ^ Suc r"
  using assms(1)
proof (induction n)
  case 0
  then show ?case
    using assms(2) by (intro exI [of _ 0]) (auto simp: unat_gt_0 Suc_le_eq)
next
  case (Suc n)
  have b: "p AND push_bit (Suc n) 1 \<noteq> 0 \<longleftrightarrow> 2 ^ Suc n \<le> unat p"
    unfolding push_bit_of_1 and_exp_eq_0_iff_not_bit not_not
    using nat_top_bit [OF Suc.prems] by (simp only: bit_unsigned_iff possible_bit_nat) simp
  show ?case
  proof (cases "2 ^ Suc n \<le> unat p")
    case True
    then show ?thesis
      using Suc.prems b by (intro exI [of _ "Suc n"]) simp
  next
    case False
    then have "unat p < 2 ^ Suc n" by simp
    then obtain r where "top_bit n p pos = 32 * pos + Suc r" "r \<le> n" "2 ^ r \<le> unat p" "unat p < 2 ^ Suc r"
      using Suc.IH by blast
    with False b show ?thesis
      by (intro exI [of _ r]) auto
  qed
qed

lemma bits_down_value:
  "bits_down pn \<le> 32 * length pn \<and> le_val (rev pn) < 2 ^ bits_down pn
     \<and> (bits_down pn = 0 \<or> 2 ^ (bits_down pn - 1) \<le> le_val (rev pn))"
proof (induction pn)
  case Nil
  show ?case by simp
next
  case (Cons p pn)
  show ?case
  proof (cases "p = 0")
    case True
    then show ?thesis
      using Cons.IH by (simp add: le_val_append)
  next
    case False
    have "unat p < 2 ^ Suc 31"
      using u32_bound [of p] by simp
    from top_bit_value [OF this False] obtain r where
      r: "top_bit 31 p (length pn) = 32 * length pn + Suc r" "r \<le> 31" "2 ^ r \<le> unat p" "unat p < 2 ^ Suc r"
      by blast
    have v: "le_val (rev (p # pn)) = le_val (rev pn) + 2 ^ (32 * length pn) * unat p"
      by (rule le_val_rev_Cons)
    have "le_val (rev pn) < 2 ^ (32 * length pn)"
      using le_val_bound32 [of "rev pn"] by simp
    from scaled_less [OF this r(4), of 0] have up: "le_val (rev (p # pn)) < 2 ^ (32 * length pn + Suc r)"
      unfolding v by (simp only: power_add add_0)
    have "2 ^ (32 * length pn + r) \<le> le_val (rev (p # pn))"
      unfolding v power_add using r(3) by (intro trans_le_add2 mult_le_mono2)
    with up r(1,2) False show ?thesis
      by simp
  qed
qed

lemma bits_uint_bound: "wf_uint a \<Longrightarrow> bits_uint a \<le> 256"
  using bits_down_value [of "rev a"] by (simp add: bits_uint_def wf_uint_def WIDTH_def)

lemma bits_uint_upper: "le_val a < 2 ^ bits_uint a"
  using bits_down_value [of "rev a"] by (simp add: bits_uint_def)

lemma bits_uint_lower: "bits_uint a \<noteq> 0 \<Longrightarrow> 2 ^ (bits_uint a - 1) \<le> le_val a"
  using bits_down_value [of "rev a"] by (simp add: bits_uint_def)

lemma bits_uint_0_iff: "bits_uint a = 0 \<longleftrightarrow> le_val a = 0"
proof
  assume "bits_uint a = 0"
  then show "le_val a = 0" using bits_uint_upper [of a] by simp
next
  assume "le_val a = 0"
  then show "bits_uint a = 0" using bits_uint_lower [of a] by (cases "bits_uint a = 0") simp_all
qed

lemma bits_uint_le_iff: "bits_uint a \<le> n \<longleftrightarrow> le_val a < 2 ^ n"
proof
  assume "bits_uint a \<le> n"
  then have "(2 :: nat) ^ bits_uint a \<le> 2 ^ n" by (rule power_increasing) simp
  with bits_uint_upper [of a] show "le_val a < 2 ^ n" by linarith
next
  assume *: "le_val a < 2 ^ n"
  show "bits_uint a \<le> n"
  proof (rule ccontr)
    assume "\<not> bits_uint a \<le> n"
    then have "(2 :: nat) ^ n \<le> 2 ^ (bits_uint a - 1)" by (intro power_increasing) auto
    moreover have "2 ^ (bits_uint a - 1) \<le> le_val a"
      using \<open>\<not> bits_uint a \<le> n\<close> by (intro bits_uint_lower) simp
    ultimately show False using * by linarith
  qed
qed

section \<open>Division\<close>

lemma nat_and_31: "(n :: nat) AND 31 = n mod 32"
proof -
  have "(31 :: nat) = mask 5" by (simp add: mask_eq_exp_minus_1)
  then show ?thesis by (simp only: take_bit_eq_mask [symmetric] take_bit_eq_mod) simp
qed

lemma set_quotient_bit:
  assumes "wf_uint q" "s < 256" "\<not> bit (le_val q) s"
  shows "le_val (q[s div 32 := q ! (s div 32) OR push_bit (s AND 31) 1]) = le_val q + 2 ^ s"
proof -
  let ?q = "q[s div 32 := q ! (s div 32) OR push_bit (s AND 31) 1]"
  have len: "length q = WIDTH" "s div 32 < WIDTH"
    using assms(1,2) by (auto simp: wf_uint_def WIDTH_def)
  have "bit (le_val ?q) n \<longleftrightarrow> bit (le_val q) n \<or> n = s" for n
  proof (cases "n div 32 = s div 32")
    case True
    then have "n mod 32 = s mod 32 \<longleftrightarrow> n = s"
      by (metis div_mod_decomp)
    moreover have "s mod 32 < 32" by simp
    ultimately show ?thesis
      using True len by (auto simp: bit_le_val32 nat_and_31 bit_or_iff bit_exp_iff possible_bit_word)
  next
    case False
    then show ?thesis
      using len by (auto simp: bit_le_val32)
  qed
  then have "le_val ?q = le_val q OR 2 ^ s"
    by (intro bit_eqI) (simp add: bit_or_iff bit_exp_iff)
  also have "\<dots> = le_val q + 2 ^ s"
    using assms(3) by (intro disjunctive_add [symmetric]) (auto simp: bit_exp_iff)
  finally show ?thesis .
qed

lemma dvd_not_bit: "2 ^ Suc s dvd (n :: nat) \<Longrightarrow> \<not> bit n s"
  by (auto simp: bit_iff_odd elim!: dvdE)

lemma div_loop_correct:
  assumes "wf_uint num" "wf_uint dv" "wf_uint q" "n \<le> 256"
    and "0 < n \<Longrightarrow> le_val dv = d * 2 ^ (n - 1)" "le_val num < d * 2 ^ n" "2 ^ n dvd le_val q"
    and "div_loop n num dv q = (q', r)"
  shows "wf_uint q' \<and> wf_uint r \<and> le_val q' * d + le_val r = le_val q * d + le_val num \<and> le_val r < d"
  using assms
proof (induction n arbitrary: num dv q)
  case 0
  then show ?case by simp
next
  case (Suc s)
  have dv: "le_val dv = d * 2 ^ s" and s: "s < 256"
    using Suc.prems by simp_all
  have shr: "wf_uint (op_shr dv 1)" "0 < s \<Longrightarrow> le_val (op_shr dv 1) = d * 2 ^ (s - 1)"
    using Suc.prems(2) dv by (simp, cases s, simp_all add: le_val_op_shr)
  have twice: "d * 2 ^ Suc s = d * 2 ^ s + d * 2 ^ s"
    by simp
  show ?case
  proof (cases "CompareTo num dv \<ge> 0")
    case True
    then have ge: "d * 2 ^ s \<le> le_val num"
      using Suc.prems(1,2) dv by (simp add: CompareTo_value split: if_splits)
    let ?q = "q[s div 32 := q ! (s div 32) OR push_bit (s AND 31) 1]"
    have q: "le_val ?q = le_val q + 2 ^ s"
      by (rule set_quotient_bit [OF Suc.prems(3) s dvd_not_bit [OF Suc.prems(7)]])
    have wf: "wf_uint ?q"
      using Suc.prems(3) by (simp add: wf_uint_def)
    have num: "le_val (op_sub num dv) = le_val num - d * 2 ^ s"
      using le_val_op_sub_le [OF Suc.prems(1,2)] ge dv by simp
    have "2 ^ s dvd le_val q"
      using Suc.prems(7) by (rule power_le_dvd) simp
    then have "2 ^ s dvd le_val ?q"
      unfolding q by simp
    moreover have "le_val (op_sub num dv) < d * 2 ^ s"
      using Suc.prems(6) ge unfolding num twice by linarith
    moreover have "div_loop s (op_sub num dv) (op_shr dv 1) ?q = (q', r)"
      using Suc.prems(8) True by simp
    ultimately have "wf_uint q' \<and> wf_uint r \<and> le_val q' * d + le_val r = le_val ?q * d + le_val (op_sub num dv) \<and> le_val r < d"
      using Suc.prems(1,2) s shr wf by (intro Suc.IH) auto
    then show ?thesis
      using ge unfolding q num by (simp add: algebra_simps)
  next
    case False
    then have "le_val num < d * 2 ^ s"
      using Suc.prems(1,2) dv by (simp add: CompareTo_value split: if_splits)
    moreover have "2 ^ s dvd le_val q"
      using Suc.prems(7) by (rule power_le_dvd) simp
    moreover have "div_loop s num (op_shr dv 1) q = (q', r)"
      using Suc.prems(8) False by simp
    ultimately show ?thesis
      using Suc.prems(1,3) s shr by (intro Suc.IH) auto
  qed
qed

lemma op_div_zero: "le_val b = 0 \<Longrightarrow> op_div a b = Inl (Thrown ''Division by zero'')"
  by (simp add: op_div_def Let_def bits_uint_0_iff)

lemma op_div_value:
  assumes "wf_uint a" "wf_uint b" "le_val b \<noteq> 0"
  shows "\<exists>q. op_div a b = Inr q \<and> wf_uint q \<and> le_val q = le_val a div le_val b"
proof (cases "bits_uint b > bits_uint a")
  case True
  have "le_val a < 2 ^ (bits_uint b - 1)"
    using True by (simp add: bits_uint_le_iff [symmetric])
  also have "\<dots> \<le> le_val b"
    using assms(3) by (intro bits_uint_lower) (simp add: bits_uint_0_iff)
  finally show ?thesis
    using True assms(3) by (simp add: op_div_def Let_def bits_uint_0_iff base_uint_zero_def wf_uint_def)
next
  case False
  define shift where "shift = bits_uint a - bits_uint b"
  have sum: "shift + bits_uint b = bits_uint a" and b0: "bits_uint b \<noteq> 0"
    using False assms(3) by (simp_all add: shift_def bits_uint_0_iff)
  have le: "bits_uint a \<le> 256" using assms(1) by (rule bits_uint_bound)
  have "le_val b * 2 ^ shift < 2 ^ bits_uint b * 2 ^ shift"
    using bits_uint_upper [of b] by simp
  also have "\<dots> \<le> (2 :: nat) ^ 256"
    unfolding power_add [symmetric] using sum le by (intro power_increasing) simp_all
  finally have dv: "le_val (op_shl b shift) = le_val b * 2 ^ shift"
    using assms(2) by (simp add: le_val_op_shl)
  have "le_val a < 2 ^ (bits_uint b - 1) * 2 ^ Suc shift"
    using bits_uint_upper [of a] sum b0 unfolding power_add [symmetric] by (cases "bits_uint b") (auto simp: add.commute)
  also have "\<dots> \<le> le_val b * 2 ^ Suc shift"
    using bits_uint_lower [OF b0] by simp
  finally have num: "le_val a < le_val b * 2 ^ Suc shift" .
  obtain q r where qr: "div_loop (Suc shift) a (op_shl b shift) base_uint_zero = (q, r)"
    by (cases "div_loop (Suc shift) a (op_shl b shift) base_uint_zero")
  have z: "le_val base_uint_zero = 0" by (simp add: base_uint_zero_def)
  have "wf_uint q \<and> wf_uint r \<and> le_val q * le_val b + le_val r = le_val base_uint_zero * le_val b + le_val a
      \<and> le_val r < le_val b"
    using assms(1,2) num sum le b0 dv z qr by (intro div_loop_correct [of a "op_shl b shift" base_uint_zero "Suc shift"]) auto
  then have "wf_uint q" and "le_val a = le_val r + le_val q * le_val b" and "le_val r < le_val b"
    using z by simp_all
  moreover have "op_div a b = Inr q"
    using False b0 qr by (simp add: op_div_def Let_def shift_def)
  ultimately show ?thesis
    using assms(3) by (intro exI [of _ q]) simp
qed

lemma bits_uint_value: "bits_uint a = bit_length (le_val a)"
  by (rule antisym) (simp_all add: bits_uint_le_iff bit_length_le_iff bit_length_upper bits_uint_upper)

lemma unat_GetLow64:
  assumes "wf_uint a"
  shows "unat (GetLow64 a) = le_val a mod 2 ^ 64"
proof -
  from assms obtain x y r where a: "a = x # y # r"
    by (auto simp: wf_uint_def WIDTH_def length_Suc_conv eval_nat_numeral)
  have "GetLow64 a = ucast x + push_bit 32 (ucast y)"
    unfolding GetLow64_def a
    by (simp only: nth_Cons_0 nth_Cons_Suc One_nat_def, rule disjunctive_add [symmetric])
      (auto simp: bit_push_bit_iff bit_ucast_iff dest: u32_bit_length)
  moreover have "unat (push_bit 32 (ucast y) :: u64) = unat y * 2 ^ 32"
    unfolding unat_push_bit_mod using u32_bound [of y] by simp
  ultimately have "unat (GetLow64 a) = unat x + unat y * 2 ^ 32"
    using u32_bound [of x] u32_bound [of y] by (simp add: unat_word_ariths)
  moreover have "le_val a = (unat x + unat y * 2 ^ 32) + 2 ^ 64 * le_val r"
    unfolding a le_val_Cons32 by simp
  moreover have "unat x + unat y * 2 ^ 32 < 2 ^ 64"
    using u32_bound [of x] u32_bound [of y] by simp
  ultimately show ?thesis by simp
qed

section \<open>Conversions\<close>

lemma le_val_read_chunks:
  "length h = 4 * n \<Longrightarrow> le_val (map (\<lambda>x. ReadLE32 (drop (x * 4) h)) [0..<n]) = le_val h"
proof (induction n arbitrary: h)
  case 0
  then show ?case by simp
next
  case (Suc n)
  have shift: "map (\<lambda>x. ReadLE32 (drop (x * 4) h)) [0..<Suc n]
      = ReadLE32 h # map (\<lambda>x. ReadLE32 (drop (x * 4) (drop 4 h))) [0..<n]"
    by (simp add: upt_conv_Cons map_Suc_upt [symmetric] add.commute del: upt_Suc)
  have "le_val h = le_val (take 4 h) + 2 ^ 32 * le_val (drop 4 h)"
    using le_val_append [of "take 4 h" "drop 4 h"] Suc.prems by simp
  moreover have "le_val (map (\<lambda>x. ReadLE32 (drop (x * 4) (drop 4 h))) [0..<n]) = le_val (drop 4 h)"
    using Suc.prems by (intro Suc.IH) simp
  ultimately show ?case
    unfolding shift le_val_Cons32 unat_ReadLE32 by simp
qed

lemma wf_UintToArith256 [simp]: "wf_uint (UintToArith256 h)"
  by (simp add: wf_uint_def UintToArith256_def)

lemma le_val_UintToArith256: "wf_uint256 h \<Longrightarrow> le_val (UintToArith256 h) = le_val h"
  unfolding UintToArith256_def by (rule le_val_read_chunks) (simp add: wf_uint256_def WIDTH_def)

lemma le_val_write_chunks: "le_val (concat (map WriteLE32 a)) = le_val a"
  by (induction a) (simp_all add: le_val_append le_val_WriteLE32)

lemma ArithToUint256_map: "wf_uint a \<Longrightarrow> ArithToUint256 a = concat (map WriteLE32 a)"
proof -
  assume "wf_uint a"
  then have "map (\<lambda>x. WriteLE32 (a ! x)) [0..<WIDTH] = map WriteLE32 a"
    by (intro nth_equalityI) (simp_all add: wf_uint_def)
  then show ?thesis
    by (simp only: ArithToUint256_def)
qed

lemma wf_ArithToUint256: "wf_uint a \<Longrightarrow> wf_uint256 (ArithToUint256 a)"
  by (simp add: ArithToUint256_map wf_uint256_def length_concat comp_def wf_uint_def WIDTH_def
      sum_list_triv)

lemma le_val_ArithToUint256: "wf_uint a \<Longrightarrow> le_val (ArithToUint256 a) = le_val a"
  by (simp add: ArithToUint256_map le_val_write_chunks)


section \<open>The arithmetic contract\<close>

text \<open>
  What the difficulty and work computations rely on: a 256-bit unsigned integer type with wrapping
  addition, multiplication, complement and comparison, and a division that throws exactly on zero.
\<close>

locale uint256_arith =
  fixes wf :: "'a \<Rightarrow> bool"
    and val :: "'a \<Rightarrow> nat"
    and of_u64 :: "u64 \<Rightarrow> 'a"
    and add :: "'a \<Rightarrow> 'a \<Rightarrow> 'a"
    and sub :: "'a \<Rightarrow> 'a \<Rightarrow> 'a"
    and mul :: "'a \<Rightarrow> 'a \<Rightarrow> 'a"
    and mul32 :: "'a \<Rightarrow> u32 \<Rightarrow> 'a"
    and cpl :: "'a \<Rightarrow> 'a"
    and divide :: "'a \<Rightarrow> 'a \<Rightarrow> 'a result"
    and compare :: "'a \<Rightarrow> 'a \<Rightarrow> int"
  assumes val_bound: "wf a \<Longrightarrow> val a < 2 ^ 256"
    and of_u64: "wf (of_u64 n)" "val (of_u64 n) = unat n"
    and add: "wf a \<Longrightarrow> wf b \<Longrightarrow> wf (add a b)"
      "wf a \<Longrightarrow> wf b \<Longrightarrow> val (add a b) = (val a + val b) mod 2 ^ 256"
    and sub: "wf a \<Longrightarrow> wf b \<Longrightarrow> wf (sub a b)"
      "wf a \<Longrightarrow> wf b \<Longrightarrow> val (sub a b) = (val a + (2 ^ 256 - val b)) mod 2 ^ 256"
    and mul: "wf a \<Longrightarrow> wf b \<Longrightarrow> wf (mul a b)"
      "wf a \<Longrightarrow> wf b \<Longrightarrow> val (mul a b) = (val a * val b) mod 2 ^ 256"
    and mul32: "wf a \<Longrightarrow> wf (mul32 a m)"
      "wf a \<Longrightarrow> val (mul32 a m) = (val a * unat m) mod 2 ^ 256"
    and cpl: "wf a \<Longrightarrow> wf (cpl a)" "wf a \<Longrightarrow> val (cpl a) = 2 ^ 256 - 1 - val a"
    and divide_zero: "val b = 0 \<Longrightarrow> divide a b = Inl (Thrown ''Division by zero'')"
    and divide_value: "wf a \<Longrightarrow> wf b \<Longrightarrow> val b \<noteq> 0 \<Longrightarrow>
      \<exists>q. divide a b = Inr q \<and> wf q \<and> val q = val a div val b"
    and compare: "wf a \<Longrightarrow> wf b \<Longrightarrow>
      compare a b = (if val a < val b then - 1 else if val b < val a then 1 else 0)"
begin

text \<open>Scaling a target by a ratio: exact as long as the product fits in 256 bits.\<close>

lemma scale_ratio:
  assumes "wf a" "val a * unat m < 2 ^ 256" "t \<noteq> 0"
  shows "\<exists>q. divide (mul32 a m) (of_u64 t) = Inr q \<and> wf q \<and> val q = val a * unat m div unat t"
proof -
  have "val (mul32 a m) = val a * unat m"
    using assms(1,2) by (simp add: mul32)
  moreover have "val (of_u64 t) = unat t" "unat t \<noteq> 0"
    using assms(3) by (simp_all add: of_u64 unat_eq_0)
  ultimately show ?thesis
    using divide_value [of "mul32 a m" "of_u64 t"] assms(1) by (simp add: mul32 of_u64)
qed

text \<open>The expression \<^verbatim>\<open>~t / (t + 1) + 1\<close> is \<^verbatim>\<open>2**256 / (t + 1)\<close> without the 257-bit numerator.\<close>

lemma work_quotient:
  assumes "wf t" "val t \<noteq> 0" "val t + 1 < 2 ^ 256"
  shows "\<exists>w. rbind (divide (cpl t) (add t (of_u64 1))) (\<lambda>q. Inr (add q (of_u64 1))) = Inr w
    \<and> wf w \<and> val w = 2 ^ 256 div (val t + 1)"
proof -
  have d: "wf (add t (of_u64 1))" "val (add t (of_u64 1)) = val t + 1"
    using assms by (simp_all add: add of_u64)
  obtain q where q: "divide (cpl t) (add t (of_u64 1)) = Inr q" "wf q"
      "val q = (2 ^ 256 - 1 - val t) div (val t + 1)"
    using divide_value [of "cpl t" "add t (of_u64 1)"] assms d by (auto simp: cpl)
  have "2 ^ 256 = (val t + 1) + (2 ^ 256 - 1 - val t)"
    using assms(3) by linarith
  then have sum: "val q + 1 = 2 ^ 256 div (val t + 1)"
    unfolding q(3) by (metis add.commute div_add_self1 Suc_eq_plus1 nat.distinct(1))
  have "2 ^ 256 div (val t + 1) < (2 :: nat) ^ 256"
    using assms(2) by (intro div_less_dividend) simp_all
  then have "val (add q (of_u64 1)) = 2 ^ 256 div (val t + 1)"
    using q(2) sum by (simp add: add of_u64)
  then show ?thesis
    using q(1,2) by (simp add: add of_u64)
qed

lemma compare_simps:
  assumes "wf a" "wf b"
  shows "0 < compare a b \<longleftrightarrow> val b < val a"
    and "compare a b < 0 \<longleftrightarrow> val a < val b"
    and "0 \<le> compare a b \<longleftrightarrow> val b \<le> val a"
    and "compare a b \<le> 0 \<longleftrightarrow> val a \<le> val b"
    and "compare a b = 0 \<longleftrightarrow> val a = val b"
  using compare [OF assms] by auto

end

interpretation limbs: uint256_arith wf_uint le_val base_uint_u64 op_add op_sub op_mul op_mul32 op_not op_div CompareTo
proof (unfold_locales, goal_cases)
  case (1 a) then show ?case by (rule wf_uint_value_bound)
next
  case (15 a b) then show ?case by (rule op_div_value)
next
  case (14 b a) then show ?case by (rule op_div_zero)
next
  case (16 a b) then show ?case by (rule CompareTo_value)
qed (simp_all add: value_simps)

section \<open>Refinement of the 256-bit machine word\<close>

definition word_of_uint :: "base_uint \<Rightarrow> 256 word" where
  "word_of_uint a = of_nat (le_val a)"

lemma word_of_uintI: "le_val a = n mod 2 ^ 256 \<Longrightarrow> word_of_uint a = of_nat n"
  by (simp add: word_of_uint_def word_unat_eq_iff unat_of_nat)

lemma unat_word_of_uint: "wf_uint a \<Longrightarrow> unat (word_of_uint a) = le_val a"
  using wf_uint_value_bound [of a] by (simp add: word_of_uint_def unat_of_nat)

lemma word_of_uint_inject: "wf_uint a \<Longrightarrow> wf_uint b \<Longrightarrow> word_of_uint a = word_of_uint b \<longleftrightarrow> a = b"
  by (metis le_val_inject unat_word_of_uint wf_uint_def)

lemma word_of_uint_minus:
  assumes "n \<le> 2 ^ 256"
  shows "(of_nat (2 ^ 256 - n) :: 256 word) = - of_nat n"
proof -
  have "(of_nat (2 ^ 256 - n) :: 256 word) = of_nat (2 ^ 256) - of_nat n"
    using assms by (rule of_nat_diff)
  also have "(of_nat (2 ^ 256) :: 256 word) = 0"
    by (simp add: word_unat_eq_iff unat_of_nat)
  finally show ?thesis by simp
qed

lemma word_of_op_neg: "wf_uint a \<Longrightarrow> word_of_uint (op_neg a) = - word_of_uint a"
proof -
  assume wf: "wf_uint a"
  then have "word_of_uint (op_neg a) = of_nat (2 ^ 256 - le_val a)"
    by (intro word_of_uintI le_val_op_neg)
  also have "\<dots> = - of_nat (le_val a)"
    using wf_uint_value_bound [OF wf] by (intro word_of_uint_minus) (rule less_imp_le)
  finally show ?thesis
    by (simp only: word_of_uint_def)
qed

lemma word_of_op_not: "wf_uint a \<Longrightarrow> word_of_uint (op_not a) = NOT (word_of_uint a)"
proof -
  assume wf: "wf_uint a"
  then have "word_of_uint (op_neg a) = word_of_uint (op_not a) + 1"
    by (simp add: word_of_uint_def op_neg_def le_val_op_inc flip: op_not_def)
       (simp add: word_unat_eq_iff unat_of_nat unat_word_ariths mod_simps)
  then show ?thesis
    unfolding word_of_op_neg [OF wf] not_eq_complement by (simp add: algebra_simps)
qed

lemma word_of_op_dec: "wf_uint a \<Longrightarrow> word_of_uint (op_dec a) = word_of_uint a - 1"
proof -
  assume wf: "wf_uint a"
  have "op_inc (op_dec a) = a"
    by (simp add: op_inc_def op_dec_def inc_dec_limbs)
  moreover have "word_of_uint (op_inc (op_dec a)) = of_nat (le_val (op_dec a) + 1)"
    using wf by (intro word_of_uintI le_val_op_inc) simp
  ultimately show ?thesis
    by (simp add: word_of_uint_def)
qed

lemma bit_word_of_uint: "wf_uint a \<Longrightarrow> bit (word_of_uint a) n \<longleftrightarrow> bit (le_val a) n"
  by (metis bit_unsigned_iff possible_bit_nat unat_word_of_uint)

lemma bit_map2:
  assumes "wf_uint a" "wf_uint b" "\<And>x y n. bit (f x y) n \<longleftrightarrow> g (bit x n) (bit (y :: u32) n)" "\<not> g False False"
  shows "bit (word_of_uint (map2 f a b)) n \<longleftrightarrow> g (bit (word_of_uint a) n) (bit (word_of_uint b) n)"
proof -
  have wf: "wf_uint (map2 f a b)" and len: "length a = WIDTH" "length b = WIDTH"
    using assms(1,2) by (simp_all add: wf_uint_def)
  have "bit (le_val (map2 f a b)) n \<longleftrightarrow> g (bit (le_val a) n) (bit (le_val b) n)"
    using assms(3,4) len by (cases "n div 32 < WIDTH") (simp_all add: bit_le_val32)
  then show ?thesis
    using wf assms(1,2) by (simp add: bit_word_of_uint)
qed

text \<open>
  C15: on well-formed arrays the limb arithmetic is the arithmetic of a 256-bit machine word:
  addition, subtraction, both multiplications, negation, increment and decrement commute with the
  abstraction \<open>word_of_uint\<close>, so each of them wraps around modulo \<open>2 ^ 256\<close>.
\<close>

theorem limb_ring_refines_word:
  assumes "wf_uint a" and "wf_uint b"
  shows "word_of_uint (op_add a b) = word_of_uint a + word_of_uint b
    \<and> word_of_uint (op_sub a b) = word_of_uint a - word_of_uint b
    \<and> word_of_uint (op_mul a b) = word_of_uint a * word_of_uint b
    \<and> word_of_uint (op_mul32 a m) = word_of_uint a * ucast m
    \<and> word_of_uint (op_neg a) = - word_of_uint a
    \<and> word_of_uint (op_inc a) = word_of_uint a + 1
    \<and> word_of_uint (op_dec a) = word_of_uint a - 1
    \<and> word_of_uint (op_add64 a n) = word_of_uint a + ucast n
    \<and> word_of_uint (op_sub64 a n) = word_of_uint a - ucast n"
proof -
  have add: "word_of_uint (op_add a b) = word_of_uint a + word_of_uint b" if "wf_uint b" for b
    using word_of_uintI [OF le_val_op_add, OF assms(1) that] by (simp add: word_of_uint_def)
  have sub: "word_of_uint (op_sub a b) = word_of_uint a - word_of_uint b" if "wf_uint b" for b
    unfolding op_sub_def using that by (simp add: add word_of_op_neg)
  have mul: "word_of_uint (op_mul a b) = word_of_uint a * word_of_uint b"
    using word_of_uintI [OF le_val_op_mul, OF assms] by (simp add: word_of_uint_def)
  have u64: "word_of_uint (base_uint_u64 n) = ucast n"
    by (simp add: word_of_uint_def le_val_u64)
  have "word_of_uint (op_mul32 a m) = word_of_uint a * ucast m"
    using word_of_uintI [OF le_val_op_mul32, OF assms(1)] by (simp add: word_of_uint_def)
  moreover have "word_of_uint (op_inc a) = word_of_uint a + 1"
    using word_of_uintI [OF le_val_op_inc, OF assms(1)] by (simp add: word_of_uint_def)
  ultimately show ?thesis
    using add [OF assms(2)] sub [OF assms(2)] mul add [of "base_uint_u64 n"] sub [of "base_uint_u64 n"]
      word_of_op_neg [OF assms(1)] word_of_op_dec [OF assms(1)]
    by (simp add: op_add64_def op_sub64_def op_sub_def u64)
qed

theorem limb_ring_refines_word_witness:
  "word_of_uint (op_sub [0, 0, 0, 0, 0, 0, 0, 0] [1, 0, 0, 0, 0, 0, 0, 0]) = - 1"
proof -
  have "wf_uint [0, 0, 0, 0, 0, 0, 0, 0]" "wf_uint [1, 0, 0, 0, 0, 0, 0, 0]"
    by (simp_all add: wf_uint_def WIDTH_def)
  from limb_ring_refines_word [OF this, of 0 0] show ?thesis
    by (simp add: word_of_uint_def)
qed

text \<open>
  The bitwise operations and both shifts (by any amount, also past the width) of the limb
  arrays are those of a 256-bit machine word.
\<close>

theorem limb_bits_refine_word:
  assumes "wf_uint a" and "wf_uint b"
  shows "word_of_uint (op_and a b) = word_of_uint a AND word_of_uint b
    \<and> word_of_uint (op_or a b) = word_of_uint a OR word_of_uint b
    \<and> word_of_uint (op_xor a b) = word_of_uint a XOR word_of_uint b
    \<and> word_of_uint (op_not a) = NOT (word_of_uint a)
    \<and> word_of_uint (op_shl a s) = push_bit s (word_of_uint a)
    \<and> word_of_uint (op_shr a s) = drop_bit s (word_of_uint a)"
proof (intro conjI)
  show "word_of_uint (op_and a b) = word_of_uint a AND word_of_uint b"
    using assms by (intro bit_word_eqI) (simp add: bit_and_iff op_and_def bit_map2 [where g = "(\<and>)"])
  show "word_of_uint (op_or a b) = word_of_uint a OR word_of_uint b"
    using assms by (intro bit_word_eqI) (simp add: bit_or_iff op_or_def bit_map2 [where g = "(\<or>)"])
  show "word_of_uint (op_xor a b) = word_of_uint a XOR word_of_uint b"
    using assms by (intro bit_word_eqI) (simp add: bit_xor_iff op_xor_def bit_map2 [where g = "(\<noteq>)"])
  show "word_of_uint (op_not a) = NOT (word_of_uint a)"
    using assms(1) by (rule word_of_op_not)
  show "word_of_uint (op_shl a s) = push_bit s (word_of_uint a)"
    using assms(1) by (intro bit_word_eqI) (simp add: bit_word_of_uint bit_push_bit_iff bit_op_shl)
  show "word_of_uint (op_shr a s) = drop_bit s (word_of_uint a)"
    using assms(1) by (intro bit_word_eqI) (simp add: bit_word_of_uint bit_drop_bit_eq bit_op_shr add.commute)
qed

theorem limb_bits_refine_word_witness:
  "word_of_uint (op_shl [0x80000000, 0, 0, 0, 0, 0, 0, 1] 33) = 2 ^ 64"
proof -
  have "wf_uint [0x80000000, 0, 0, 0, 0, 0, 0, 1]"
    by (simp add: wf_uint_def WIDTH_def)
  from limb_bits_refine_word [OF this this, of 33] show ?thesis
    by (simp add: word_of_uint_def)
qed

text \<open>
  \<^verbatim>\<open>CompareTo\<close> is the unsigned order of the words, \<^verbatim>\<open>EqualTo\<close> compares with a 64-bit
  number, \<^verbatim>\<open>bits\<close> is the bit length and \<^verbatim>\<open>GetLow64\<close> the low half.
\<close>

theorem limb_order_refines_word:
  assumes "wf_uint a" and "wf_uint b"
  shows "CompareTo a b = (if word_of_uint a < word_of_uint b then - 1
                          else if word_of_uint a > word_of_uint b then 1 else 0)
    \<and> (EqualTo a n \<longleftrightarrow> word_of_uint a = ucast n)
    \<and> bits_uint a = bit_length (unat (word_of_uint a))
    \<and> GetLow64 a = ucast (word_of_uint a)"
proof (intro conjI)
  show "CompareTo a b = (if word_of_uint a < word_of_uint b then - 1
                          else if word_of_uint a > word_of_uint b then 1 else 0)"
    using assms by (simp add: CompareTo_value word_less_nat_alt unat_word_of_uint)
  show "EqualTo a n \<longleftrightarrow> word_of_uint a = ucast n"
    using assms(1) by (simp add: EqualTo_value word_unat_eq_iff unat_word_of_uint unat_ucast_up)
  show "bits_uint a = bit_length (unat (word_of_uint a))"
    using assms(1) by (simp add: bits_uint_value unat_word_of_uint)
  show "GetLow64 a = ucast (word_of_uint a)"
    using assms(1) by (simp add: word_unat_eq_iff unat_GetLow64 unat_ucast_mod unat_word_of_uint)
qed

theorem limb_order_refines_word_witness:
  "CompareTo [5, 0, 0, 0, 0, 0, 0, 1] [9, 0, 0, 0, 0, 0, 0, 0] = 1 \<and> bits_uint [5, 0, 0, 0, 0, 0, 0, 1] = 225"
proof -
  have "wf_uint [5, 0, 0, 0, 0, 0, 0, 1]" "wf_uint [9, 0, 0, 0, 0, 0, 0, 0]"
    by (simp_all add: wf_uint_def WIDTH_def)
  note refines = limb_order_refines_word [OF this, of 0]
  have "word_of_uint [5, 0, 0, 0, 0, 0, 0, 1] = 26959946667150639794667015087019630673637144422540572481103610249221"
    "word_of_uint [9, 0, 0, 0, 0, 0, 0, 0] = 9"
    by (simp_all add: word_of_uint_def)
  with refines show ?thesis
    by (simp add: bit_length.simps)
qed

text \<open>
  C16: the shift-and-subtract division throws exactly for a zero divisor and otherwise returns,
  after its bounded loop, the quotient of the two words.
\<close>

theorem limb_div_refines_word:
  assumes "wf_uint a" and "wf_uint b"
  shows "if word_of_uint b = 0 then op_div a b = Inl (Thrown ''Division by zero'')
    else \<exists>q. op_div a b = Inr q \<and> wf_uint q \<and> word_of_uint q = word_of_uint a div word_of_uint b"
proof (cases "le_val b = 0")
  case True
  then show ?thesis
    by (simp add: op_div_zero word_of_uint_def)
next
  case False
  then obtain q where q: "op_div a b = Inr q" "wf_uint q" "le_val q = le_val a div le_val b"
    using op_div_value [OF assms] by blast
  then have "unat (word_of_uint q) = unat (word_of_uint a) div unat (word_of_uint b)"
    using assms by (simp add: unat_word_of_uint)
  then have "word_of_uint q = word_of_uint a div word_of_uint b"
    by (simp add: word_unat_eq_iff unat_div)
  moreover have "word_of_uint b \<noteq> 0"
    using False assms(2) by (metis unat_0 unat_word_of_uint)
  ultimately show ?thesis
    using q by simp
qed

theorem limb_div_refines_word_witness:
  "\<exists>q. op_div [7, 0, 0, 0, 0, 0, 0, 0] [2, 0, 0, 0, 0, 0, 0, 0] = Inr q \<and> word_of_uint q = 3"
proof -
  have "wf_uint [7, 0, 0, 0, 0, 0, 0, 0]" "wf_uint [2, 0, 0, 0, 0, 0, 0, 0]"
    by (simp_all add: wf_uint_def WIDTH_def)
  from limb_div_refines_word [OF this] show ?thesis
    by (auto simp: word_of_uint_def)
qed

text \<open>
  C17: converting a number to an opaque 256-bit blob and back, or a blob to a number and back,
  loses nothing.
\<close>

theorem blob_roundtrip:
  assumes "wf_uint a" and "wf_uint256 h"
  shows "wf_uint256 (ArithToUint256 a) \<and> UintToArith256 (ArithToUint256 a) = a
    \<and> wf_uint (UintToArith256 h) \<and> ArithToUint256 (UintToArith256 h) = h"
proof -
  have "le_val (UintToArith256 (ArithToUint256 a)) = le_val a"
    using assms(1) by (simp add: le_val_UintToArith256 wf_ArithToUint256 le_val_ArithToUint256)
  then have "UintToArith256 (ArithToUint256 a) = a"
    using assms(1) le_val_inject by (metis wf_UintToArith256 wf_uint_def)
  moreover have "le_val (ArithToUint256 (UintToArith256 h)) = le_val h"
    using assms(2) by (simp add: le_val_UintToArith256 le_val_ArithToUint256)
  then have "ArithToUint256 (UintToArith256 h) = h"
    using assms(2) wf_ArithToUint256 [OF wf_UintToArith256] le_val_inject by (metis wf_uint256_def)
  ultimately show ?thesis
    using assms(1) by (simp add: wf_ArithToUint256)
qed

theorem blob_roundtrip_witness:
  "UintToArith256 (ArithToUint256 [1, 2, 3, 4, 5, 6, 7, 8]) = [1, 2, 3, 4, 5, 6, 7, 8]
    \<and> ArithToUint256 (UintToArith256 (replicate 32 9)) = replicate 32 9"
  by (rule conjI, insert blob_roundtrip [of "[1, 2, 3, 4, 5, 6, 7, 8]" "replicate 32 9"])
     (simp_all add: wf_uint_def wf_uint256_def WIDTH_def)

end
