(* ===== verification/Arith_Compact.thy ===== *)
theory Arith_Compact
  imports Arith_Uint256
begin

text \<open>
  The compact representation of difficulty targets: \<^verbatim>\<open>arith_uint256::SetCompact\<close> and
  \<^verbatim>\<open>arith_uint256::GetCompact\<close>.  \<open>compact_value\<close> and \<open>compact_of\<close> are the reference
  definitions on unbounded numbers (mantissa times a power of 256, and the shortest such form whose
  sign bit is clear); \<open>compact_round\<close> is what one encoding step keeps of a number.
\<close>

section \<open>The code\<close>

definition SetCompact :: "u32 \<Rightarrow> base_uint \<times> bool \<times> bool" where
  "SetCompact nCompact =
     (let nSize = unat (drop_bit 24 nCompact);
          nWord0 = nCompact AND 0x007fffff;
          nWord = (if nSize \<le> 3 then drop_bit (8 * (3 - nSize)) nWord0 else nWord0);
          val = (if nSize \<le> 3 then base_uint_u64 (ucast nWord)
                 else op_shl (base_uint_u64 (ucast nWord)) (8 * (nSize - 3)));
          fNegative = (nWord \<noteq> 0 \<and> nCompact AND 0x00800000 \<noteq> 0);
          fOverflow = (nWord \<noteq> 0 \<and> (nSize > 34 \<or> (nWord > 0xff \<and> nSize > 33)
                                            \<or> (nWord > 0xffff \<and> nSize > 32)))
      in (val, fNegative, fOverflow))"

definition GetCompact :: "base_uint \<Rightarrow> bool \<Rightarrow> u32 result" where
  "GetCompact pn fNegative =
     (let nSize = (bits_uint pn + 7) div 8;
          nCompact = (if nSize \<le> 3 then ucast (push_bit (8 * (3 - nSize)) (GetLow64 pn))
                      else ucast (GetLow64 (op_shr pn (8 * (nSize - 3))))) :: u32;
          (nCompact, nSize) = (if nCompact AND 0x00800000 \<noteq> 0
                               then (drop_bit 8 nCompact, nSize + 1) else (nCompact, nSize))
      in rbind (cpp_assert (nCompact AND NOT 0x007fffff = 0)) (\<lambda>_.
         rbind (cpp_assert (nSize < 256)) (\<lambda>_.
           let nCompact = nCompact OR push_bit 24 (of_nat nSize);
               nCompact = nCompact OR (if fNegative \<and> nCompact AND 0x007fffff \<noteq> 0
                                       then 0x00800000 else 0)
           in Inr nCompact)))"

section \<open>Decoding\<close>

definition compact_value :: "nat \<Rightarrow> nat" where
  "compact_value c =
     (let size = c div 2 ^ 24; mant = c mod 2 ^ 23
      in if size \<le> 3 then mant div 256 ^ (3 - size) else mant * 256 ^ (size - 3))"

lemma compact_masks:
  "(c :: u32) AND 0x007fffff = c AND mask 23"
  "(c :: u32) AND 0x00800000 \<noteq> 0 \<longleftrightarrow> bit c 23"
proof -
  have "(0x007fffff :: u32) = mask 23" by (simp add: mask_eq_exp_minus_1)
  then show "c AND 0x007fffff = c AND mask 23" by simp
  have "(0x00800000 :: u32) = 2 ^ 23" by simp
  then show "c AND 0x00800000 \<noteq> 0 \<longleftrightarrow> bit c 23" by (simp only: and_exp_eq_0_iff_not_bit not_not)
qed

lemma wf_SetCompact [simp]: "wf_uint (fst (SetCompact c))"
  by (simp add: SetCompact_def Let_def)

lemma SetCompact_value:
  "le_val (fst (SetCompact c)) = compact_value (unat c) mod 2 ^ 256"
proof -
  have w: "unat (c AND 0x007fffff) = unat c mod 2 ^ 23"
    unfolding compact_masks(1) by (rule unat_and_mask)
  have s: "unat (drop_bit 24 c) = unat c div 2 ^ 24"
    by (rule unat_drop_bit_div)
  show ?thesis
  proof (cases "unat c div 2 ^ 24 \<le> 3")
    case True
    have "unat c mod 2 ^ 23 div 256 ^ (3 - unat c div 2 ^ 24) < 2 ^ 256"
    proof (rule le_less_trans [OF div_le_dividend])
      show "unat c mod 2 ^ 23 < 2 ^ 256"
        by (rule less_trans [of _ "2 ^ 23"]) simp_all
    qed
    then show ?thesis
      using True unfolding SetCompact_def Let_def compact_value_def s fst_conv
      by (simp only: if_True le_val_u64 unat_ucast_u32_u64 unat_drop_bit_div w pow256 mod_less)
  next
    case False
    then show ?thesis
      unfolding SetCompact_def Let_def compact_value_def s fst_conv
      by (simp only: if_False le_val_op_shl [OF wf_uint_ops(1)] le_val_u64 unat_ucast_u32_u64 w pow256)
  qed
qed

lemma SetCompact_negative:
  "fst (snd (SetCompact c)) \<longleftrightarrow> compact_value (unat c) \<noteq> 0 \<and> bit c 23"
proof -
  have w: "unat (c AND 0x007fffff) = unat c mod 2 ^ 23"
    unfolding compact_masks(1) by (rule unat_and_mask)
  have s: "unat (drop_bit 24 c) = unat c div 2 ^ 24"
    by (rule unat_drop_bit_div)
  show ?thesis
  proof (cases "unat c div 2 ^ 24 \<le> 3")
    case True
    then show ?thesis
      unfolding SetCompact_def Let_def compact_value_def s fst_conv snd_conv compact_masks(2)
      by (simp only: if_True unat_eq_0 [symmetric] unat_drop_bit_div w pow256)
  next
    case False
    then show ?thesis
      unfolding SetCompact_def Let_def compact_value_def s fst_conv snd_conv compact_masks(2)
      by (simp only: if_False unat_eq_0 [symmetric] w) simp
  qed
qed

lemma compact_overflow_arith:
  fixes m s :: nat
  assumes "3 < s" "m < 2 ^ 23"
  shows "2 ^ 256 \<le> m * 256 ^ (s - 3) \<longleftrightarrow> m \<noteq> 0 \<and> (34 < s \<or> 255 < m \<and> 33 < s \<or> 65535 < m \<and> 32 < s)"
proof -
  consider "34 < s" | "s = 34" | "s = 33" | "s \<le> 32" by linarith
  then show ?thesis
  proof cases
    case 1
    then have "(256 :: nat) ^ 32 \<le> 256 ^ (s - 3)" by (intro power_increasing) simp_all
    then have "m \<noteq> 0 \<Longrightarrow> 256 ^ 32 \<le> m * 256 ^ (s - 3)"
      by (cases m) simp_all
    then show ?thesis using 1 by (cases "m = 0") simp_all
  next
    case 2 then show ?thesis by auto
  next
    case 3 then show ?thesis by auto
  next
    case 4
    then have "(256 :: nat) ^ (s - 3) \<le> 256 ^ 29" by (intro power_increasing) simp_all
    then have "m * 256 ^ (s - 3) < 2 ^ 23 * 256 ^ 29"
      using assms(2) by (intro mult_less_le_imp_less) simp_all
    then show ?thesis using 4 by simp
  qed
qed

lemma SetCompact_overflow:
  "snd (snd (SetCompact c)) \<longleftrightarrow> 2 ^ 256 \<le> compact_value (unat c)"
proof -
  have w: "unat (c AND 0x007fffff) = unat c mod 2 ^ 23"
    unfolding compact_masks(1) by (rule unat_and_mask)
  have s: "unat (drop_bit 24 c) = unat c div 2 ^ 24"
    by (rule unat_drop_bit_div)
  show ?thesis
  proof (cases "unat c div 2 ^ 24 \<le> 3")
    case True
    have "unat c mod 2 ^ 23 div 256 ^ (3 - unat c div 2 ^ 24) < 2 ^ 256"
    proof (rule le_less_trans [OF div_le_dividend])
      show "unat c mod 2 ^ 23 < 2 ^ 256"
        by (rule less_trans [of _ "2 ^ 23"]) simp_all
    qed
    with True have "\<not> 2 ^ 256 \<le> compact_value (unat c)"
      unfolding compact_value_def Let_def by (simp only: if_True not_le)
    then show ?thesis
      using True unfolding SetCompact_def Let_def s snd_conv by auto
  next
    case False
    then have "2 ^ 256 \<le> compact_value (unat c) \<longleftrightarrow> unat c mod 2 ^ 23 \<noteq> 0 \<and>
      (34 < unat c div 2 ^ 24 \<or> 255 < unat c mod 2 ^ 23 \<and> 33 < unat c div 2 ^ 24
       \<or> 65535 < unat c mod 2 ^ 23 \<and> 32 < unat c div 2 ^ 24)"
      unfolding compact_value_def Let_def by (simp only: if_False, intro compact_overflow_arith) simp_all
    moreover have "c AND 0x007fffff > 0xff \<longleftrightarrow> 255 < unat c mod 2 ^ 23"
      and "c AND 0x007fffff > 0xffff \<longleftrightarrow> 65535 < unat c mod 2 ^ 23"
      and "c AND 0x007fffff \<noteq> 0 \<longleftrightarrow> unat c mod 2 ^ 23 \<noteq> 0"
      unfolding word_less_nat_alt w unat_eq_0 [symmetric] by simp_all
    ultimately show ?thesis
      using False unfolding SetCompact_def Let_def s snd_conv by (simp only: if_False)
  qed
qed

section \<open>Rounding\<close>

definition compact_exp :: "nat \<Rightarrow> nat" where
  "compact_exp v = bit_length v div 8 + 1"

definition compact_of :: "nat \<Rightarrow> nat" where
  "compact_of v =
     (if v = 0 then 0
      else let size = compact_exp v
           in (if size \<le> 3 then v * 256 ^ (3 - size) else v div 256 ^ (size - 3)) + 2 ^ 24 * size)"

definition compact_round :: "nat \<Rightarrow> nat" where
  "compact_round v = v div 256 ^ (compact_exp v - 3) * 256 ^ (compact_exp v - 3)"

lemma compact_mant_bound:
  assumes "v \<noteq> 0"
  shows "(if compact_exp v \<le> 3 then v * 256 ^ (3 - compact_exp v) else v div 256 ^ (compact_exp v - 3)) < 2 ^ 23"
proof -
  define e where "e = compact_exp v"
  have v: "v < 2 ^ (8 * e - 1)"
  proof -
    have "bit_length v \<le> 8 * e - 1"
      using div8_bounds(2) [of "bit_length v"] unfolding e_def compact_exp_def distrib_left by simp
    then show ?thesis by (simp only: bit_length_le_iff)
  qed
  have e1: "1 \<le> e" by (simp add: e_def compact_exp_def)
  show ?thesis
  proof (cases "e \<le> 3")
    case True
    have "v * 256 ^ (3 - e) < 2 ^ (8 * e - 1) * 2 ^ (8 * (3 - e))"
      unfolding pow256 using v by simp
    also have "\<dots> = 2 ^ 23"
    proof -
      have "8 * e - 1 + 8 * (3 - e) = 23"
        using True e1 by simp
      then show ?thesis
        unfolding power_add [symmetric] by simp
    qed
    finally show ?thesis
      using True by (simp add: e_def)
  next
    case False
    have "v < 2 ^ 23 * 2 ^ (8 * (e - 3))"
      using v False unfolding power_add [symmetric] by (simp add: algebra_simps)
    then have "v div 256 ^ (e - 3) < 2 ^ 23"
      unfolding pow256 by (intro less_mult_imp_div_less)
    then show ?thesis
      using False by (simp add: e_def)
  qed
qed

lemma compact_value_compact_of: "compact_value (compact_of v) = compact_round v"
proof (cases "v = 0")
  case True
  then show ?thesis by (simp add: compact_of_def compact_value_def compact_round_def)
next
  case False
  define e where "e = compact_exp v"
  define m where "m = (if e \<le> 3 then v * 256 ^ (3 - e) else v div 256 ^ (e - 3))"
  have m: "m < 2 ^ 23"
    using compact_mant_bound [OF False] by (simp only: m_def e_def)
  have c: "compact_of v = m + 2 ^ 24 * e"
    using False by (simp add: compact_of_def Let_def m_def e_def)
  have s: "compact_of v div 2 ^ 24 = e"
    unfolding c using m by simp
  have "(m + 2 ^ 24 * e) mod 2 ^ 23 = m"
  proof -
    have "m + 2 ^ 24 * e = m + 2 ^ 23 * (2 * e)" by simp
    then show ?thesis
      using m by (simp only: mod_mult_self2 mod_less)
  qed
  then have r: "compact_of v mod 2 ^ 23 = m"
    unfolding c .
  show ?thesis
  proof (cases "e \<le> 3")
    case True
    then show ?thesis
      unfolding compact_value_def Let_def s r m_def compact_round_def e_def [symmetric] by simp
  next
    case False
    then show ?thesis
      unfolding compact_value_def Let_def s r m_def compact_round_def e_def [symmetric] by simp
  qed
qed

section \<open>Encoding\<close>

definition compact_head :: "nat \<Rightarrow> nat" where
  "compact_head v = (let n = (bit_length v + 7) div 8
     in if n \<le> 3 then v * 256 ^ (3 - n) else v div 256 ^ (n - 3))"

lemma compact_head_bound: "compact_head v < 2 ^ 24"
proof -
  define n where "n = (bit_length v + 7) div 8"
  have v: "v < 2 ^ (8 * n)"
  proof -
    have "bit_length v \<le> 8 * n" unfolding n_def by linarith
    then show ?thesis by (simp only: bit_length_le_iff)
  qed
  show ?thesis
  proof (cases "n \<le> 3")
    case True
    have "v * 256 ^ (3 - n) < 2 ^ (8 * n) * 2 ^ (8 * (3 - n))"
      unfolding pow256 using v by simp
    also have "\<dots> = 2 ^ 24"
    proof -
      have "8 * n + 8 * (3 - n) = 24"
        using True by simp
      then show ?thesis
        unfolding power_add [symmetric] by simp
    qed
    finally show ?thesis
      using True by (simp add: compact_head_def Let_def n_def)
  next
    case False
    have "v < 2 ^ 24 * 2 ^ (8 * (n - 3))"
      using v False unfolding power_add [symmetric] by (simp add: algebra_simps)
    then have "v div 256 ^ (n - 3) < 2 ^ 24"
      unfolding pow256 by (intro less_mult_imp_div_less)
    then show ?thesis
      using False by (simp add: compact_head_def Let_def n_def)
  qed
qed

lemma compact_head_carry:
  assumes "v \<noteq> 0" "bit_length v = 8 * n"
  shows "2 ^ 23 \<le> compact_head v"
proof -
  have n: "(bit_length v + 7) div 8 = n" "n \<noteq> 0"
    using assms by (auto intro: gr0I)
  have v: "2 ^ (8 * n - 1) \<le> v"
    using bit_length_lower [OF assms(1)] assms(2) by simp
  show ?thesis
  proof (cases "n \<le> 3")
    case True
    have "(2 :: nat) ^ 23 = 2 ^ (8 * n - 1) * 2 ^ (8 * (3 - n))"
    proof -
      have "8 * n - 1 + 8 * (3 - n) = 23"
        using True n(2) by simp
      then show ?thesis
        unfolding power_add [symmetric] by simp
    qed
    also have "\<dots> \<le> v * 256 ^ (3 - n)"
      unfolding pow256 using v by simp
    finally show ?thesis
      using True unfolding compact_head_def Let_def n(1) by simp
  next
    case False
    have "2 ^ 23 * 2 ^ (8 * (n - 3)) \<le> v"
      using v False unfolding power_add [symmetric] by (simp add: algebra_simps)
    then have "2 ^ 23 \<le> v div 2 ^ (8 * (n - 3))"
      by (simp add: less_eq_div_iff_mult_less_eq)
    then show ?thesis
      using False unfolding compact_head_def Let_def n(1) pow256 by simp
  qed
qed

lemma compact_head_split:
  assumes "v \<noteq> 0"
  defines "n \<equiv> (bit_length v + 7) div 8"
  shows "(if 2 ^ 23 \<le> compact_head v then (compact_head v div 2 ^ 8, n + 1) else (compact_head v, n))
    = (compact_of v - 2 ^ 24 * compact_exp v, compact_exp v)"
proof (cases "8 dvd bit_length v")
  case True
  then obtain k where k: "bit_length v = 8 * k" by (elim dvdE)
  then have nk: "n = k" "compact_exp v = k + 1" "(bit_length v + 7) div 8 = k"
    by (simp_all add: n_def compact_exp_def)
  have "compact_head v div 2 ^ 8 = (if k + 1 \<le> 3 then v * 256 ^ (3 - (k + 1)) else v div 256 ^ (k + 1 - 3))"
  proof -
    consider "k \<le> 2" | "k = 3" | "3 < k" by linarith
    then show ?thesis
    proof cases
      case 1
      then have "(256 :: nat) ^ (3 - k) = 256 ^ (2 - k) * 256"
        by (simp add: Suc_diff_le power_Suc2 [symmetric] numeral_3_eq_3 numeral_2_eq_2)
      then show ?thesis
        using 1 unfolding compact_head_def Let_def nk(3) by simp
    next
      case 2
      then show ?thesis
        unfolding compact_head_def Let_def nk(3) by simp
    next
      case 3
      then have "k + 1 - 3 = Suc (k - 3)"
        by simp
      then have "(256 :: nat) ^ (k - 3) * 256 = 256 ^ (k + 1 - 3)"
        by (simp only: power_Suc2)
      then show ?thesis
        using 3 unfolding compact_head_def Let_def nk(3) by (simp add: div_mult2_eq [symmetric])
    qed
  qed
  then show ?thesis
    using compact_head_carry [OF assms(1) k] assms(1) unfolding nk by (simp add: compact_of_def Let_def nk)
next
  case False
  then have e: "compact_exp v = n"
    unfolding n_def compact_exp_def by (simp add: ceil8)
  then have "compact_head v = (if compact_exp v \<le> 3 then v * 256 ^ (3 - compact_exp v) else v div 256 ^ (compact_exp v - 3))"
    unfolding compact_head_def Let_def n_def [symmetric] by simp
  then show ?thesis
    using compact_mant_bound [OF assms(1)] assms(1) e by (auto simp: compact_of_def Let_def)
qed


lemma and_not_mask23: "unat (x :: u32) < 2 ^ 23 \<Longrightarrow> x AND NOT 0x007fffff = 0"
proof -
  assume "unat x < 2 ^ 23"
  then have "take_bit 23 (unat x) = unat x"
    by (rule take_bit_nat_eq_self)
  then have "bit (unat x) n \<Longrightarrow> n < 23" for n
    by (metis bit_take_bit_iff)
  then have lt: "bit x n \<Longrightarrow> n < 23" for n
    by (simp add: bit_unsigned_iff)
  have m: "(0x007fffff :: u32) = mask 23"
    by (simp add: mask_eq_exp_minus_1)
  show ?thesis
    unfolding m by (rule bit_eqI) (auto simp: bit_and_iff bit_not_iff bit_mask_iff dest: lt)
qed

lemma unat_compact_join:
  assumes "unat (m :: u32) < 2 ^ 24" "k < 256"
  shows "unat (m OR push_bit 24 (of_nat k)) = unat m + 2 ^ 24 * k"
proof -
  have "take_bit 24 (unat m) = unat m"
    using assms(1) by (rule take_bit_nat_eq_self)
  then have lt: "bit m n \<Longrightarrow> n < 24" for n
    by (metis bit_take_bit_iff bit_unsigned_iff possible_bit_nat)
  have "m OR push_bit 24 (of_nat k) = m + push_bit 24 (of_nat k)"
    by (rule disjunctive_add [symmetric]) (auto simp: bit_push_bit_iff dest: lt)
  moreover have "unat (push_bit 24 (of_nat k) :: u32) = 2 ^ 24 * k"
    unfolding unat_push_bit_mod using assms(2) by (simp add: unat_of_nat)
  ultimately show ?thesis
    using assms by (simp add: unat_word_ariths)
qed

lemma GetCompact_head:
  assumes "wf_uint a"
  defines "n \<equiv> (bits_uint a + 7) div 8"
  shows "unat ((if n \<le> 3 then ucast (push_bit (8 * (3 - n)) (GetLow64 a))
                 else ucast (GetLow64 (op_shr a (8 * (n - 3))))) :: u32) = compact_head (le_val a)"
proof -
  have n: "n = (bit_length (le_val a) + 7) div 8"
    by (simp add: n_def bits_uint_value)
  have h: "compact_head (le_val a) < 2 ^ 24" by (rule compact_head_bound)
  show ?thesis
  proof (cases "n \<le> 3")
    case True
    have c: "compact_head (le_val a) = le_val a * 2 ^ (8 * (3 - n))"
      using True unfolding compact_head_def Let_def n [symmetric] pow256 by simp
    have "le_val a \<le> le_val a * 2 ^ (8 * (3 - n))" by simp
    then have "le_val a < 2 ^ 24" using h unfolding c by (rule le_less_trans)
    then have "le_val a < 2 ^ 64" by simp
    then have "unat (GetLow64 a) = le_val a"
      using unat_GetLow64 [OF assms(1)] by simp
    then show ?thesis
      using True h c by (simp add: unat_ucast_mod unat_push_bit_mod)
  next
    case False
    have c: "compact_head (le_val a) = le_val a div 2 ^ (8 * (n - 3))"
      using False unfolding compact_head_def Let_def n [symmetric] pow256 by simp
    have "unat (GetLow64 (op_shr a (8 * (n - 3)))) = le_val a div 2 ^ (8 * (n - 3)) mod 2 ^ 64"
      using unat_GetLow64 [OF wf_uint_shift(2)] le_val_op_shr [OF assms(1)] by simp
    then show ?thesis
      using False h unfolding c by (simp add: unat_ucast_mod)
  qed
qed


lemma compact_of_parts:
  assumes "v \<noteq> 0"
  obtains m where "compact_of v = m + 2 ^ 24 * compact_exp v" "m < 2 ^ 23" "m \<noteq> 0"
proof -
  let ?m = "if compact_exp v \<le> 3 then v * 256 ^ (3 - compact_exp v) else v div 256 ^ (compact_exp v - 3)"
  have "?m \<noteq> 0"
  proof (cases "compact_exp v \<le> 3")
    case True
    then show ?thesis using assms by simp
  next
    case False
    have "8 * (compact_exp v - 3) \<le> bit_length v - 1"
      using False unfolding compact_exp_def by linarith
    then have "(256 :: nat) ^ (compact_exp v - 3) \<le> 2 ^ (bit_length v - 1)"
      unfolding pow256 by (intro power_increasing) simp_all
    also have "\<dots> \<le> v"
      using assms by (rule bit_length_lower)
    finally have "256 ^ (compact_exp v - 3) \<le> v" .
    then show ?thesis using False by (simp add: div_eq_0_iff)
  qed
  moreover have "compact_of v = ?m + 2 ^ 24 * compact_exp v"
    using assms by (simp only: compact_of_def Let_def if_False)
  ultimately show ?thesis
    using compact_mant_bound [OF assms] that by blast
qed

lemma bit_23_iff: "unat (x :: u32) < 2 ^ 24 \<Longrightarrow> x AND 0x00800000 \<noteq> 0 \<longleftrightarrow> 2 ^ 23 \<le> unat x"
  unfolding compact_masks(2) using nat_top_bit [of "unat x" 23]
  by (simp add: bit_unsigned_iff)

lemma compact_exp_bound: "v < 2 ^ 256 \<Longrightarrow> compact_exp v < 256"
  unfolding bit_length_le_iff [symmetric] compact_exp_def by linarith

lemma GetCompact_value:
  assumes "wf_uint a"
  shows "\<exists>c. GetCompact a fNegative = Inr c \<and>
    unat c = compact_of (le_val a) + (if fNegative \<and> le_val a \<noteq> 0 then 2 ^ 23 else 0)"
proof (cases "le_val a = 0")
  case True
  then have "bits_uint a = 0" by (simp add: bits_uint_0_iff)
  moreover have "GetLow64 a = 0"
    using unat_GetLow64 [OF assms] True by (simp add: unat_eq_0)
  ultimately show ?thesis
    using True by (simp add: GetCompact_def Let_def compact_of_def)
next
  case False
  define n where "n = (bits_uint a + 7) div 8"
  define x :: u32 where "x = (if n \<le> 3 then ucast (push_bit (8 * (3 - n)) (GetLow64 a))
                 else ucast (GetLow64 (op_shr a (8 * (n - 3)))))"
  define y k where "y = (if x AND 0x00800000 \<noteq> 0 then drop_bit 8 x else x)"
    and "k = (if x AND 0x00800000 \<noteq> 0 then n + 1 else n)"
  obtain m where m: "compact_of (le_val a) = m + 2 ^ 24 * compact_exp (le_val a)" "m < 2 ^ 23" "m \<noteq> 0"
    using compact_of_parts [OF False] .
  have x: "unat x = compact_head (le_val a)"
    unfolding x_def n_def by (rule GetCompact_head [OF assms])
  have c: "x AND 0x00800000 \<noteq> 0 \<longleftrightarrow> 2 ^ 23 \<le> compact_head (le_val a)"
    unfolding x [symmetric] by (rule bit_23_iff) (simp only: x compact_head_bound)
  have "(unat y, k) = (if 2 ^ 23 \<le> compact_head (le_val a) then (compact_head (le_val a) div 2 ^ 8, n + 1)
      else (compact_head (le_val a), n))"
    unfolding y_def k_def c using x by (simp add: unat_drop_bit_div)
  also have "\<dots> = (compact_of (le_val a) - 2 ^ 24 * compact_exp (le_val a), compact_exp (le_val a))"
    using compact_head_split [OF False] by (simp only: n_def bits_uint_value)
  finally have y: "unat y = m" and k: "k = compact_exp (le_val a)"
    unfolding m(1) by simp_all
  have k256: "k < 256"
    unfolding k using wf_uint_value_bound [OF assms] by (rule compact_exp_bound)
  define z where "z = y OR push_bit 24 (of_nat k)"
  have z: "unat z = compact_of (le_val a)"
    unfolding z_def using m(2) k256 by (subst unat_compact_join) (simp_all add: y k m(1))
  have z23: "z AND 0x007fffff \<noteq> 0"
  proof -
    have "compact_of (le_val a) = m + 2 ^ 23 * (2 * compact_exp (le_val a))"
      unfolding m(1) by simp
    then have "unat z mod 2 ^ 23 = m"
      unfolding z using m(2) by (simp only: mod_mult_self2 mod_less)
    then have "unat (z AND 0x007fffff) = m"
      unfolding compact_masks(1) unat_and_mask .
    then show ?thesis using m(3) by auto
  qed
  have "GetCompact a fNegative = Inr (z OR (if fNegative then 0x00800000 else 0))"
  proof -
    have "(let (nCompact, nSize) = (if x AND 0x00800000 \<noteq> 0 then (drop_bit 8 x, n + 1) else (x, n)) in F nCompact nSize) = F y k"
      for F :: "u32 \<Rightarrow> nat \<Rightarrow> u32 result"
      by (simp add: y_def k_def)
    moreover have "y AND NOT 0x007fffff = 0"
      using m(2) y by (intro and_not_mask23) simp
    ultimately show ?thesis
      using k256 z23 unfolding GetCompact_def Let_def n_def [symmetric] x_def [symmetric]
      by (simp add: z_def [symmetric])
  qed
  moreover have "unat (z OR 0x00800000) = compact_of (le_val a) + 2 ^ 23"
  proof -
    have "\<not> bit z 23"
    proof -
      have "bit (unat z) 23 \<longleftrightarrow> odd ((m + 2 ^ 24 * compact_exp (le_val a)) div 2 ^ 23)"
        unfolding z m(1) by (rule bit_iff_odd)
      also have "m + 2 ^ 24 * compact_exp (le_val a) = m + 2 ^ 23 * (2 * compact_exp (le_val a))"
        by simp
      also have "(m + 2 ^ 23 * (2 * compact_exp (le_val a))) div 2 ^ 23 = 2 * compact_exp (le_val a)"
        using m(2) by (subst div_mult_self2) simp_all
      finally show ?thesis by (simp add: bit_unsigned_iff)
    qed
    then have "z OR 2 ^ 23 = z + 2 ^ 23"
      by (rule or_exp_disjoint)
    moreover have "compact_of (le_val a) + 2 ^ 23 < 2 ^ 32"
      using m(2) k256 unfolding m(1) k [symmetric] by simp
    ultimately show ?thesis
      using z by (simp add: unat_word_ariths)
  qed
  ultimately show ?thesis
    using z False by (cases fNegative) auto
qed


lemma compact_round_le: "compact_round v \<le> v"
  by (simp add: compact_round_def)

lemma compact_round_multiple_mono:
  assumes "256 ^ (compact_exp w - 3) dvd x" "x \<le> w"
  shows "x \<le> compact_round w"
proof -
  from assms(1) obtain q where q: "x = 256 ^ (compact_exp w - 3) * q" by (elim dvdE)
  with assms(2) have "q \<le> w div 256 ^ (compact_exp w - 3)"
    by (simp add: less_eq_div_iff_mult_less_eq mult.commute)
  then show ?thesis
    unfolding q compact_round_def by (simp add: mult.commute)
qed

lemma compact_exp_mono: "v \<le> w \<Longrightarrow> compact_exp v \<le> compact_exp w"
  by (simp add: compact_exp_def bit_length_mono div_le_mono)

lemma compact_round_mono:
  assumes "v \<le> w"
  shows "compact_round v \<le> compact_round w"
proof (cases "compact_exp v = compact_exp w")
  case True
  then show ?thesis
    using assms by (simp add: compact_round_def div_le_mono)
next
  case False
  then have lt: "bit_length v div 8 < bit_length w div 8"
    using compact_exp_mono [OF assms] by (simp add: compact_exp_def)
  let ?t = "2 ^ (8 * (bit_length w div 8) - 1) :: nat"
  have "bit_length v \<le> 8 * (bit_length w div 8) - 1"
    using lt by linarith
  then have v: "v < ?t"
    by (simp only: bit_length_le_iff)
  have "8 * (bit_length w div 8) - 1 \<le> bit_length w - 1"
    by linarith
  then have "?t \<le> 2 ^ (bit_length w - 1)"
    by (intro power_increasing) simp_all
  also have "\<dots> \<le> w"
    using lt by (intro bit_length_lower notI) simp
  finally have w: "?t \<le> w" .
  have "8 * (compact_exp w - 3) \<le> 8 * (bit_length w div 8) - 1"
    using lt unfolding compact_exp_def by linarith
  then have "256 ^ (compact_exp w - 3) dvd ?t"
    unfolding pow256 by (rule le_imp_power_dvd)
  from compact_round_multiple_mono [OF this w] v compact_round_le [of v]
  show ?thesis by linarith
qed

lemma bit_length_compact_round: "bit_length (compact_round v) = bit_length v"
proof (cases "v = 0")
  case True
  then show ?thesis by (simp add: compact_round_def)
next
  case False
  then obtain b where b: "bit_length v = Suc b"
    by (cases "bit_length v") simp_all
  have "8 * (compact_exp v - 3) \<le> b"
    using b unfolding compact_exp_def by linarith
  then have "256 ^ (compact_exp v - 3) dvd (2 :: nat) ^ b"
    unfolding pow256 by (rule le_imp_power_dvd)
  moreover have "2 ^ b \<le> v"
    using bit_length_lower [OF False] b by simp
  ultimately have "2 ^ b \<le> compact_round v"
    by (rule compact_round_multiple_mono)
  moreover have "compact_round v < 2 ^ Suc b"
    using compact_round_le [of v] bit_length_upper [of v] b by simp
  ultimately show ?thesis
    unfolding b by (rule bit_length_eqI)
qed

lemma compact_of_round: "compact_of (compact_round v) = compact_of v"
proof -
  have e: "compact_exp (compact_round v) = compact_exp v"
    by (simp add: compact_exp_def bit_length_compact_round)
  have "compact_round v = 0 \<longleftrightarrow> v = 0"
    using bit_length_compact_round [of v] by (metis bit_length_0_iff)
  then show ?thesis
    unfolding compact_of_def Let_def e by (simp add: compact_round_def)
qed

lemma compact_value_of_canonical_bound: "v < 2 ^ 256 \<Longrightarrow> compact_value (compact_of v) < 2 ^ 256"
  unfolding compact_value_compact_of using compact_round_le [of v] by (rule le_less_trans)

section \<open>Rounding loses less than one part in \<open>2 ^ 15\<close>\<close>

lemma compact_round_precise: "2 ^ 15 * (v - compact_round v) \<le> v"
proof (cases "compact_exp v \<le> 3")
  case True
  then show ?thesis by (simp add: compact_round_def)
next
  case False
  let ?u = "256 ^ (compact_exp v - 3) :: nat"
  have "v - compact_round v = v mod ?u"
    unfolding compact_round_def by (rule minus_div_mult_eq_mod)
  also have "\<dots> < ?u"
    by (rule mod_less_divisor) simp
  finally have "2 ^ 15 * (v - compact_round v) \<le> 2 ^ 15 * ?u"
    by (intro mult_le_mono2) simp
  also have "\<dots> = 2 ^ (15 + 8 * (compact_exp v - 3))"
    unfolding pow256 by (rule power_add [symmetric])
  also have "\<dots> \<le> 2 ^ (bit_length v - 1)"
  proof -
    have "15 + 8 * (compact_exp v - 3) \<le> bit_length v - 1"
      using False unfolding compact_exp_def by linarith
    then show ?thesis by (intro power_increasing) simp_all
  qed
  also have "\<dots> \<le> v"
    using False by (intro bit_length_lower notI) (simp add: compact_exp_def)
  finally show ?thesis .
qed

lemma compact_of_no_sign: "\<not> bit (compact_of v) 23"
proof (cases "v = 0")
  case True
  then show ?thesis by (simp add: compact_of_def)
next
  case False
  then obtain m where m: "compact_of v = m + 2 ^ 24 * compact_exp v" "m < 2 ^ 23"
    using compact_of_parts by blast
  have "compact_of v div 2 ^ 23 = 2 * compact_exp v"
  proof -
    have "compact_of v = m + 2 ^ 23 * (2 * compact_exp v)"
      unfolding m(1) by simp
    then show ?thesis
      using m(2) by (simp only: div_mult_self2) simp
  qed
  then show ?thesis
    by (simp add: bit_iff_odd)
qed

lemma GetCompact_Inr:
  assumes "wf_uint a"
  obtains c where "GetCompact a False = Inr c" "unat c = compact_of (le_val a)"
  using GetCompact_value [OF assms, of False] by auto

lemma SetCompact_GetCompact:
  assumes "wf_uint a" "unat c = compact_of (le_val a)"
  shows "le_val (fst (SetCompact c)) = compact_round (le_val a)"
    and "\<not> fst (snd (SetCompact c))" and "\<not> snd (snd (SetCompact c))"
proof -
  have small: "compact_value (unat c) < 2 ^ 256"
    unfolding assms(2) using wf_uint_value_bound [OF assms(1)] by (rule compact_value_of_canonical_bound)
  show "le_val (fst (SetCompact c)) = compact_round (le_val a)"
    unfolding SetCompact_value using small by (simp add: assms(2) compact_value_compact_of)
  have "\<not> bit c 23"
    using compact_of_no_sign [of "le_val a"] unfolding assms(2) [symmetric] by (simp add: bit_unsigned_iff)
  then show "\<not> fst (snd (SetCompact c))"
    unfolding SetCompact_negative by simp
  show "\<not> snd (snd (SetCompact c))"
    unfolding SetCompact_overflow using small by simp
qed

text \<open>
  C18: \<^verbatim>\<open>SetCompact\<close> decodes every 32-bit pattern to mantissa times a power of 256 modulo
  \<open>2 ^ 256\<close>; its overflow flag is set exactly when that number needs more than 256 bits, and its
  sign flag exactly when the number is not zero and the sign bit is set.
\<close>

theorem SetCompact_decodes:
  "wf_uint (fst (SetCompact c)) \<and> le_val (fst (SetCompact c)) = compact_value (unat c) mod 2 ^ 256
    \<and> (fst (snd (SetCompact c)) \<longleftrightarrow> compact_value (unat c) \<noteq> 0 \<and> bit c 23)
    \<and> (snd (snd (SetCompact c)) \<longleftrightarrow> 2 ^ 256 \<le> compact_value (unat c))"
  using SetCompact_value SetCompact_negative SetCompact_overflow by simp

text \<open>
  C19: \<^verbatim>\<open>GetCompact\<close> returns for every number (neither of its assertions can fail); decoding the
  result raises no flag, is at most the number, misses it by less than one part in \<open>2 ^ 15\<close>, and
  encodes to the same pattern again.
\<close>

theorem GetCompact_roundtrip:
  assumes "wf_uint a"
  shows "\<exists>c t. GetCompact a False = Inr c \<and> SetCompact c = (t, False, False) \<and> wf_uint t
    \<and> le_val t \<le> le_val a \<and> 2 ^ 15 * (le_val a - le_val t) \<le> le_val a
    \<and> GetCompact t False = Inr c"
proof -
  obtain c where c: "GetCompact a False = Inr c" "unat c = compact_of (le_val a)"
    using GetCompact_Inr [OF assms] .
  define t where "t = fst (SetCompact c)"
  have t: "wf_uint t" "le_val t = compact_round (le_val a)" "SetCompact c = (t, False, False)"
    using SetCompact_GetCompact [OF assms c(2)] by (simp_all add: t_def prod_eq_iff)
  obtain d where d: "GetCompact t False = Inr d" "unat d = compact_of (le_val t)"
    using GetCompact_Inr [OF t(1)] .
  have "unat d = unat c"
    unfolding d(2) c(2) t(2) by (rule compact_of_round)
  then have "d = c"
    by (simp add: word_unat_eq_iff)
  then show ?thesis
    using c(1) d(1) t compact_round_le compact_round_precise by auto
qed

theorem GetCompact_roundtrip_witness:
  "\<exists>c t. GetCompact [0x89abcdef, 0x01234567, 0, 0, 0, 0, 0, 0] False = Inr c \<and> SetCompact c = (t, False, False)
    \<and> wf_uint t \<and> le_val t \<le> le_val [0x89abcdef :: u32, 0x01234567, 0, 0, 0, 0, 0, 0]
    \<and> 2 ^ 15 * (le_val [0x89abcdef :: u32, 0x01234567, 0, 0, 0, 0, 0, 0] - le_val t)
        \<le> le_val [0x89abcdef :: u32, 0x01234567, 0, 0, 0, 0, 0, 0]
    \<and> GetCompact t False = Inr c"
  by (rule GetCompact_roundtrip) (simp add: wf_uint_def WIDTH_def)

end
