(* ===== verification/Block_Index.thy ===== *)
theory Block_Index
  imports Arith_Compact "HOL-Library.Multiset"
begin

text \<open>
  The tree of block index entries of \<^verbatim>\<open>chain.h\<close> and \<^verbatim>\<open>chain.cpp\<close>. Entries refer to each
  other through the pointers \<^verbatim>\<open>pprev\<close> and \<^verbatim>\<open>pskip\<close>; they live here in an explicit store, a map
  from addresses to \<^verbatim>\<open>CBlockIndex\<close> records, and a null pointer is \<^term>\<open>None\<close>. The theory holds
  the per-entry operations (status bits, file positions, median time) and the skip list:
  \<^verbatim>\<open>GetAncestor\<close> follows \<^verbatim>\<open>pskip\<close> where that helps, and is shown to return the entry that
  walking \<^verbatim>\<open>pprev\<close> one step at a time would reach.
\<close>

section \<open>Entries and the store\<close>

type_synonym addr = nat

record CBlockIndex =
  phashBlock :: "uint256 option"
  pprev :: "addr option"
  pskip :: "addr option"
  nHeight :: int
  nFile :: int
  nDataPos :: u32
  nUndoPos :: u32
  nChainWork :: base_uint
  nTx :: u32
  nChainTx :: u32
  nStatus :: u32
  nVersion :: u32
  hashMerkleRoot :: uint256
  nTime :: u32
  nBits :: u32
  nNonce :: u32
  nSequenceId :: int
  nTimeMax :: u32

text \<open>
  The fields of \<^verbatim>\<open>CBlockHeader\<close> that \<^verbatim>\<open>chain.h\<close> reads and writes; the class itself belongs to
  \<^verbatim>\<open>primitives/block.h\<close>.
\<close>

record CBlockHeader =
  hdr_nVersion :: u32
  hdr_hashPrevBlock :: uint256
  hdr_hashMerkleRoot :: uint256
  hdr_nTime :: u32
  hdr_nBits :: u32
  hdr_nNonce :: u32

type_synonym block_store = "addr \<rightharpoonup> CBlockIndex"

definition deref :: "block_store \<Rightarrow> addr \<Rightarrow> CBlockIndex result" where
  "deref st a = (case st a of None \<Rightarrow> Inl Null_deref | Some b \<Rightarrow> Inr b)"

definition uint256_null :: uint256 where
  "uint256_null = replicate 32 0"

definition CBlockIndex_default :: CBlockIndex where
  "CBlockIndex_default =
     \<lparr>phashBlock = None, pprev = None, pskip = None, nHeight = 0, nFile = 0, nDataPos = 0,
      nUndoPos = 0, nChainWork = base_uint_zero, nTx = 0, nChainTx = 0, nStatus = 0,
      nVersion = 0, hashMerkleRoot = uint256_null, nTime = 0, nBits = 0, nNonce = 0,
      nSequenceId = 0, nTimeMax = 0\<rparr>"

definition CBlockIndex_header :: "CBlockHeader \<Rightarrow> CBlockIndex" where
  "CBlockIndex_header block =
     CBlockIndex_default\<lparr>nVersion := hdr_nVersion block,
       hashMerkleRoot := hdr_hashMerkleRoot block, nTime := hdr_nTime block,
       nBits := hdr_nBits block, nNonce := hdr_nNonce block\<rparr>"

definition GetBlockHash :: "CBlockIndex \<Rightarrow> uint256 result" where
  "GetBlockHash b = (case phashBlock b of None \<Rightarrow> Inl Assert_failed | Some h \<Rightarrow> Inr h)"

definition GetBlockHeader :: "block_store \<Rightarrow> CBlockIndex \<Rightarrow> CBlockHeader result" where
  "GetBlockHeader st b =
     rbind (case pprev b of
              None \<Rightarrow> Inr uint256_null
            | Some p \<Rightarrow> rbind (deref st p) GetBlockHash)
       (\<lambda>prev. Inr \<lparr>hdr_nVersion = nVersion b, hdr_hashPrevBlock = prev,
          hdr_hashMerkleRoot = hashMerkleRoot b, hdr_nTime = nTime b,
          hdr_nBits = nBits b, hdr_nNonce = nNonce b\<rparr>)"

definition HaveNumChainTxs :: "CBlockIndex \<Rightarrow> bool" where
  "HaveNumChainTxs b = (nChainTx b \<noteq> 0)"

definition GetBlockTime :: "CBlockIndex \<Rightarrow> int" where
  "GetBlockTime b = uint (nTime b)"

definition GetBlockTimeMax :: "CBlockIndex \<Rightarrow> int" where
  "GetBlockTimeMax b = uint (nTimeMax b)"


section \<open>Status bits\<close>

definition BLOCK_VALID_UNKNOWN :: u32 where "BLOCK_VALID_UNKNOWN = 0"
definition BLOCK_VALID_RESERVED :: u32 where "BLOCK_VALID_RESERVED = 1"
definition BLOCK_VALID_TREE :: u32 where "BLOCK_VALID_TREE = 2"
definition BLOCK_VALID_TRANSACTIONS :: u32 where "BLOCK_VALID_TRANSACTIONS = 3"
definition BLOCK_VALID_CHAIN :: u32 where "BLOCK_VALID_CHAIN = 4"
definition BLOCK_VALID_SCRIPTS :: u32 where "BLOCK_VALID_SCRIPTS = 5"

definition BLOCK_VALID_MASK :: u32 where
  "BLOCK_VALID_MASK = BLOCK_VALID_RESERVED OR BLOCK_VALID_TREE OR BLOCK_VALID_TRANSACTIONS OR
     BLOCK_VALID_CHAIN OR BLOCK_VALID_SCRIPTS"

definition BLOCK_HAVE_DATA :: u32 where "BLOCK_HAVE_DATA = 8"
definition BLOCK_HAVE_UNDO :: u32 where "BLOCK_HAVE_UNDO = 16"
definition BLOCK_HAVE_MASK :: u32 where "BLOCK_HAVE_MASK = BLOCK_HAVE_DATA OR BLOCK_HAVE_UNDO"
definition BLOCK_FAILED_VALID :: u32 where "BLOCK_FAILED_VALID = 32"
definition BLOCK_FAILED_CHILD :: u32 where "BLOCK_FAILED_CHILD = 64"
definition BLOCK_FAILED_MASK :: u32 where
  "BLOCK_FAILED_MASK = BLOCK_FAILED_VALID OR BLOCK_FAILED_CHILD"
definition BLOCK_OPT_WITNESS :: u32 where "BLOCK_OPT_WITNESS = 128"
definition BLOCK_ASSUMED_VALID :: u32 where "BLOCK_ASSUMED_VALID = 256"

lemmas BlockStatus_defs =
  BLOCK_VALID_UNKNOWN_def BLOCK_VALID_RESERVED_def BLOCK_VALID_TREE_def
  BLOCK_VALID_TRANSACTIONS_def BLOCK_VALID_CHAIN_def BLOCK_VALID_SCRIPTS_def
  BLOCK_VALID_MASK_def BLOCK_HAVE_DATA_def BLOCK_HAVE_UNDO_def BLOCK_HAVE_MASK_def
  BLOCK_FAILED_VALID_def BLOCK_FAILED_CHILD_def BLOCK_FAILED_MASK_def
  BLOCK_OPT_WITNESS_def BLOCK_ASSUMED_VALID_def

record FlatFilePos =
  fpos_nFile :: int
  fpos_nPos :: u32

definition FlatFilePos_null :: FlatFilePos where
  "FlatFilePos_null = \<lparr>fpos_nFile = -1, fpos_nPos = 0\<rparr>"

definition FlatFilePos_IsNull :: "FlatFilePos \<Rightarrow> bool" where
  "FlatFilePos_IsNull p = (fpos_nFile p = -1)"

definition GetBlockPos :: "CBlockIndex \<Rightarrow> FlatFilePos" where
  "GetBlockPos b =
     (if nStatus b AND BLOCK_HAVE_DATA \<noteq> 0
      then \<lparr>fpos_nFile = nFile b, fpos_nPos = nDataPos b\<rparr> else FlatFilePos_null)"

definition GetUndoPos :: "CBlockIndex \<Rightarrow> FlatFilePos" where
  "GetUndoPos b =
     (if nStatus b AND BLOCK_HAVE_UNDO \<noteq> 0
      then \<lparr>fpos_nFile = nFile b, fpos_nPos = nUndoPos b\<rparr> else FlatFilePos_null)"

definition IsValid :: "CBlockIndex \<Rightarrow> u32 \<Rightarrow> bool result" where
  "IsValid b nUpTo =
     rbind (cpp_assert (nUpTo AND NOT BLOCK_VALID_MASK = 0)) (\<lambda>_.
       if nStatus b AND BLOCK_FAILED_MASK \<noteq> 0 then Inr False
       else Inr (nUpTo \<le> nStatus b AND BLOCK_VALID_MASK))"

definition IsAssumedValid :: "CBlockIndex \<Rightarrow> bool" where
  "IsAssumedValid b = (nStatus b AND BLOCK_ASSUMED_VALID \<noteq> 0)"

definition RaiseValidity :: "CBlockIndex \<Rightarrow> u32 \<Rightarrow> (bool \<times> CBlockIndex) result" where
  "RaiseValidity b nUpTo =
     rbind (cpp_assert (nUpTo AND NOT BLOCK_VALID_MASK = 0)) (\<lambda>_.
       if nStatus b AND BLOCK_FAILED_MASK \<noteq> 0 then Inr (False, b)
       else if nStatus b AND BLOCK_VALID_MASK < nUpTo then
         let b1 = (if nStatus b AND BLOCK_ASSUMED_VALID \<noteq> 0 \<and> BLOCK_VALID_SCRIPTS \<le> nUpTo
                   then b\<lparr>nStatus := nStatus b AND NOT BLOCK_ASSUMED_VALID\<rparr> else b)
         in Inr (True, b1\<lparr>nStatus := (nStatus b1 AND NOT BLOCK_VALID_MASK) OR nUpTo\<rparr>)
       else Inr (False, b))"


section \<open>The skip list\<close>

definition InvertLowestOne :: "int \<Rightarrow> int" where
  "InvertLowestOne n = n AND (n - 1)"

definition GetSkipHeight :: "int \<Rightarrow> int" where
  "GetSkipHeight height =
     (if height < 2 then 0
      else if height AND 1 \<noteq> 0 then InvertLowestOne (InvertLowestOne (height - 1)) + 1
      else InvertLowestOne height)"

lemma InvertLowestOne_bounds:
  assumes "0 < n"
  shows "0 \<le> InvertLowestOne n" and "InvertLowestOne n < n"
proof -
  show "0 \<le> InvertLowestOne n"
    using assms by (simp add: InvertLowestOne_def)
  have "n AND (n - 1) \<le> n - 1"
    using assms by (intro AND_upper2) simp
  thus "InvertLowestOne n < n"
    by (simp add: InvertLowestOne_def)
qed

lemma InvertLowestOne_0 [simp]: "InvertLowestOne 0 = 0"
  by (simp add: InvertLowestOne_def)

lemma InvertLowestOne_nonneg: "0 \<le> n \<Longrightarrow> 0 \<le> InvertLowestOne n \<and> InvertLowestOne n \<le> n"
  using InvertLowestOne_bounds [of n] by (cases "n = 0") auto

lemma GetSkipHeight_bounds:
  assumes "0 < h"
  shows "0 \<le> GetSkipHeight h" and "GetSkipHeight h < h"
proof -
  have odd: "0 \<le> InvertLowestOne (InvertLowestOne (h - 1))
      \<and> InvertLowestOne (InvertLowestOne (h - 1)) + 1 < h" if "\<not> h < 2"
  proof -
    have "0 \<le> InvertLowestOne (h - 1)" "InvertLowestOne (h - 1) < h - 1"
      using InvertLowestOne_bounds [of "h - 1"] that by simp_all
    thus ?thesis using InvertLowestOne_nonneg [of "InvertLowestOne (h - 1)"] by linarith
  qed
  show "0 \<le> GetSkipHeight h"
    using assms odd InvertLowestOne_bounds(1) [OF assms]
    by (simp add: GetSkipHeight_def)
  show "GetSkipHeight h < h"
    using assms odd InvertLowestOne_bounds(2) [OF assms]
    by (simp add: GetSkipHeight_def)
qed

lemma GetSkipHeight_nonneg [simp]: "0 \<le> GetSkipHeight h"
  using GetSkipHeight_bounds(1) [of h] by (cases "0 < h") (simp_all add: GetSkipHeight_def)

text \<open>
  The walk of \<^verbatim>\<open>GetAncestor\<close>. The height looked for is not negative once the first test has
  passed, so it is a natural number in the loop; the height of the current entry decreases in
  every iteration.
\<close>

function GetAncestor_walk :: "block_store \<Rightarrow> nat \<Rightarrow> addr \<Rightarrow> int \<Rightarrow> addr result" where
  "GetAncestor_walk st height pindexWalk heightWalk =
     (if heightWalk > int height then
        rbind (deref st pindexWalk) (\<lambda>b.
          let heightSkip = GetSkipHeight heightWalk;
              heightSkipPrev = GetSkipHeight (heightWalk - 1)
          in case (if heightSkip = int height \<or>
                     (heightSkip > int height \<and>
                      \<not> (heightSkipPrev < heightSkip - 2 \<and> heightSkipPrev \<ge> int height))
                   then pskip b else None) of
               Some s \<Rightarrow> GetAncestor_walk st height s heightSkip
             | None \<Rightarrow> (case pprev b of
                          None \<Rightarrow> Inl Assert_failed
                        | Some p \<Rightarrow> GetAncestor_walk st height p (heightWalk - 1)))
      else Inr pindexWalk)"
  by pat_completeness auto
termination
proof (relation "measure (\<lambda>(st, height, a, h). nat h)", goal_cases)
  case 1
  show ?case by simp
next
  case (2 st height a h b s p x)
  hence "0 < h" by simp
  thus ?case using GetSkipHeight_bounds(2) [of h] by (simp add: 2)
next
  case (3 st height a h b s p x)
  hence "0 < h" by simp
  thus ?case using GetSkipHeight_bounds(2) [of h] by (simp add: 3)
qed

declare GetAncestor_walk.simps [simp del]

definition GetAncestor :: "block_store \<Rightarrow> addr \<Rightarrow> int \<Rightarrow> addr option result" where
  "GetAncestor st a height =
     rbind (deref st a) (\<lambda>b.
       if height > nHeight b \<or> height < 0 then Inr None
       else rbind (GetAncestor_walk st (nat height) a (nHeight b)) (\<lambda>r. Inr (Some r)))"

definition BuildSkip :: "block_store \<Rightarrow> addr \<Rightarrow> block_store result" where
  "BuildSkip st a =
     rbind (deref st a) (\<lambda>b.
       case pprev b of
         None \<Rightarrow> Inr st
       | Some p \<Rightarrow> rbind (GetAncestor st p (GetSkipHeight (nHeight b)))
                     (\<lambda>s. Inr (st(a \<mapsto> b\<lparr>pskip := s\<rparr>))))"


section \<open>The tree invariant\<close>

text \<open>
  The reference for ancestor lookups: \<^verbatim>\<open>n\<close> steps along \<^verbatim>\<open>pprev\<close>.
\<close>

primrec walk_back :: "block_store \<Rightarrow> nat \<Rightarrow> addr \<Rightarrow> addr option" where
  "walk_back st 0 a = Some a"
| "walk_back st (Suc n) a =
     (case st a of None \<Rightarrow> None
      | Some b \<Rightarrow> (case pprev b of None \<Rightarrow> None | Some p \<Rightarrow> walk_back st n p))"

definition ancestor :: "block_store \<Rightarrow> addr \<Rightarrow> int \<Rightarrow> addr option" where
  "ancestor st a h =
     (case st a of None \<Rightarrow> None
      | Some b \<Rightarrow> if 0 \<le> h \<and> h \<le> nHeight b then walk_back st (nat (nHeight b - h)) a else None)"

definition linked :: "block_store \<Rightarrow> CBlockIndex \<Rightarrow> bool" where
  "linked st b = (case pprev b of
      None \<Rightarrow> nHeight b = 0
    | Some p \<Rightarrow> (case st p of None \<Rightarrow> False
                 | Some pb \<Rightarrow> 0 \<le> nHeight pb \<and> nHeight b = nHeight pb + 1))"

definition skip_ok :: "block_store \<Rightarrow> addr \<Rightarrow> CBlockIndex \<Rightarrow> bool" where
  "skip_ok st a b = (pskip b = None \<or> pskip b = ancestor st a (GetSkipHeight (nHeight b)))"

definition wf_index :: "block_store \<Rightarrow> bool" where
  "wf_index st = (\<forall>a b. st a = Some b \<longrightarrow> linked st b \<and> skip_ok st a b)"

lemma wf_index_linked: "wf_index st \<Longrightarrow> st a = Some b \<Longrightarrow> linked st b"
  and wf_index_skip: "wf_index st \<Longrightarrow> st a = Some b \<Longrightarrow> skip_ok st a b"
  by (auto simp: wf_index_def)

lemma linked_cases:
  assumes "linked st b"
  obtains (root) "pprev b = None" "nHeight b = 0"
  | (child) p pb where "pprev b = Some p" "st p = Some pb" "0 \<le> nHeight pb"
      "nHeight b = nHeight pb + 1"
  using assms by (auto simp: linked_def split: option.splits)

lemma linked_nonneg: "linked st b \<Longrightarrow> 0 \<le> nHeight b"
  by (erule linked_cases) simp_all

lemma walk_back_add:
  "walk_back st (m + n) a =
     (case walk_back st m a of None \<Rightarrow> None | Some a' \<Rightarrow> walk_back st n a')"
  by (induction m arbitrary: a) (auto split: option.splits)

lemma walk_back_height:
  assumes "wf_index st" "st a = Some b" "int n \<le> nHeight b"
  obtains a' b' where "walk_back st n a = Some a'" "st a' = Some b'"
    "nHeight b' = nHeight b - int n"
proof -
  have "\<exists>a' b'. walk_back st n a = Some a' \<and> st a' = Some b' \<and> nHeight b' = nHeight b - int n"
    using assms(2,3)
  proof (induction n arbitrary: a b)
    case 0
    thus ?case by simp
  next
    case (Suc n)
    from wf_index_linked [OF assms(1) Suc.prems(1)] show ?case
    proof (cases rule: linked_cases)
      case root
      thus ?thesis using Suc.prems by simp
    next
      case (child p pb)
      with Suc.prems Suc.IH [of p pb] show ?thesis by fastforce
    qed
  qed
  thus ?thesis using that by blast
qed

lemma ancestor_Some:
  assumes "wf_index st" "st a = Some b" "0 \<le> h" "h \<le> nHeight b"
  obtains a' b' where "ancestor st a h = Some a'" "st a' = Some b'" "nHeight b' = h"
proof -
  obtain a' b' where "walk_back st (nat (nHeight b - h)) a = Some a'" "st a' = Some b'"
    "nHeight b' = nHeight b - int (nat (nHeight b - h))"
    using walk_back_height [OF assms(1,2), of "nat (nHeight b - h)"] assms(3,4) by auto
  thus ?thesis using that assms by (simp add: ancestor_def)
qed

lemma ancestor_SomeD:
  assumes "wf_index st" "ancestor st a h = Some a'"
  obtains b b' where "st a = Some b" "st a' = Some b'" "nHeight b' = h" "0 \<le> h" "h \<le> nHeight b"
proof -
  from assms(2) obtain b where b: "st a = Some b" "0 \<le> h" "h \<le> nHeight b"
    by (auto simp: ancestor_def split: option.splits if_splits)
  with ancestor_Some [OF assms(1) b] assms(2) that show ?thesis by auto
qed

lemma ancestor_self [simp]:
  "st a = Some b \<Longrightarrow> 0 \<le> nHeight b \<Longrightarrow> ancestor st a (nHeight b) = Some a"
  by (simp add: ancestor_def)

lemma ancestor_trans:
  assumes "wf_index st" "ancestor st a h = Some a'" "h' \<le> h"
  shows "ancestor st a' h' = ancestor st a h'"
proof -
  from ancestor_SomeD [OF assms(1,2)] obtain b b' where
    b: "st a = Some b" "st a' = Some b'" "nHeight b' = h" "0 \<le> h" "h \<le> nHeight b" .
  show ?thesis
  proof (cases "0 \<le> h'")
    case True
    hence "nat (nHeight b - h') = nat (nHeight b - h) + nat (h - h')"
      using b assms(3) by simp
    thus ?thesis
      using b assms(2,3) True by (simp add: ancestor_def walk_back_add split: if_splits)
  qed (use b in \<open>simp add: ancestor_def\<close>)
qed

lemma ancestor_pprev:
  assumes "wf_index st" "st a = Some b" "pprev b = Some p" "h < nHeight b"
  shows "ancestor st p h = ancestor st a h"
proof -
  from wf_index_linked [OF assms(1,2)] assms(3) obtain pb where
    pb: "st p = Some pb" "nHeight b = nHeight pb + 1" "0 \<le> nHeight pb"
    by (auto elim: linked_cases)
  show ?thesis
  proof (cases "0 \<le> h")
    case True
    have "nat (nHeight b - h) = Suc (nat (nHeight pb - h))"
      using pb assms(4) True by simp
    thus ?thesis using assms pb by (simp add: ancestor_def)
  qed (use assms pb in \<open>simp add: ancestor_def\<close>)
qed

lemma GetAncestor_walk_ancestor:
  assumes "wf_index st" "st a = Some b" "nHeight b = hw" "int h \<le> hw"
  shows "\<exists>r. GetAncestor_walk st h a hw = Inr r \<and> ancestor st a (int h) = Some r"
  using assms
proof (induction st h a hw arbitrary: b rule: GetAncestor_walk.induct)
  case (1 st h a hw)
  note wf = "1.prems"(1) and b = "1.prems"(2-)
  show ?case
  proof (cases "hw > int h")
    case False
    hence "hw = int h" using b by simp
    thus ?thesis
      using b ancestor_self [of st a b] by (subst GetAncestor_walk.simps) simp
  next
    case hw: True
    have d: "deref st a = Inr b" using b by (simp add: deref_def)
    note IH_prev = 1(1) [OF hw d refl refl] and IH_skip = 1(2) [OF hw d refl refl]
    define next_skip where "next_skip =
      (if GetSkipHeight hw = int h \<or> (GetSkipHeight hw > int h \<and>
          \<not> (GetSkipHeight (hw - 1) < GetSkipHeight hw - 2 \<and> GetSkipHeight (hw - 1) \<ge> int h))
       then pskip b else None)"
    show ?thesis
    proof (cases next_skip)
      case (Some s)
      hence s: "pskip b = Some s" "int h \<le> GetSkipHeight hw"
        by (auto simp: next_skip_def split: if_splits)
      have anc: "ancestor st a (GetSkipHeight hw) = Some s"
        using wf_index_skip [OF wf b(1)] b s by (simp add: skip_ok_def)
      obtain sb where sb: "st s = Some sb" "nHeight sb = GetSkipHeight hw"
        using ancestor_SomeD [OF wf anc] by metis
      have "ancestor st s (int h) = ancestor st a (int h)"
        by (rule ancestor_trans [OF wf anc s(2)])
      moreover have "GetAncestor_walk st h a hw = GetAncestor_walk st h s (GetSkipHeight hw)"
        using hw d Some by (subst GetAncestor_walk.simps) (simp add: next_skip_def Let_def)
      ultimately show ?thesis
        using IH_skip [OF Some [unfolded next_skip_def] wf sb s(2)] by simp
    next
      case None
      from wf_index_linked [OF wf b(1)] show ?thesis
      proof (cases rule: linked_cases)
        case root
        thus ?thesis using b hw by simp
      next
        case (child p pb)
        have "ancestor st p (int h) = ancestor st a (int h)"
          by (rule ancestor_pprev [OF wf b(1) child(1)]) (use b hw in simp)
        moreover have "GetAncestor_walk st h a hw = GetAncestor_walk st h p (hw - 1)"
          using hw d None child by (subst GetAncestor_walk.simps) (simp add: next_skip_def Let_def)
        ultimately show ?thesis
          using IH_prev [OF None [unfolded next_skip_def] child(1) wf child(2)] b hw child by simp
      qed
    qed
  qed
qed

theorem GetAncestor_ancestor:
  assumes "wf_index st" "st a = Some b"
  shows "GetAncestor st a h = Inr (ancestor st a h)"
proof (cases "h > nHeight b \<or> h < 0")
  case True
  thus ?thesis using assms by (auto simp: GetAncestor_def deref_def ancestor_def)
next
  case False
  thus ?thesis
    using assms GetAncestor_walk_ancestor [OF assms refl, of "nat h"]
    by (auto simp: GetAncestor_def deref_def)
qed


section \<open>Insertion of an entry\<close>

lemma walk_back_mono:
  assumes "st \<subseteq>\<^sub>m st'" "walk_back st n a = Some a'"
  shows "walk_back st' n a = Some a'"
  using assms(2)
proof (induction n arbitrary: a)
  case (Suc n)
  then obtain b where b: "st a = Some b"
    by (auto split: option.splits)
  hence "st' a = Some b"
    using assms(1) by (metis domI map_le_def)
  thus ?case using Suc b by (auto split: option.splits)
qed simp

lemma ancestor_mono:
  assumes "wf_index st" "st \<subseteq>\<^sub>m st'" "st a = Some b"
  shows "ancestor st' a h = ancestor st a h"
proof -
  have b': "st' a = Some b"
    using assms by (metis domI map_le_def)
  show ?thesis
  proof (cases "0 \<le> h \<and> h \<le> nHeight b")
    case True
    then obtain r where "ancestor st a h = Some r"
      using ancestor_Some [OF assms(1,3)] by metis
    moreover from this have "ancestor st' a h = Some r"
      using walk_back_mono [OF assms(2)] assms(3) b' True by (simp add: ancestor_def)
    ultimately show ?thesis by simp
  qed (use assms(3) b' in \<open>auto simp: ancestor_def\<close>)
qed

lemma linked_mono: "st \<subseteq>\<^sub>m st' \<Longrightarrow> linked st b \<Longrightarrow> linked st' b"
  by (erule linked_cases) (auto simp: linked_def map_le_def dom_def split: option.splits)

text \<open>A new entry below an existing one, its skip pointer not yet built.\<close>

lemma wf_index_insert:
  assumes "wf_index st" "st a = None" "pskip b = None" "linked st b"
  shows "wf_index (st(a \<mapsto> b))"
proof -
  have le: "st \<subseteq>\<^sub>m st(a \<mapsto> b)"
    using assms(2) by (auto simp: map_le_def)
  show ?thesis
    unfolding wf_index_def
  proof (intro allI impI)
    fix x c
    assume x: "(st(a \<mapsto> b)) x = Some c"
    show "linked (st(a \<mapsto> b)) c \<and> skip_ok (st(a \<mapsto> b)) x c"
    proof (cases "x = a")
      case True
      with x assms(3) linked_mono [OF le assms(4)] show ?thesis
        by (simp add: skip_ok_def)
    next
      case False
      hence c: "st x = Some c" using x by simp
      with wf_index_linked [OF assms(1) c] wf_index_skip [OF assms(1) c]
      show ?thesis
        by (simp add: linked_mono [OF le] skip_ok_def ancestor_mono [OF assms(1) le c])
    qed
  qed
qed

text \<open>Updates that leave heights and parents alone do not move any ancestor.\<close>

definition same_tree :: "block_store \<Rightarrow> block_store \<Rightarrow> bool" where
  "same_tree st st' = (\<forall>a. map_option (\<lambda>b. (pprev b, nHeight b)) (st' a)
                          = map_option (\<lambda>b. (pprev b, nHeight b)) (st a))"

lemma same_treeD:
  assumes "same_tree st st'" "st' a = Some b'"
  obtains b where "st a = Some b" "pprev b' = pprev b" "nHeight b' = nHeight b"
proof -
  from assms have "map_option (\<lambda>b. (pprev b, nHeight b)) (st a) = Some (pprev b', nHeight b')"
    unfolding same_tree_def by (metis option.simps(9))
  thus ?thesis using that by auto
qed

lemma same_tree_None: "same_tree st st' \<Longrightarrow> st' a = None \<longleftrightarrow> st a = None"
  unfolding same_tree_def by (drule spec [of _ a]) (cases "st a"; cases "st' a"; simp)

lemma same_tree_walk_back: "same_tree st st' \<Longrightarrow> walk_back st' n a = walk_back st n a"
proof (induction n arbitrary: a)
  case (Suc n)
  show ?case
  proof (cases "st' a")
    case None
    moreover from this have "st a = None" using same_tree_None [OF Suc.prems] by blast
    ultimately show ?thesis by simp
  next
    case (Some b')
    from same_treeD [OF Suc.prems this] obtain b where
      "st a = Some b" "pprev b' = pprev b" by metis
    thus ?thesis using Some Suc by (simp split: option.splits)
  qed
qed simp

lemma same_tree_ancestor:
  assumes "same_tree st st'"
  shows "ancestor st' a h = ancestor st a h"
proof (cases "st' a")
  case None
  moreover from this have "st a = None" using same_tree_None [OF assms] by blast
  ultimately show ?thesis by (simp add: ancestor_def)
next
  case (Some b')
  from same_treeD [OF assms this] obtain b where "st a = Some b" "nHeight b' = nHeight b" by metis
  thus ?thesis using Some same_tree_walk_back [OF assms] by (simp add: ancestor_def)
qed

lemma same_tree_linked:
  assumes "same_tree st st'" "linked st b" "pprev b' = pprev b" "nHeight b' = nHeight b"
  shows "linked st' b'"
  using assms(2)
proof (cases rule: linked_cases)
  case root
  thus ?thesis using assms by (simp add: linked_def)
next
  case (child p pb)
  obtain pb' where "st' p = Some pb'"
    using same_tree_None [OF assms(1), of p] child by auto
  moreover from same_treeD [OF assms(1) this] have "nHeight pb' = nHeight pb"
    using child by (metis option.inject)
  ultimately show ?thesis using child assms by (simp add: linked_def)
qed

lemma wf_index_same_tree:
  assumes "wf_index st" "same_tree st st'"
    and skip: "\<And>a b'. st' a = Some b' \<Longrightarrow> skip_ok st' a b'"
  shows "wf_index st'"
  unfolding wf_index_def
proof (intro allI impI conjI)
  fix a b'
  assume b': "st' a = Some b'"
  from same_treeD [OF assms(2) b'] obtain b where
    b: "st a = Some b" "pprev b' = pprev b" "nHeight b' = nHeight b" .
  show "linked st' b'"
    by (rule same_tree_linked [OF assms(2) wf_index_linked [OF assms(1) b(1)] b(2,3)])
  show "skip_ok st' a b'" by (rule skip [OF b'])
qed

lemma BuildSkip_wf:
  assumes "wf_index st" "st a = Some b"
  obtains st' b' where "BuildSkip st a = Inr st'" "wf_index st'" "same_tree st st'"
    "st' a = Some b'" "pprev b \<noteq> None \<longrightarrow> pskip b' = ancestor st a (GetSkipHeight (nHeight b))"
    "\<forall>x. x \<noteq> a \<longrightarrow> st' x = st x"
  using wf_index_linked [OF assms]
proof (cases rule: linked_cases)
  case root
  show ?thesis
    by (rule that [of st b]) (use assms root in \<open>simp_all add: BuildSkip_def deref_def same_tree_def\<close>)
next
  case (child p pb)
  define b' where "b' = b\<lparr>pskip := ancestor st a (GetSkipHeight (nHeight b))\<rparr>"
  define st' where "st' = st(a \<mapsto> b')"
  have hb: "0 < nHeight b" using child by simp
  have "ancestor st p (GetSkipHeight (nHeight b)) = ancestor st a (GetSkipHeight (nHeight b))"
    by (rule ancestor_pprev [OF assms child(1) GetSkipHeight_bounds(2) [OF hb]])
  hence B: "BuildSkip st a = Inr st'"
    using assms child GetAncestor_ancestor [OF assms(1) child(2)]
    by (simp add: BuildSkip_def deref_def st'_def b'_def)
  have S: "same_tree st st'"
    using assms by (simp add: same_tree_def st'_def b'_def)
  have "skip_ok st' x c" if "st' x = Some c" for x c
  proof (cases "x = a")
    case True
    hence "c = b'" using that by (simp add: st'_def)
    thus ?thesis unfolding skip_ok_def same_tree_ancestor [OF S] by (simp add: b'_def True)
  next
    case False
    hence "st x = Some c" using that by (simp add: st'_def)
    from wf_index_skip [OF assms(1) this] show ?thesis
      unfolding skip_ok_def same_tree_ancestor [OF S] .
  qed
  hence "wf_index st'"
    by (rule wf_index_same_tree [OF assms(1) S])
  show ?thesis
    by (rule that [OF B \<open>wf_index st'\<close> S, of b'])
       (simp_all add: st'_def b'_def)
qed


section \<open>Median time past\<close>

definition nMedianTimeSpan :: nat where
  "nMedianTimeSpan = 11"

text \<open>The array is filled from its end towards its start, so the filled part grows at the front.\<close>

primrec median_fill :: "block_store \<Rightarrow> nat \<Rightarrow> addr option \<Rightarrow> int list \<Rightarrow> int list result" where
  "median_fill st 0 pindex pmedian = Inr pmedian"
| "median_fill st (Suc n) pindex pmedian =
     (case pindex of None \<Rightarrow> Inr pmedian
      | Some a \<Rightarrow> rbind (deref st a)
          (\<lambda>b. median_fill st n (pprev b) (GetBlockTime b # pmedian)))"

definition GetMedianTimePast :: "block_store \<Rightarrow> addr \<Rightarrow> int result" where
  "GetMedianTimePast st a =
     rbind (median_fill st nMedianTimeSpan (Some a) [])
       (\<lambda>pmedian. let s = sort pmedian in Inr (s ! (length s div 2)))"


text \<open>The times read by \<^verbatim>\<open>GetMedianTimePast\<close>, newest first.\<close>

primrec recent_times :: "block_store \<Rightarrow> nat \<Rightarrow> addr option \<Rightarrow> int list" where
  "recent_times st 0 p = []"
| "recent_times st (Suc n) p =
     (case p of None \<Rightarrow> []
      | Some a \<Rightarrow> (case st a of None \<Rightarrow> []
                   | Some b \<Rightarrow> GetBlockTime b # recent_times st n (pprev b)))"

lemma median_fill_recent:
  assumes "wf_index st" "case p of None \<Rightarrow> True | Some a \<Rightarrow> st a \<noteq> None"
  shows "median_fill st n p acc = Inr (rev (recent_times st n p) @ acc)"
  using assms(2)
proof (induction n arbitrary: p acc)
  case (Suc n)
  show ?case
  proof (cases p)
    case (Some a)
    then obtain b where b: "st a = Some b" using Suc.prems by auto
    from wf_index_linked [OF assms(1) b]
    have "case pprev b of None \<Rightarrow> True | Some a \<Rightarrow> st a \<noteq> None"
      by (auto elim: linked_cases)
    thus ?thesis using Suc.IH Some b by (simp add: deref_def)
  qed simp
qed simp

lemma take_recent_times:
  "take m (recent_times st n p) = recent_times st (min m n) p"
proof (induction n arbitrary: m p)
  case (Suc n)
  show ?case
    by (cases m) (auto simp: Suc.IH split: option.splits)
qed simp

lemma length_recent_times: "length (recent_times st n p) \<le> n"
  by (induction n arbitrary: p) (auto split: option.splits)

lemma sorted_nth_ge:
  fixes m :: "'a::linorder"
  assumes "sorted xs" "i < length xs"
  shows "m \<le> xs ! i \<longleftrightarrow> length (filter (\<lambda>x. x < m) xs) \<le> i"
  using assms
proof (induction xs arbitrary: i)
  case (Cons x xs)
  show ?case
  proof (cases "x < m")
    case True
    thus ?thesis using Cons by (cases i) (auto simp: not_le)
  next
    case False
    hence "filter (\<lambda>x. x < m) xs = []"
      using Cons.prems by (auto simp: filter_empty_conv)
    moreover have "m \<le> (x # xs) ! i"
      using Cons.prems False by (cases i) (auto dest!: nth_mem intro: order_trans)
    ultimately show ?thesis using False by simp
  qed
qed simp

definition median_upper :: "int list \<Rightarrow> int" where
  "median_upper ts = sort ts ! (length ts div 2)"

lemma median_upper_ge_iff:
  assumes "ts \<noteq> []"
  shows "m \<le> median_upper ts \<longleftrightarrow> length (filter (\<lambda>x. x < m) ts) \<le> length ts div 2"
proof -
  have "length (filter (\<lambda>x. x < m) (sort ts)) = length (filter (\<lambda>x. x < m) ts)"
    by (simp add: filter_sort)
  thus ?thesis
    using sorted_nth_ge [of "sort ts" "length ts div 2" m] assms
    by (simp add: median_upper_def div_less_dividend)
qed

lemma GetMedianTimePast_eq:
  assumes "wf_index st" "st a = Some b"
  shows "GetMedianTimePast st a = Inr (median_upper (recent_times st 11 (Some a)))"
  using assms median_fill_recent [OF assms(1), of "Some a" 11 "[]"]
    properties_for_sort [of "sort (recent_times st 11 (Some a))" "rev (recent_times st 11 (Some a))"]
  by (simp add: GetMedianTimePast_def nMedianTimeSpan_def median_upper_def Let_def del: median_fill.simps)

lemma median_upper_push:
  assumes "ts \<noteq> []" "median_upper ts \<le> t" "length ts \<le> Suc n"
  shows "median_upper ts \<le> median_upper (t # take n ts)"
proof -
  let ?m = "median_upper ts"
  let ?c = "\<lambda>ts. length (filter (\<lambda>x. x < ?m) ts)"
  have c: "?c ts \<le> length ts div 2"
    using median_upper_ge_iff [OF assms(1), of ?m] by simp
  have "?c ts = ?c (take n ts) + ?c (drop n ts)"
    by (metis append_take_drop_id filter_append length_append)
  hence "?c (take n ts) \<le> length ts div 2" using c by simp
  moreover have "length ts div 2 \<le> length (t # take n ts) div 2"
    using assms(3) by (intro div_le_mono) auto
  ultimately have "?c (t # take n ts) \<le> length (t # take n ts) div 2"
    using assms(2) by simp
  thus ?thesis by (subst median_upper_ge_iff) simp_all
qed


section \<open>The contract of ancestor lookup\<close>

text \<open>
  What the callers of \<^verbatim>\<open>GetAncestor\<close> rely on: entries have heights that go down by one along
  the parent pointer and reach zero at the root, and a lookup returns the entry of the requested
  height on the way to the root.
\<close>

locale ancestor_lookup =
  fixes inv :: "'s \<Rightarrow> bool"
    and height :: "'s \<Rightarrow> 'a \<Rightarrow> int option"
    and parent :: "'s \<Rightarrow> 'a \<Rightarrow> 'a option"
    and lookup :: "'s \<Rightarrow> 'a \<Rightarrow> int \<Rightarrow> 'a option result"
  assumes height_nonneg: "inv s \<Longrightarrow> height s a = Some h \<Longrightarrow> 0 \<le> h"
    and parent_None: "inv s \<Longrightarrow> height s a = Some h \<Longrightarrow> parent s a = None \<longleftrightarrow> h = 0"
    and parent_height: "inv s \<Longrightarrow> height s a = Some h \<Longrightarrow> parent s a = Some p \<Longrightarrow>
      height s p = Some (h - 1)"
    and lookup_self: "inv s \<Longrightarrow> height s a = Some h \<Longrightarrow> lookup s a h = Inr (Some a)"
    and lookup_parent: "inv s \<Longrightarrow> height s a = Some h \<Longrightarrow> parent s a = Some p \<Longrightarrow> k < h \<Longrightarrow>
      lookup s a k = lookup s p k"
    and lookup_out: "inv s \<Longrightarrow> height s a = Some h \<Longrightarrow> k < 0 \<or> h < k \<Longrightarrow> lookup s a k = Inr None"
begin

lemma lookup_range:
  assumes "inv s" "height s a = Some h" "0 \<le> k" "k \<le> h"
  shows "\<exists>c. lookup s a k = Inr (Some c) \<and> height s c = Some k"
  using assms(2,4)
proof (induction "nat (h - k)" arbitrary: a h)
  case 0
  thus ?case using lookup_self [OF assms(1)] by auto
next
  case (Suc n)
  hence kh: "k < h" by linarith
  with assms(3) obtain p where p: "parent s a = Some p"
    using parent_None [OF assms(1) Suc.prems(1)] by (cases "parent s a") auto
  have "\<exists>c. lookup s p k = Inr (Some c) \<and> height s c = Some k"
    using parent_height [OF assms(1) Suc.prems(1) p] Suc(2) kh by (intro Suc(1)) auto
  thus ?case using lookup_parent [OF assms(1) Suc.prems(1) p kh] by simp
qed

lemma lookup_lookup:
  assumes "inv s" "height s a = Some h" "lookup s a k = Inr (Some c)" "j \<le> k"
  shows "lookup s c j = lookup s a j"
proof -
  have k: "0 \<le> k" "k \<le> h"
    using lookup_out [OF assms(1,2), of k] assms(3) by (auto simp: not_less [symmetric])
  show ?thesis
    using assms(2,3) k
  proof (induction "nat (h - k)" arbitrary: a h)
    case 0
    hence "k = h" by simp
    thus ?case using 0 lookup_self [OF assms(1)] by auto
  next
    case (Suc n)
    hence kh: "k < h" by linarith
    with k obtain p where p: "parent s a = Some p"
      using parent_None [OF assms(1) Suc.prems(1)] by (cases "parent s a") auto
    have "lookup s c j = lookup s p j"
      using parent_height [OF assms(1) Suc.prems(1) p] Suc(2,4) k kh
        lookup_parent [OF assms(1) Suc.prems(1) p kh]
      by (intro Suc(1) [of "h - 1"]) auto
    thus ?case
      using lookup_parent [OF assms(1) Suc.prems(1) p, of j] kh assms(4) by simp
  qed
qed

text \<open>Two branches that meet at a height agree from there down to the root.\<close>

lemma lookup_agree_down:
  assumes "inv s" "height s a = Some h" "height s b = Some h'"
    and "lookup s a k = Inr (Some c)" "lookup s b k = Inr (Some c)" "j \<le> k"
  shows "lookup s a j = lookup s b j"
  using lookup_lookup [OF assms(1,2,4,6)] lookup_lookup [OF assms(1,3,5,6)] by simp

lemma parent_of_lookup:
  assumes "inv s" "height s a = Some h" "lookup s a k = Inr (Some c)" "0 < k"
  shows "parent s c \<noteq> None \<and> lookup s a (k - 1) = Inr (parent s c)"
proof -
  have k: "0 \<le> k" "k \<le> h"
    using lookup_out [OF assms(1,2), of k] assms(3) by (auto simp: not_less [symmetric])
  have hc: "height s c = Some k"
    using lookup_range [OF assms(1,2) k] assms(3) by auto
  then obtain p where p: "parent s c = Some p"
    using parent_None [OF assms(1) hc] assms(4) by (cases "parent s c") auto
  have "lookup s c (k - 1) = Inr (Some p)"
    using lookup_parent [OF assms(1) hc p, of "k - 1"] parent_height [OF assms(1) hc p]
      lookup_self [OF assms(1)] by simp
  thus ?thesis using lookup_lookup [OF assms(1-3), of "k - 1"] p by simp
qed

end

definition height_of :: "block_store \<Rightarrow> addr \<Rightarrow> int option" where
  "height_of st a = map_option nHeight (st a)"

definition parent_of :: "block_store \<Rightarrow> addr \<Rightarrow> addr option" where
  "parent_of st a = Option.bind (st a) pprev"

interpretation tree: ancestor_lookup wf_index height_of parent_of GetAncestor
proof (unfold_locales, goal_cases)
  case (1 s a h)
  thus ?case by (auto simp: height_of_def dest: wf_index_linked linked_nonneg)
next
  case (2 s a h)
  then obtain b where b: "s a = Some b" "nHeight b = h" by (auto simp: height_of_def)
  from wf_index_linked [OF 2(1) b(1)] show ?case
    by (cases rule: linked_cases) (use b in \<open>auto simp: parent_of_def\<close>)
next
  case (3 s a h p)
  then obtain b where b: "s a = Some b" "nHeight b = h" "pprev b = Some p"
    by (auto simp: height_of_def parent_of_def)
  from wf_index_linked [OF 3(1) b(1)] show ?case
    by (cases rule: linked_cases) (use b in \<open>auto simp: height_of_def\<close>)
next
  case (4 s a h)
  then obtain b where b: "s a = Some b" "nHeight b = h" by (auto simp: height_of_def)
  moreover have "0 \<le> nHeight b" using 4 b by (auto dest: wf_index_linked linked_nonneg)
  ultimately show ?case
    using 4 ancestor_self [of s a b] by (simp add: GetAncestor_ancestor)
next
  case (5 s a h p k)
  then obtain b where b: "s a = Some b" "nHeight b = h" "pprev b = Some p"
    by (auto simp: height_of_def parent_of_def)
  from wf_index_linked [OF 5(1) b(1)] obtain pb where "s p = Some pb"
    by (cases rule: linked_cases) (use b in auto)
  thus ?case
    using 5 b ancestor_pprev [OF 5(1) b(1,3), of k] by (simp add: GetAncestor_ancestor)
next
  case (6 s a h k)
  thus ?case by (auto simp: height_of_def GetAncestor_ancestor ancestor_def)
qed


section \<open>A small index\<close>

text \<open>Entries at the addresses \<^verbatim>\<open>0, 1, \<dots>\<close> of a list; the invariant is then a finite check.\<close>

definition store_of :: "CBlockIndex list \<Rightarrow> block_store" where
  "store_of bs = (\<lambda>a. if a < length bs then Some (bs ! a) else None)"

lemma wf_index_store_of:
  "wf_index (store_of bs) \<longleftrightarrow>
     (\<forall>a \<in> set [0..<length bs]. linked (store_of bs) (bs ! a) \<and> skip_ok (store_of bs) a (bs ! a))"
  by (auto simp: wf_index_def store_of_def)

definition entry :: "addr option \<Rightarrow> addr option \<Rightarrow> int \<Rightarrow> u32 \<Rightarrow> CBlockIndex" where
  "entry prev skip h t = CBlockIndex_default\<lparr>pprev := prev, pskip := skip, nHeight := h,
     nTime := t, nTimeMax := t, nBits := 0x1d00ffff,
     phashBlock := Some (word_of_nat (nat h) # replicate 31 (ucast t))\<rparr>"

text \<open>A branch of five entries and a fork at height three.\<close>

definition small_index :: "CBlockIndex list" where
  "small_index =
     [entry None None 0 100, entry (Some 0) (Some 0) 1 200, entry (Some 1) (Some 0) 2 300,
      entry (Some 2) (Some 1) 3 250, entry (Some 3) (Some 0) 4 350, entry (Some 2) (Some 1) 3 400]"

lemma wf_small_index: "wf_index (store_of small_index)"
  unfolding wf_index_store_of by code_simp


section \<open>Properties\<close>

text \<open>The status bits that raising the validity level must leave alone.\<close>

definition kept_bits :: u32 where
  "kept_bits = BLOCK_HAVE_MASK OR BLOCK_FAILED_MASK OR BLOCK_OPT_WITNESS"

text \<open>
  C11: in a well-formed index \<^verbatim>\<open>GetAncestor\<close> terminates without failing its assertion and
  returns exactly the entry that following \<^verbatim>\<open>pprev\<close> down to the requested height reaches (and
  null for a height outside the branch), whatever skip pointers are present.
\<close>

theorem GetAncestor_follows_pprev:
  assumes "wf_index st" "st a = Some b"
  shows "if 0 \<le> h \<and> h \<le> nHeight b
    then \<exists>r rb. GetAncestor st a h = Inr (Some r) \<and> walk_back st (nat (nHeight b - h)) a = Some r \<and>
        st r = Some rb \<and> nHeight rb = h
    else GetAncestor st a h = Inr None"
proof (cases "0 \<le> h \<and> h \<le> nHeight b")
  case True
  then obtain r rb where r: "ancestor st a h = Some r" "st r = Some rb" "nHeight rb = h"
    using ancestor_Some [OF assms] by auto
  moreover have "walk_back st (nat (nHeight b - h)) a = Some r"
    using r(1) assms(2) True by (simp add: ancestor_def)
  ultimately show ?thesis using True GetAncestor_ancestor [OF assms, of h] by simp
next
  case False
  hence "ancestor st a h = None" using assms(2) by (auto simp: ancestor_def)
  thus ?thesis using False GetAncestor_ancestor [OF assms, of h] by simp
qed

theorem GetAncestor_follows_pprev_witness:
  "wf_index (store_of small_index) \<and> GetAncestor (store_of small_index) 5 1 = Inr (Some 1)
   \<and> GetAncestor (store_of small_index) 5 4 = Inr None"
proof -
  have st: "store_of small_index 5 = Some (entry (Some 2) (Some 1) 3 400)"
    by (simp add: store_of_def small_index_def)
  have "walk_back (store_of small_index) 2 5 = Some 1" by code_simp
  thus ?thesis
    using GetAncestor_follows_pprev [OF wf_small_index st, of 1]
      GetAncestor_follows_pprev [OF wf_small_index st, of 4] wf_small_index
    by (auto simp: entry_def)
qed

text \<open>
  C25: adding a new entry below an existing one and building its skip pointer succeeds, keeps the
  index well formed, does not change any lookup from the entries already there, and leaves the new
  entry with a non-null skip pointer to its ancestor at the skip height.
\<close>

theorem BuildSkip_keeps_index:
  assumes "wf_index st" "st a = None" "st p = Some pb" "pprev b = Some p"
    and "nHeight b = nHeight pb + 1" "pskip b = None"
  shows "\<exists>st' b' s. BuildSkip (st(a \<mapsto> b)) a = Inr st' \<and> wf_index st' \<and> st' a = Some b' \<and>
    pskip b' = Some s \<and> walk_back st' (nat (nHeight b - GetSkipHeight (nHeight b))) a = Some s \<and>
    (\<forall>x h. st x \<noteq> None \<longrightarrow> GetAncestor st' x h = GetAncestor st x h)"
proof -
  let ?st = "st(a \<mapsto> b)"
  have pb: "0 \<le> nHeight pb"
    using assms(1,3) by (auto dest: wf_index_linked linked_nonneg)
  hence "linked st b" using assms by (simp add: linked_def)
  hence wf: "wf_index ?st" by (rule wf_index_insert [OF assms(1,2,6)])
  have le: "st \<subseteq>\<^sub>m ?st" using assms(2) by (auto simp: map_le_def)
  have a: "?st a = Some b" by simp
  from BuildSkip_wf [OF wf a] obtain st' b' where B: "BuildSkip ?st a = Inr st'" "wf_index st'"
    "same_tree ?st st'" "st' a = Some b'"
    "pprev b \<noteq> None \<longrightarrow> pskip b' = ancestor ?st a (GetSkipHeight (nHeight b))"
    "\<forall>x. x \<noteq> a \<longrightarrow> st' x = ?st x" .
  have hb: "0 < nHeight b" using assms pb by simp
  then obtain s where s: "ancestor ?st a (GetSkipHeight (nHeight b)) = Some s"
    using ancestor_Some [OF wf a GetSkipHeight_nonneg less_imp_le [OF GetSkipHeight_bounds(2)]] by blast
  have "walk_back st' (nat (nHeight b - GetSkipHeight (nHeight b))) a = Some s"
    using s same_tree_walk_back [OF B(3)] GetSkipHeight_bounds [OF hb] by (simp add: ancestor_def)
  moreover have "\<forall>x h. st x \<noteq> None \<longrightarrow> GetAncestor st' x h = GetAncestor st x h"
  proof (intro allI impI)
    fix x h
    assume "st x \<noteq> None"
    then obtain c where c: "st x = Some c" by auto
    hence "x \<noteq> a" using assms(2) by auto
    hence "st' x = Some c" using B(6) c by simp
    thus "GetAncestor st' x h = GetAncestor st x h"
      using GetAncestor_ancestor [OF B(2)] GetAncestor_ancestor [OF assms(1) c]
        same_tree_ancestor [OF B(3)] ancestor_mono [OF assms(1) le c] by simp
  qed
  moreover have "pskip b' = Some s" using B(5) assms(4) s by simp
  ultimately show ?thesis using B(1,2,4) by blast
qed

theorem BuildSkip_keeps_index_witness:
  "\<exists>st' b' s. BuildSkip ((store_of small_index)(6 \<mapsto> entry (Some 5) None 4 500)) 6 = Inr st' \<and>
     wf_index st' \<and> st' 6 = Some b' \<and> pskip b' = Some s"
proof -
  have "store_of small_index 6 = None"
    "store_of small_index 5 = Some (entry (Some 2) (Some 1) 3 400)"
    by (simp_all add: store_of_def small_index_def)
  from BuildSkip_keeps_index [OF wf_small_index this, of "entry (Some 5) None 4 500"]
  show ?thesis by (auto simp: entry_def)
qed

text \<open>
  C26: the median time past never decreases along a branch as long as each block's time is at least
  the median time past of its parent: the bound that header validation checks is itself monotone.
\<close>

theorem GetMedianTimePast_monotone:
  assumes "wf_index st" "st a = Some b" "pprev b = Some p"
    and "GetMedianTimePast st p = Inr m" "m \<le> GetBlockTime b"
  shows "\<exists>m'. GetMedianTimePast st a = Inr m' \<and> m \<le> m'"
proof -
  from wf_index_linked [OF assms(1,2)] assms(3) obtain pb where pb: "st p = Some pb"
    by (auto elim: linked_cases)
  let ?ts = "recent_times st 11 (Some p)"
  have m: "m = median_upper ?ts"
    using assms(4) GetMedianTimePast_eq [OF assms(1) pb] by simp
  have child: "recent_times st 11 (Some a) = GetBlockTime b # take 10 ?ts"
    using assms(2,3) take_recent_times [of 10 st 11 "Some p"] by (simp add: eval_nat_numeral)
  have ne: "?ts \<noteq> []" by (simp add: eval_nat_numeral pb)
  have "length ?ts \<le> Suc 10" using length_recent_times [of st 11 "Some p"] by simp
  with median_upper_push [OF ne, of "GetBlockTime b" 10] m assms(5)
  have "m \<le> median_upper (recent_times st 11 (Some a))"
    unfolding child by blast
  thus ?thesis using GetMedianTimePast_eq [OF assms(1,2)] by simp
qed

theorem GetMedianTimePast_monotone_witness:
  "GetMedianTimePast (store_of small_index) 3 = Inr 250 \<and>
   (\<exists>m'. GetMedianTimePast (store_of small_index) 4 = Inr m' \<and> 250 \<le> m')"
proof -
  have b: "store_of small_index 4 = Some (entry (Some 3) (Some 0) 4 350)"
    by (simp add: store_of_def small_index_def)
  have m: "GetMedianTimePast (store_of small_index) 3 = Inr 250"
    by code_simp
  show ?thesis
    using GetMedianTimePast_monotone [OF wf_small_index b _ m] m
    by (simp add: entry_def GetBlockTime_def)
qed

text \<open>
  \<^verbatim>\<open>RaiseValidity\<close> reports a change exactly for an entry that has not failed and is below
  the requested level; afterwards \<^verbatim>\<open>IsValid\<close> holds at that level exactly for entries that have
  not failed, the level never goes down, the data, undo and failure bits are untouched, and the
  assumed-valid bit is at most cleared. A level outside the validity mask fails the assertion.
\<close>

theorem RaiseValidity_raises:
  "if lvl AND NOT BLOCK_VALID_MASK \<noteq> 0 then RaiseValidity b lvl = Inl Assert_failed
   else \<exists>c b'. RaiseValidity b lvl = Inr (c, b') \<and>
      c = (nStatus b AND BLOCK_FAILED_MASK = 0 \<and> nStatus b AND BLOCK_VALID_MASK < lvl) \<and>
      IsValid b' lvl = Inr (nStatus b AND BLOCK_FAILED_MASK = 0) \<and>
      nStatus b AND BLOCK_VALID_MASK \<le> nStatus b' AND BLOCK_VALID_MASK \<and>
      nStatus b' AND kept_bits = nStatus b AND kept_bits \<and>
      IsAssumedValid b' = (IsAssumedValid b \<and> \<not> (c \<and> BLOCK_VALID_SCRIPTS \<le> lvl))"
proof (cases "lvl AND NOT BLOCK_VALID_MASK = 0")
  case False
  thus ?thesis by (simp add: RaiseValidity_def)
next
  case True
  show ?thesis
  proof (cases "nStatus b AND BLOCK_FAILED_MASK = 0 \<and> nStatus b AND BLOCK_VALID_MASK < lvl")
    case raise: True
    define st1 where "st1 = (if nStatus b AND BLOCK_ASSUMED_VALID \<noteq> 0 \<and> BLOCK_VALID_SCRIPTS \<le> lvl
       then nStatus b AND NOT BLOCK_ASSUMED_VALID else nStatus b)"
    define st2 where "st2 = (st1 AND NOT BLOCK_VALID_MASK) OR lvl"
    have R: "RaiseValidity b lvl = Inr (True, b\<lparr>nStatus := st2\<rparr>)"
      using True raise by (simp add: RaiseValidity_def st2_def st1_def)
    have V: "st2 AND BLOCK_VALID_MASK = lvl"
      unfolding st2_def by (rule replace_field_read [OF True])
    have K: "st2 AND m = nStatus b AND m"
      if "m AND BLOCK_VALID_MASK = 0" "m AND BLOCK_ASSUMED_VALID = 0" for m
      using replace_field_other [OF True that(1), of st1] that(2)
      by (auto simp: st2_def st1_def and_not_disjoint)
    have A: "st2 AND BLOCK_ASSUMED_VALID = st1 AND BLOCK_ASSUMED_VALID"
      unfolding st2_def by (rule replace_field_other [OF True]) (simp add: BlockStatus_defs)
    have F: "st2 AND BLOCK_FAILED_MASK = 0" "st2 AND kept_bits = nStatus b AND kept_bits"
      using K [of BLOCK_FAILED_MASK] K [of kept_bits] raise
      by (simp_all add: BlockStatus_defs kept_bits_def)
    have "IsAssumedValid (b\<lparr>nStatus := st2\<rparr>) = (IsAssumedValid b \<and> \<not> BLOCK_VALID_SCRIPTS \<le> lvl)"
      using A by (auto simp: IsAssumedValid_def st1_def BlockStatus_defs and.assoc)
    moreover have "IsValid (b\<lparr>nStatus := st2\<rparr>) lvl = Inr True"
      using True V F(1) by (simp add: IsValid_def)
    ultimately show ?thesis using True raise R V F(2)
      by (simp cong: conj_cong add: less_imp_le) blast
  next
    case False
    hence "RaiseValidity b lvl = Inr (False, b)"
      using True by (auto simp: RaiseValidity_def)
    moreover have "IsValid b lvl = Inr (nStatus b AND BLOCK_FAILED_MASK = 0)"
      using True False by (simp add: IsValid_def not_less)
    ultimately show ?thesis using True False by simp blast
  qed
qed

end
