(* ===== verification/Active_Chain.thy ===== *)
theory Active_Chain
  imports Block_Index
begin

text \<open>
  \<^verbatim>\<open>CChain\<close> of \<^verbatim>\<open>chain.h\<close> and \<^verbatim>\<open>chain.cpp\<close>: the active branch as a vector of entry
  pointers indexed by height, with \<^verbatim>\<open>SetTip\<close>, \<^verbatim>\<open>FindFork\<close>, \<^verbatim>\<open>FindEarliestAtLeast\<close> and the block
  locator, and \<^verbatim>\<open>LastCommonAncestor\<close> of two branches. Loops along \<^verbatim>\<open>pprev\<close> end only because the
  index is a tree; they are partial functions here (\<^term>\<open>None\<close> would be a loop that never ends)
  and the theorems show that they return.
\<close>

section \<open>Operations\<close>

type_synonym CChain = "addr option list"

definition chain_Genesis :: "CChain \<Rightarrow> addr option" where
  "chain_Genesis vChain = (if length vChain > 0 then vChain ! 0 else None)"

definition chain_Tip :: "CChain \<Rightarrow> addr option" where
  "chain_Tip vChain = (if length vChain > 0 then vChain ! (length vChain - 1) else None)"

definition chain_at :: "CChain \<Rightarrow> int \<Rightarrow> addr option" where
  "chain_at vChain h = (if h < 0 \<or> h \<ge> int (length vChain) then None else vChain ! nat h)"

definition Contains :: "block_store \<Rightarrow> CChain \<Rightarrow> addr \<Rightarrow> bool result" where
  "Contains st vChain a = rbind (deref st a) (\<lambda>b. Inr (chain_at vChain (nHeight b) = Some a))"

definition chain_Next :: "block_store \<Rightarrow> CChain \<Rightarrow> addr \<Rightarrow> addr option result" where
  "chain_Next st vChain a =
     rbind (Contains st vChain a) (\<lambda>c.
       if c then rbind (deref st a) (\<lambda>b. Inr (chain_at vChain (nHeight b + 1))) else Inr None)"

definition chain_Height :: "CChain \<Rightarrow> int" where
  "chain_Height vChain = int (length vChain) - 1"

definition vector_resize :: "nat \<Rightarrow> 'a \<Rightarrow> 'a list \<Rightarrow> 'a list" where
  "vector_resize n d xs = take n xs @ replicate (n - length xs) d"

partial_function (option) SetTip_loop ::
  "block_store \<Rightarrow> CChain \<Rightarrow> addr option \<Rightarrow> CChain result option" where
  "SetTip_loop st vChain pindex =
     (case pindex of
        None \<Rightarrow> Some (Inr vChain)
      | Some a \<Rightarrow>
          (case st a of
             None \<Rightarrow> Some (Inl Null_deref)
           | Some b \<Rightarrow>
               if nHeight b < 0 \<or> nHeight b \<ge> int (length vChain) then Some (Inl Out_of_range)
               else if vChain ! nat (nHeight b) = Some a then Some (Inr vChain)
               else SetTip_loop st (vChain[nat (nHeight b) := Some a]) (pprev b)))"

definition SetTip :: "block_store \<Rightarrow> CChain \<Rightarrow> addr \<Rightarrow> CChain result option" where
  "SetTip st vChain a =
     (case st a of
        None \<Rightarrow> Some (Inl Null_deref)
      | Some b \<Rightarrow> SetTip_loop st (vector_resize (nat (nHeight b + 1)) None vChain) (Some a))"

partial_function (option) FindFork_loop ::
  "block_store \<Rightarrow> CChain \<Rightarrow> addr option \<Rightarrow> addr option result option" where
  "FindFork_loop st vChain pindex =
     (case pindex of
        None \<Rightarrow> Some (Inr None)
      | Some a \<Rightarrow>
          (case st a of
             None \<Rightarrow> Some (Inl Null_deref)
           | Some b \<Rightarrow>
               if chain_at vChain (nHeight b) = Some a then Some (Inr (Some a))
               else FindFork_loop st vChain (pprev b)))"

definition FindFork :: "block_store \<Rightarrow> CChain \<Rightarrow> addr option \<Rightarrow> addr option result option" where
  "FindFork st vChain pindex =
     (case pindex of
        None \<Rightarrow> Some (Inr None)
      | Some a \<Rightarrow>
          (case rbind (deref st a) (\<lambda>b.
                  if nHeight b > chain_Height vChain then GetAncestor st a (chain_Height vChain)
                  else Inr (Some a)) of
             Inl e \<Rightarrow> Some (Inl e)
           | Inr p \<Rightarrow> FindFork_loop st vChain p))"

text \<open>
  \<^verbatim>\<open>std::lower_bound\<close> on the range of length \<^verbatim>\<open>n\<close> that starts at \<^verbatim>\<open>first\<close>, by halving.
\<close>

function lower_bound :: "('a \<Rightarrow> bool result) \<Rightarrow> 'a list \<Rightarrow> nat \<Rightarrow> nat \<Rightarrow> nat result" where
  "lower_bound cmp xs first n =
     (if n = 0 then Inr first
      else let half = n div 2; mid = first + half
           in rbind (cmp (xs ! mid)) (\<lambda>c.
                if c then lower_bound cmp xs (mid + 1) (n - half - 1)
                else lower_bound cmp xs first half))"
  by pat_completeness auto
termination
  by (relation "measure (\<lambda>(cmp, xs, first, n). n)") auto

declare lower_bound.simps [simp del]

definition FindEarliestAtLeast ::
  "block_store \<Rightarrow> CChain \<Rightarrow> int \<Rightarrow> int \<Rightarrow> addr option result" where
  "FindEarliestAtLeast st vChain nTimeMin height =
     rbind (lower_bound
              (\<lambda>p. case p of
                      None \<Rightarrow> Inl Null_deref
                    | Some a \<Rightarrow> rbind (deref st a) (\<lambda>b.
                        Inr (GetBlockTimeMax b < nTimeMin \<or> nHeight b < height)))
              vChain 0 (length vChain))
       (\<lambda>lower. Inr (if lower = length vChain then None else vChain ! lower))"

partial_function (option) LocatorEntries_loop ::
  "block_store \<Rightarrow> addr option \<Rightarrow> int \<Rightarrow> uint256 list \<Rightarrow> uint256 list result option" where
  "LocatorEntries_loop st index step_size have_list =
     (case index of
        None \<Rightarrow> Some (Inr have_list)
      | Some a \<Rightarrow>
          (case st a of
             None \<Rightarrow> Some (Inl Null_deref)
           | Some b \<Rightarrow>
               (case GetBlockHash b of
                  Inl e \<Rightarrow> Some (Inl e)
                | Inr h \<Rightarrow>
                    let have' = have_list @ [h] in
                    if nHeight b = 0 then Some (Inr have')
                    else let height = max (nHeight b - step_size) 0 in
                      (case GetAncestor st a height of
                         Inl e \<Rightarrow> Some (Inl e)
                       | Inr index' \<Rightarrow>
                           LocatorEntries_loop st index'
                             (if length have' > 10 then step_size * 2 else step_size) have'))))"

definition LocatorEntries :: "block_store \<Rightarrow> addr option \<Rightarrow> uint256 list result option" where
  "LocatorEntries st index =
     (if index = None then Some (Inr []) else LocatorEntries_loop st index 1 [])"

definition GetLocator :: "block_store \<Rightarrow> CChain \<Rightarrow> uint256 list result option" where
  "GetLocator st vChain = LocatorEntries st (chain_Tip vChain)"

partial_function (option) LastCommonAncestor_loop ::
  "block_store \<Rightarrow> addr option \<Rightarrow> addr option \<Rightarrow> addr option result option" where
  "LastCommonAncestor_loop st pa pb =
     (if pa \<noteq> pb then
        (case (pa, pb) of
           (Some a, Some b) \<Rightarrow>
             (case (st a, st b) of
                (Some ba, Some bb) \<Rightarrow> LastCommonAncestor_loop st (pprev ba) (pprev bb)
              | _ \<Rightarrow> Some (Inl Null_deref))
         | _ \<Rightarrow> Some (Inl Assert_failed))
      else Some (Inr pa))"

definition LastCommonAncestor :: "block_store \<Rightarrow> addr \<Rightarrow> addr \<Rightarrow> addr option result option" where
  "LastCommonAncestor st pa pb =
     (case (st pa, st pb) of
        (Some ba, Some bb) \<Rightarrow>
          (case (if nHeight ba > nHeight bb
                 then rbind (GetAncestor st pa (nHeight bb)) (\<lambda>r. Inr (r, Some pb))
                 else if nHeight bb > nHeight ba
                 then rbind (GetAncestor st pb (nHeight ba)) (\<lambda>r. Inr (Some pa, r))
                 else Inr (Some pa, Some pb)) of
             Inl e \<Rightarrow> Some (Inl e)
           | Inr (qa, qb) \<Rightarrow> LastCommonAncestor_loop st qa qb)
      | _ \<Rightarrow> Some (Inl Null_deref))"


section \<open>The vector of a branch\<close>

definition chain_of :: "block_store \<Rightarrow> addr \<Rightarrow> CChain" where
  "chain_of st a = (case st a of None \<Rightarrow> []
     | Some b \<Rightarrow> map (\<lambda>i. ancestor st a (int i)) [0..<nat (nHeight b + 1)])"

lemma length_chain_of: "st a = Some b \<Longrightarrow> length (chain_of st a) = nat (nHeight b + 1)"
  by (simp add: chain_of_def)

lemma chain_of_nth:
  "st a = Some b \<Longrightarrow> i < nat (nHeight b + 1) \<Longrightarrow> chain_of st a ! i = ancestor st a (int i)"
  by (simp add: chain_of_def del: upt_Suc)

lemma chain_at_chain_of:
  assumes "wf_index st" "st a = Some b"
  shows "chain_at (chain_of st a) h = ancestor st a h"
proof (cases "0 \<le> h \<and> h \<le> nHeight b")
  case True
  thus ?thesis
    using chain_of_nth [of st a b "nat h"] assms
    by (simp add: chain_at_def length_chain_of)
next
  case False
  thus ?thesis using assms by (auto simp: chain_at_def length_chain_of ancestor_def)
qed

lemma chain_Height_chain_of:
  "wf_index st \<Longrightarrow> st a = Some b \<Longrightarrow> chain_Height (chain_of st a) = nHeight b"
  by (auto simp: chain_Height_def length_chain_of dest!: wf_index_linked linked_nonneg)

lemma chain_of_Cons:
  assumes "wf_index st" "st a = Some b"
  shows "chain_Tip (chain_of st a) = Some a" and "chain_of st a \<noteq> []"
proof -
  have "0 \<le> nHeight b" using assms by (auto dest: wf_index_linked linked_nonneg)
  thus "chain_Tip (chain_of st a) = Some a" "chain_of st a \<noteq> []"
    using assms chain_of_nth [of st a b "nat (nHeight b)"]
    by (auto simp: chain_Tip_def length_chain_of nat_add_distrib chain_of_def simp del: upt_Suc)
qed

lemma pprev_of_ancestor:
  assumes "wf_index st" "ancestor st a k = Some p" "st p = Some pb"
  shows "pprev pb = ancestor st a (k - 1)" and "nHeight pb = k" and "0 \<le> k"
proof -
  from ancestor_SomeD [OF assms(1,2)] obtain b b' where
    b: "st a = Some b" "st p = Some b'" "nHeight b' = k" "0 \<le> k" "k \<le> nHeight b" .
  thus k: "nHeight pb = k" "0 \<le> k" using assms(3) by simp_all
  have l: "GetAncestor st a k = Inr (Some p)"
    using GetAncestor_ancestor [OF assms(1) b(1)] assms(2) by simp
  show "pprev pb = ancestor st a (k - 1)"
  proof (cases "0 < k")
    case True
    have "height_of st a = Some (nHeight b)" using b by (simp add: height_of_def)
    from tree.parent_of_lookup [OF assms(1) this l True]
    show ?thesis
      using assms(3) GetAncestor_ancestor [OF assms(1) b(1)] by (simp add: parent_of_def)
  next
    case False
    hence "k = 0" using b by simp
    hence "pprev pb = None"
      using wf_index_linked [OF assms(1,3)] k by (auto elim: linked_cases)
    thus ?thesis using b \<open>k = 0\<close> by (simp add: ancestor_def)
  qed
qed


section \<open>SetTip\<close>

definition coherent :: "block_store \<Rightarrow> CChain \<Rightarrow> int \<Rightarrow> bool" where
  "coherent st c k = (\<forall>i x. int i \<le> k \<longrightarrow> c ! i = Some x \<longrightarrow>
     (\<forall>j \<le> i. c ! j = ancestor st x (int j)))"

lemma SetTip_loop_chain_of:
  assumes "wf_index st" "st t = Some tb" "k \<le> nHeight tb" "-1 \<le> k"
    and "length c = nat (nHeight tb + 1)"
    and "\<And>i. k < int i \<Longrightarrow> i < length c \<Longrightarrow> c ! i = ancestor st t (int i)"
    and "coherent st c k"
  shows "SetTip_loop st c (ancestor st t k) = Some (Inr (chain_of st t))"
  using assms(3-)
proof (induction "nat (k + 1)" arbitrary: k c)
  case 0
  hence k: "k = -1" by simp
  have "c = chain_of st t"
    using 0 k assms(2) by (intro nth_equalityI) (simp_all add: length_chain_of chain_of_nth)
  moreover have "ancestor st t k = None" using k assms(2) by (simp add: ancestor_def)
  ultimately show ?case by (simp add: SetTip_loop.simps)
next
  case (Suc n)
  hence k: "0 \<le> k" by linarith
  obtain p pb where p: "ancestor st t k = Some p" "st p = Some pb" "nHeight pb = k"
    using ancestor_Some [OF assms(1,2) k Suc.prems(1)] by metis
  have len: "nat k < length c" "k < int (length c)" using Suc.prems k by simp_all
  show ?case
  proof (cases "c ! nat k = Some p")
    case True
    have "c ! j = ancestor st t (int j)" if j: "j < length c" for j
    proof (cases "int j \<le> k")
      case jk: True
      hence "c ! j = ancestor st p (int j)"
        using Suc.prems(5) [unfolded coherent_def, rule_format, of "nat k" p j] True k
        by (simp add: le_nat_iff)
      thus ?thesis using ancestor_trans [OF assms(1) p(1) jk] by simp
    qed (use Suc.prems j in simp)
    hence "c = chain_of st t"
      using Suc.prems assms(2) by (intro nth_equalityI) (simp_all add: length_chain_of chain_of_nth)
    thus ?thesis using p True k len by (subst SetTip_loop.simps) simp
  next
    case False
    let ?c = "c[nat k := Some p]"
    have "SetTip_loop st c (ancestor st t k) = SetTip_loop st ?c (pprev pb)"
      using p False k len by (subst SetTip_loop.simps) simp
    also have "pprev pb = ancestor st t (k - 1)"
      by (rule pprev_of_ancestor [OF assms(1) p(1,2)])
    also have "SetTip_loop st ?c \<dots> = Some (Inr (chain_of st t))"
    proof (rule Suc.hyps(1))
      show "?c ! i = ancestor st t (int i)" if "k - 1 < int i" "i < length ?c" for i
        using that Suc.prems(4) p k by (cases "i = nat k") simp_all
      show "coherent st ?c (k - 1)"
        unfolding coherent_def
      proof (intro allI impI)
        fix i x j
        assume i: "int i \<le> k - 1" "?c ! i = Some x" and "j \<le> i"
        hence "i \<noteq> nat k" "j \<noteq> nat k" using k by linarith+
        thus "?c ! j = ancestor st x (int j)"
          using i \<open>j \<le> i\<close> Suc.prems(5) [unfolded coherent_def, rule_format, of i x j] by simp
      qed
    qed (use Suc k in simp_all)
    finally show ?thesis .
  qed
qed

lemma coherent_resize:
  assumes "wf_index st" "c = [] \<or> (\<exists>t0 b0. st t0 = Some b0 \<and> c = chain_of st t0)" "k < int n"
  shows "coherent st (vector_resize n None c) k"
  unfolding coherent_def
proof (intro allI impI)
  fix i x j
  assume i: "int i \<le> k" "vector_resize n None c ! i = Some x" and j: "j \<le> i"
  have ic: "i < length c"
    using i assms(3) by (auto simp: vector_resize_def nth_append split: if_splits)
  with assms(2) obtain ol ob where ol: "st ol = Some ob" "c = chain_of st ol" by auto
  have nth: "vector_resize n None c ! m = ancestor st ol (int m)" if "m \<le> i" for m
    using that ic ol i(1) assms(3) chain_of_nth [of st ol ob m]
    by (simp add: vector_resize_def nth_append length_chain_of)
  have "ancestor st ol (int i) = Some x" using nth [of i] i by simp
  hence "ancestor st x (int j) = ancestor st ol (int j)"
    by (rule ancestor_trans [OF assms(1)]) (use j in simp)
  thus "vector_resize n None c ! j = ancestor st x (int j)" using nth [OF j] by simp
qed

text \<open>
  C12: whatever branch the vector held before (or none), \<^verbatim>\<open>SetTip\<close> returns and leaves exactly the
  branch that ends in the new tip, one entry per height, although it stops rewriting at the first
  entry the two branches share.
\<close>

theorem SetTip_sets_branch:
  assumes "wf_index st" "st t = Some tb"
    and "c = [] \<or> (\<exists>t0 b0. st t0 = Some b0 \<and> c = chain_of st t0)"
  shows "SetTip st c t = Some (Inr (chain_of st t))"
proof -
  have h: "0 \<le> nHeight tb" using assms by (auto dest: wf_index_linked linked_nonneg)
  let ?n = "nat (nHeight tb + 1)"
  let ?c = "vector_resize ?n None c"
  have len: "length ?c = ?n" by (simp add: vector_resize_def)
  have "SetTip st c t = SetTip_loop st ?c (ancestor st t (nHeight tb))"
    using assms h by (simp add: SetTip_def)
  also have "\<dots> = Some (Inr (chain_of st t))"
    by (rule SetTip_loop_chain_of [OF assms(1,2)])
       (use h len coherent_resize [OF assms(1,3)] in auto)
  finally show ?thesis .
qed

theorem SetTip_sets_branch_witness:
  "SetTip (store_of small_index) (chain_of (store_of small_index) 4) 5 =
     Some (Inr [Some 0, Some 1, Some 2, Some 5])"
proof -
  have st: "store_of small_index 5 = Some (small_index ! 5)"
    "store_of small_index 4 = Some (small_index ! 4)"
    by (simp_all add: store_of_def small_index_def)
  have "chain_of (store_of small_index) 5 = [Some 0, Some 1, Some 2, Some 5]" by code_simp
  thus ?thesis using SetTip_sets_branch [OF wf_small_index st(1)] st(2) by metis
qed


section \<open>Forks\<close>

definition common :: "block_store \<Rightarrow> addr \<Rightarrow> addr \<Rightarrow> int \<Rightarrow> bool" where
  "common st a b h = (ancestor st a h \<noteq> None \<and> ancestor st a h = ancestor st b h)"

text \<open>The highest entry two branches share, if they share any.\<close>

definition fork_point :: "block_store \<Rightarrow> addr \<Rightarrow> addr \<Rightarrow> addr option \<Rightarrow> bool" where
  "fork_point st a b r = (case r of
      None \<Rightarrow> \<forall>h. \<not> common st a b h
    | Some x \<Rightarrow> \<exists>h. common st a b h \<and> ancestor st a h = Some x \<and> (\<forall>h' > h. \<not> common st a b h'))"

lemma fork_point_unique:
  assumes "fork_point st a b r" "fork_point st a b r'"
  shows "r = r'"
proof (cases r; cases r')
  fix x y
  assume xy: "r = Some x" "r' = Some y"
  then obtain h h' where h: "common st a b h" "ancestor st a h = Some x" "\<forall>k > h. \<not> common st a b k"
    and h': "common st a b h'" "ancestor st a h' = Some y" "\<forall>k > h'. \<not> common st a b k"
    using assms by (auto simp: fork_point_def)
  hence "h = h'" by (metis linorder_less_linear)
  thus ?thesis using h h' xy by simp
qed (use assms in \<open>auto simp: fork_point_def\<close>)

lemma fork_point_SomeI:
  "common st a b h \<Longrightarrow> ancestor st a h = Some x \<Longrightarrow> (\<And>h'. h < h' \<Longrightarrow> \<not> common st a b h') \<Longrightarrow>
     fork_point st a b (Some x)"
  by (auto simp: fork_point_def)

lemma common_range:
  assumes "wf_index st" "st a = Some ba" "st b = Some bb" "common st a b h"
  shows "0 \<le> h \<and> h \<le> nHeight ba \<and> h \<le> nHeight bb"
  using assms by (auto simp: common_def ancestor_def split: if_splits)

lemma FindFork_loop_fork_point:
  assumes "wf_index st" "st a = Some ba" "st t = Some tb" "k \<le> nHeight ba" "-1 \<le> k"
    and "\<And>h. k < h \<Longrightarrow> \<not> common st a t h"
  shows "\<exists>r. FindFork_loop st (chain_of st t) (ancestor st a k) = Some (Inr r) \<and> fork_point st a t r"
  using assms(4-)
proof (induction "nat (k + 1)" arbitrary: k)
  case 0
  hence k: "k = -1" by simp
  have none: "ancestor st a k = None" using k assms(2) by (simp add: ancestor_def)
  have "\<not> common st a t h" for h
    using 0(4) [of h] common_range [OF assms(1-3), of h] k by force
  thus ?case using none by (subst FindFork_loop.simps) (simp add: fork_point_def)
next
  case (Suc n)
  hence k: "0 \<le> k" by linarith
  obtain p pb where p: "ancestor st a k = Some p" "st p = Some pb" "nHeight pb = k"
    using ancestor_Some [OF assms(1,2) k Suc.prems(1)] by metis
  have at: "chain_at (chain_of st t) k = ancestor st t k"
    by (rule chain_at_chain_of [OF assms(1,3)])
  show ?case
  proof (cases "ancestor st t k = Some p")
    case True
    hence "fork_point st a t (Some p)"
      using p Suc.prems(3) by (intro fork_point_SomeI [of st a t k]) (simp_all add: common_def)
    thus ?thesis using p at True by (subst FindFork_loop.simps) simp
  next
    case False
    have "\<not> common st a t h" if "k - 1 < h" for h
      using that Suc.prems(3) [of h] False p by (cases "h = k") (auto simp: common_def)
    hence "\<exists>r. FindFork_loop st (chain_of st t) (ancestor st a (k - 1)) = Some (Inr r) \<and>
        fork_point st a t r"
      using Suc k by (intro Suc.hyps(1)) simp_all
    thus ?thesis
      using p at False pprev_of_ancestor(1) [OF assms(1) p(1,2)]
      by (subst FindFork_loop.simps) simp
  qed
qed

lemma FindFork_fork_point:
  assumes "wf_index st" "st a = Some ba" "st t = Some tb"
  shows "\<exists>r. FindFork st (chain_of st t) (Some a) = Some (Inr r) \<and> fork_point st a t r"
proof -
  have ba: "0 \<le> nHeight ba" and tb: "0 \<le> nHeight tb"
    using assms by (auto dest: wf_index_linked linked_nonneg)
  let ?k = "min (nHeight ba) (nHeight tb)"
  have "\<not> common st a t h" if "?k < h" for h
    using that common_range [OF assms, of h] by linarith
  hence "\<exists>r. FindFork_loop st (chain_of st t) (ancestor st a ?k) = Some (Inr r) \<and> fork_point st a t r"
    using ba tb by (intro FindFork_loop_fork_point [OF assms]) simp_all
  moreover have "FindFork st (chain_of st t) (Some a) =
      FindFork_loop st (chain_of st t) (ancestor st a ?k)"
    using assms ba ancestor_self [of st a ba] GetAncestor_ancestor [OF assms(1,2), of "nHeight tb"]
    by (simp add: FindFork_def deref_def chain_Height_chain_of min_def)
  ultimately show ?thesis by simp
qed

lemma LastCommonAncestor_loop_fork_point:
  assumes "wf_index st" "st a = Some ba" "st b = Some bb"
    and "k \<le> nHeight ba" "k \<le> nHeight bb" "-1 \<le> k" "\<And>h. k < h \<Longrightarrow> \<not> common st a b h"
  shows "\<exists>r. LastCommonAncestor_loop st (ancestor st a k) (ancestor st b k) = Some (Inr r) \<and>
    fork_point st a b r"
  using assms(4-)
proof (induction "nat (k + 1)" arbitrary: k)
  case 0
  hence k: "k = -1" by simp
  have none: "ancestor st a k = None" "ancestor st b k = None"
    using k assms(2,3) by (simp_all add: ancestor_def)
  have "\<not> common st a b h" for h
    using 0(5) [of h] common_range [OF assms(1-3), of h] k by force
  thus ?case using none by (subst LastCommonAncestor_loop.simps) (simp add: fork_point_def)
next
  case (Suc n)
  hence k: "0 \<le> k" by linarith
  obtain p pb where p: "ancestor st a k = Some p" "st p = Some pb" "nHeight pb = k"
    using ancestor_Some [OF assms(1,2) k Suc.prems(1)] by metis
  obtain q qb where q: "ancestor st b k = Some q" "st q = Some qb" "nHeight qb = k"
    using ancestor_Some [OF assms(1,3) k Suc.prems(2)] by metis
  show ?case
  proof (cases "p = q")
    case True
    hence "fork_point st a b (Some p)"
      using p q Suc.prems(4) by (intro fork_point_SomeI [of st a b k]) (simp_all add: common_def)
    thus ?thesis using p q True by (subst LastCommonAncestor_loop.simps) simp
  next
    case False
    have "\<not> common st a b h" if "k - 1 < h" for h
      using that Suc.prems(4) [of h] False p q by (cases "h = k") (auto simp: common_def)
    hence "\<exists>r. LastCommonAncestor_loop st (ancestor st a (k - 1)) (ancestor st b (k - 1)) = Some (Inr r)
        \<and> fork_point st a b r"
      using Suc k by (intro Suc.hyps(1)) simp_all
    thus ?thesis
      using p q False pprev_of_ancestor(1) [OF assms(1) p(1,2)]
        pprev_of_ancestor(1) [OF assms(1) q(1,2)]
      by (subst LastCommonAncestor_loop.simps) simp
  qed
qed

lemma LastCommonAncestor_fork_point:
  assumes "wf_index st" "st a = Some ba" "st b = Some bb"
  shows "\<exists>r. LastCommonAncestor st a b = Some (Inr r) \<and> fork_point st a b r"
proof -
  have ba: "0 \<le> nHeight ba" and bb: "0 \<le> nHeight bb"
    using assms by (auto dest: wf_index_linked linked_nonneg)
  let ?k = "min (nHeight ba) (nHeight bb)"
  have "\<not> common st a b h" if "?k < h" for h
    using that common_range [OF assms, of h] by linarith
  hence "\<exists>r. LastCommonAncestor_loop st (ancestor st a ?k) (ancestor st b ?k) = Some (Inr r) \<and>
      fork_point st a b r"
    using ba bb by (intro LastCommonAncestor_loop_fork_point [OF assms]) simp_all
  moreover have "nHeight bb = nHeight ba \<Longrightarrow> ancestor st b (nHeight ba) = Some b"
    using ancestor_self [of st b bb] assms(3) bb by simp
  hence "LastCommonAncestor st a b =
      LastCommonAncestor_loop st (ancestor st a ?k) (ancestor st b ?k)"
    using assms ba bb ancestor_self [of st a ba] ancestor_self [of st b bb]
      GetAncestor_ancestor [OF assms(1,2), of "nHeight bb"]
      GetAncestor_ancestor [OF assms(1,3), of "nHeight ba"]
    by (simp add: LastCommonAncestor_def min_def)
  ultimately show ?thesis by simp
qed

text \<open>
  C27: \<^verbatim>\<open>LastCommonAncestor\<close> of two entries and \<^verbatim>\<open>FindFork\<close> of an entry against the active
  branch of the other both return, with the same result: the highest entry that lies on both
  branches (null if they have different roots); no assertion fails on the way.
\<close>

theorem fork_searches_agree:
  assumes "wf_index st" "st a = Some ba" "st t = Some tb"
  shows "\<exists>r. LastCommonAncestor st a t = Some (Inr r) \<and>
    FindFork st (chain_of st t) (Some a) = Some (Inr r) \<and> fork_point st a t r"
proof -
  obtain r where r: "LastCommonAncestor st a t = Some (Inr r)" "fork_point st a t r"
    using LastCommonAncestor_fork_point [OF assms] by blast
  obtain r' where r': "FindFork st (chain_of st t) (Some a) = Some (Inr r')" "fork_point st a t r'"
    using FindFork_fork_point [OF assms] by blast
  show ?thesis using r r' fork_point_unique [OF r(2) r'(2)] by blast
qed

theorem fork_searches_agree_witness:
  "\<exists>r. LastCommonAncestor (store_of small_index) 4 5 = Some (Inr r) \<and>
    FindFork (store_of small_index) (chain_of (store_of small_index) 5) (Some 4) = Some (Inr r) \<and>
    fork_point (store_of small_index) 4 5 r"
proof -
  have st: "store_of small_index 4 = Some (small_index ! 4)"
    "store_of small_index 5 = Some (small_index ! 5)"
    by (simp_all add: store_of_def small_index_def)
  show ?thesis by (rule fork_searches_agree [OF wf_small_index st])
qed


section \<open>Search by time\<close>

lemma lower_bound_partition:
  assumes "\<And>i. i < length xs \<Longrightarrow> cmp (xs ! i) = Inr (i < k)"
    and "first \<le> k" "k \<le> first + n" "first + n \<le> length xs"
  shows "lower_bound cmp xs first n = Inr k"
  using assms
proof (induction cmp xs first n rule: lower_bound.induct)
  case (1 cmp xs first n)
  show ?case
  proof (cases "n = 0")
    case True
    thus ?thesis using 1 by (subst lower_bound.simps) simp
  next
    case False
    let ?half = "n div 2" and ?mid = "first + n div 2"
    have half: "?half < n" using False by simp
    have c: "cmp (xs ! ?mid) = Inr (?mid < k)"
      using 1(3) [of ?mid] 1(6) half by simp
    show ?thesis
    proof (cases "?mid < k")
      case True
      have "lower_bound cmp xs (?mid + 1) (n - ?half - 1) = Inr k"
        using 1(1) [OF False refl refl c True] 1(3-6) True half by simp
      thus ?thesis using False c True by (subst lower_bound.simps) (simp add: Let_def)
    next
      case False': False
      have "lower_bound cmp xs first ?half = Inr k"
        using 1(2) [OF False refl refl c False'] 1(3-6) False' half by simp
      thus ?thesis using False c False' by (subst lower_bound.simps) (simp add: Let_def)
    qed
  qed
qed

definition time_max_monotone :: "block_store \<Rightarrow> bool" where
  "time_max_monotone st = (\<forall>a b p pb. st a = Some b \<longrightarrow> pprev b = Some p \<longrightarrow> st p = Some pb \<longrightarrow>
     nTimeMax pb \<le> nTimeMax b)"

lemma time_max_ancestor:
  assumes "wf_index st" "time_max_monotone st" "ancestor st t j = Some y" "st y = Some yb"
    and "i \<le> j" "ancestor st t i = Some x" "st x = Some xb"
  shows "GetBlockTimeMax xb \<le> GetBlockTimeMax yb"
  using assms(3-)
proof (induction "nat (j - i)" arbitrary: j y yb)
  case 0
  hence "j = i" by simp
  thus ?case using 0 by simp
next
  case (Suc n)
  hence "i < j" by linarith
  have "0 \<le> i" using ancestor_SomeD [OF assms(1) Suc.prems(4)] by blast
  have pp: "pprev yb = ancestor st t (j - 1)"
    by (rule pprev_of_ancestor [OF assms(1) Suc.prems(1,2)])
  obtain tb where tb: "st t = Some tb" "j \<le> nHeight tb"
    using ancestor_SomeD [OF assms(1) Suc.prems(1)] by blast
  have "0 \<le> j - 1" "j - 1 \<le> nHeight tb" using \<open>0 \<le> i\<close> \<open>i < j\<close> tb by simp_all
  then obtain z zb where z: "ancestor st t (j - 1) = Some z" "st z = Some zb"
    using ancestor_Some [OF assms(1) tb(1)] by blast
  have "GetBlockTimeMax xb \<le> GetBlockTimeMax zb"
    using Suc.hyps(2) \<open>i < j\<close> Suc.prems(4,5) by (intro Suc.hyps(1) [OF _ z]) auto
  also have "\<dots> \<le> GetBlockTimeMax yb"
    using assms(2) Suc.prems(2) pp z
    by (simp add: time_max_monotone_def GetBlockTimeMax_def word_le_def)
  finally show ?case .
qed

definition too_early :: "block_store \<Rightarrow> addr \<Rightarrow> int \<Rightarrow> int \<Rightarrow> int \<Rightarrow> bool" where
  "too_early st t nTimeMin height i =
     (case ancestor st t i of None \<Rightarrow> False
      | Some x \<Rightarrow> (case st x of None \<Rightarrow> False
                   | Some b \<Rightarrow> GetBlockTimeMax b < nTimeMin \<or> nHeight b < height))"

lemma too_early_antimono:
  assumes "wf_index st" "time_max_monotone st" "st t = Some tb"
    and "0 \<le> i" "i \<le> j" "j \<le> nHeight tb" "too_early st t T h j"
  shows "too_early st t T h i"
proof -
  obtain x xb where x: "ancestor st t i = Some x" "st x = Some xb" "nHeight xb = i"
    using ancestor_Some [OF assms(1,3,4)] assms(5,6) by (metis order_trans)
  obtain y yb where y: "ancestor st t j = Some y" "st y = Some yb" "nHeight yb = j"
    using ancestor_Some [OF assms(1,3)] assms(4-6) by (metis order_trans)
  show ?thesis
    using time_max_ancestor [OF assms(1,2) y(1,2) assms(5) x(1,2)] x y assms(5,7)
    by (auto simp: too_early_def)
qed

text \<open>
  On an active branch whose running time maximum does not decrease, the binary search of
  \<^verbatim>\<open>FindEarliestAtLeast\<close> returns the lowest entry that has both the requested height and the
  requested time maximum, and null exactly if there is none.
\<close>

theorem FindEarliestAtLeast_earliest:
  assumes "wf_index st" "time_max_monotone st" "st t = Some tb"
  shows "\<exists>r. FindEarliestAtLeast st (chain_of st t) T h = Inr r \<and>
    (case r of
       None \<Rightarrow> \<forall>i. 0 \<le> i \<and> i \<le> nHeight tb \<longrightarrow> too_early st t T h i
     | Some x \<Rightarrow> \<exists>i. ancestor st t i = Some x \<and> \<not> too_early st t T h i \<and>
         (\<forall>j. 0 \<le> j \<and> j < i \<longrightarrow> too_early st t T h j))"
proof -
  let ?c = "chain_of st t" and ?Q = "\<lambda>i. too_early st t T h (int i)"
  let ?cmp = "\<lambda>p. case p of None \<Rightarrow> Inl Null_deref
     | Some a \<Rightarrow> rbind (deref st a) (\<lambda>b. Inr (GetBlockTimeMax b < T \<or> nHeight b < h))"
  define k where "k = length (takeWhile ?Q [0..<length ?c])"
  have tb: "0 \<le> nHeight tb" using assms by (auto dest: wf_index_linked linked_nonneg)
  have len: "length ?c = nat (nHeight tb + 1)" by (rule length_chain_of [of st t tb, OF assms(3)])
  have kc: "k \<le> length ?c"
    using length_takeWhile_le [of ?Q "[0..<length ?c]"] by (simp add: k_def)
  have below: "?Q i" if "i < k" for i
    using that kc set_takeWhileD [of i ?Q "[0..<length ?c]"] nth_mem [of i "takeWhile ?Q [0..<length ?c]"]
      takeWhile_nth [of i ?Q "[0..<length ?c]"] by (simp add: k_def)
  have at: "\<not> ?Q k" if "k < length ?c"
    using nth_length_takeWhile [of ?Q "[0..<length ?c]"] that by (simp add: k_def)
  have cmp: "?cmp (?c ! i) = Inr (i < k)" if "i < length ?c" for i
  proof -
    have i: "int i \<le> nHeight tb" using that len by linarith
    obtain x xb where x: "ancestor st t (int i) = Some x" "st x = Some xb"
      using ancestor_Some [OF assms(1,3) of_nat_0_le_iff i] by blast
    have "?cmp (?c ! i) = Inr (?Q i)"
      using x that len chain_of_nth [of st t tb i] assms(3) by (simp add: too_early_def deref_def)
    moreover have "?Q i = (i < k)"
      using below [of i] at too_early_antimono [OF assms, of "int k" "int i" T h] that i
      by (cases "i < k") auto
    ultimately show ?thesis by simp
  qed
  have "lower_bound ?cmp ?c 0 (length ?c) = Inr k"
    by (rule lower_bound_partition) (use kc cmp in simp_all)
  hence F: "FindEarliestAtLeast st ?c T h = Inr (if k = length ?c then None else ?c ! k)"
    by (simp add: FindEarliestAtLeast_def)
  show ?thesis
  proof (cases "k = length ?c")
    case True
    have "too_early st t T h i" if "0 \<le> i \<and> i \<le> nHeight tb" for i
      using below [of "nat i"] that True len by simp
    thus ?thesis using F True by simp
  next
    case False
    hence kl: "k < length ?c" using kc by simp
    hence k: "int k \<le> nHeight tb" using len by linarith
    obtain x where x: "ancestor st t (int k) = Some x"
      using ancestor_Some [OF assms(1,3) of_nat_0_le_iff k] by blast
    have "too_early st t T h j" if "0 \<le> j \<and> j < int k" for j
      using below [of "nat j"] that by auto
    thus ?thesis
      using F False x at [OF kl] chain_of_nth [of st t tb k] assms(3) kl len by auto
  qed
qed

theorem FindEarliestAtLeast_earliest_witness:
  "time_max_monotone (store_of [entry None None 0 100, entry (Some 0) None 1 200]) \<and>
   FindEarliestAtLeast (store_of [entry None None 0 100, entry (Some 0) None 1 200])
     (chain_of (store_of [entry None None 0 100, entry (Some 0) None 1 200]) 1) 150 0 = Inr (Some 1)"
proof -
  let ?bs = "[entry None None 0 100, entry (Some 0) None 1 200]"
  let ?st = "store_of ?bs"
  have wf: "wf_index ?st" unfolding wf_index_store_of by code_simp
  have mono: "time_max_monotone ?st"
    by (auto simp: time_max_monotone_def store_of_def entry_def less_Suc_eq split: if_splits)
  have t: "?st 1 = Some (entry (Some 0) None 1 200)" by (simp add: store_of_def)
  have e0: "too_early ?st 1 150 0 0" and e1: "\<not> too_early ?st 1 150 0 1" by code_simp+
  from FindEarliestAtLeast_earliest [OF wf mono t, of 150 0] obtain r where
    r: "FindEarliestAtLeast ?st (chain_of ?st 1) 150 0 = Inr r"
      "case r of None \<Rightarrow> \<forall>i. 0 \<le> i \<and> i \<le> nHeight (entry (Some 0) None 1 200) \<longrightarrow> too_early ?st 1 150 0 i
       | Some x \<Rightarrow> \<exists>i. ancestor ?st 1 i = Some x \<and> \<not> too_early ?st 1 150 0 i \<and>
           (\<forall>j. 0 \<le> j \<and> j < i \<longrightarrow> too_early ?st 1 150 0 j)" by blast
  have "r = Some 1"
  proof (cases r)
    case None
    thus ?thesis using r(2) e1 by (auto simp: entry_def)
  next
    case (Some x)
    then obtain i where i: "ancestor ?st 1 i = Some x" "\<not> too_early ?st 1 150 0 i"
      using r(2) by auto
    from i(1) have "0 \<le> i" "i \<le> 1"
      using t by (auto simp: ancestor_def entry_def split: if_splits)
    hence "i = 1" using i(2) e0 by (cases "i = 0") auto
    moreover have "ancestor ?st 1 1 = Some 1" by code_simp
    ultimately show ?thesis using Some i(1) by simp
  qed
  thus ?thesis using r(1) mono by simp
qed


section \<open>Locators\<close>

definition hash_at :: "block_store \<Rightarrow> addr \<Rightarrow> int \<Rightarrow> uint256" where
  "hash_at st a h = the (phashBlock (the (st (the (ancestor st a h)))))"

definition all_hashed :: "block_store \<Rightarrow> bool" where
  "all_hashed st = (\<forall>a b. st a = Some b \<longrightarrow> phashBlock b \<noteq> None)"

text \<open>
  The heights a locator visits: down from the tip to zero, each at most once; \<^verbatim>\<open>n\<close> is the number
  of entries already collected, and the first ten come at distance one.
\<close>

definition locator_heights :: "int \<Rightarrow> int \<Rightarrow> nat \<Rightarrow> int list \<Rightarrow> bool" where
  "locator_heights h step_size n hs =
     (hs \<noteq> [] \<and> hd hs = h \<and> last hs = 0 \<and> sorted_wrt (>) hs \<and> (\<forall>x \<in> set hs. 0 \<le> x \<and> x \<le> h) \<and>
      (\<forall>k. h \<le> step_size * (2 ^ k - 1) \<longrightarrow> length hs \<le> (10 - n) + k + 1))"

lemma locator_heights_0: "locator_heights 0 step_size n [0]"
  by (simp add: locator_heights_def)

lemma locator_heights_Cons:
  assumes "locator_heights h' step' (Suc n) hs" "0 < h" "0 < step_size"
    and "h' = max (h - step_size) 0" "step' = (if Suc n > 10 then step_size * 2 else step_size)"
    and "n \<ge> 10 \<or> step_size = 1"
  shows "locator_heights h step_size n (h # hs)"
proof -
  have h': "0 \<le> h'" "h' < h" using assms by auto
  have le: "x \<le> h'" if "x \<in> set hs" for x
    using assms(1) that by (simp add: locator_heights_def)
  have "length (h # hs) \<le> (10 - n) + k + 1" if k: "h \<le> step_size * (2 ^ k - 1)" for k
  proof (cases "n \<ge> 10")
    case False
    hence s: "step_size = 1" "step' = 1" using assms by auto
    hence "h' \<le> step' * (2 ^ k - 1)" using assms(2,4) k by simp
    hence "length hs \<le> (10 - Suc n) + k + 1" using assms(1) by (simp add: locator_heights_def)
    thus ?thesis using False by simp
  next
    case True
    obtain k' where k': "k = Suc k'" using k assms(2) by (cases k) auto
    have "h - step_size \<le> (step_size * 2) * (2 ^ k' - 1)"
      using k by (simp add: k' algebra_simps)
    moreover have "0 \<le> (step_size * 2) * (2 ^ k' - 1 :: int)" using assms(3) by simp
    ultimately have "h' \<le> step' * (2 ^ k' - 1)" using assms(4,5) True by simp
    hence "length hs \<le> (10 - Suc n) + k' + 1" using assms(1) by (simp add: locator_heights_def)
    thus ?thesis using True k' by simp
  qed
  moreover have "sorted_wrt (>) (h # hs)"
    using assms(1) le h' by (fastforce simp: locator_heights_def)
  moreover have "\<forall>x \<in> set (h # hs). 0 \<le> x \<and> x \<le> h"
    using assms(1) h' by (fastforce simp: locator_heights_def)
  ultimately show ?thesis using assms(1) by (simp add: locator_heights_def)
qed

lemma LocatorEntries_loop_heights:
  assumes "wf_index st" "all_hashed st" "st a = Some b" "0 < step_size"
    and "length acc \<ge> 10 \<or> step_size = 1"
  shows "\<exists>hs. LocatorEntries_loop st (Some a) step_size acc =
       Some (Inr (acc @ map (hash_at st a) hs)) \<and>
     locator_heights (nHeight b) step_size (length acc) hs"
  using assms(3-)
proof (induction "nat (nHeight b)" arbitrary: a b step_size acc rule: less_induct)
  case less
  note b = less.prems(1)
  have h: "0 \<le> nHeight b" using assms(1) b by (auto dest: wf_index_linked linked_nonneg)
  obtain hash where hash: "phashBlock b = Some hash" using assms(2) b by (auto simp: all_hashed_def)
  have at: "hash_at st a (nHeight b) = hash"
    using b h hash ancestor_self [of st a b] by (simp add: hash_at_def)
  show ?case
  proof (cases "nHeight b = 0")
    case True
    thus ?thesis
      using b hash at locator_heights_0 [of step_size "length acc"]
      by (subst LocatorEntries_loop.simps) (auto simp: GetBlockHash_def Let_def intro!: exI [of _ "[0]"])
  next
    case False
    let ?h = "max (nHeight b - step_size) 0"
    let ?step = "if length (acc @ [hash]) > 10 then step_size * 2 else step_size"
    have hh: "0 \<le> ?h" "?h \<le> nHeight b" using less.prems(2) h by auto
    from ancestor_Some [OF assms(1) b hh] obtain c cb where
      c: "ancestor st a ?h = Some c" "st c = Some cb" "nHeight cb = ?h" .
    have P: "nat (nHeight cb) < nat (nHeight b)" using c(3) False h less.prems(2) by auto
    have S: "0 < ?step" using less.prems(2) by simp
    have T: "10 \<le> length (acc @ [hash]) \<or> ?step = 1" using less.prems(3) by auto
    from less.hyps [OF P c(2) S T, unfolded c(3)] obtain hs where
      hs: "LocatorEntries_loop st (Some c) ?step (acc @ [hash]) =
        Some (Inr ((acc @ [hash]) @ map (hash_at st c) hs))"
      "locator_heights ?h ?step (length (acc @ [hash])) hs" by blast
    have L: "locator_heights (nHeight b) step_size (length acc) (nHeight b # hs)"
      by (rule locator_heights_Cons [of ?h ?step]) (use hs(2) False h less.prems in auto)
    have "hash_at st c x = hash_at st a x" if "x \<in> set hs" for x
    proof -
      have "x \<le> ?h" using hs(2) that by (simp add: locator_heights_def)
      thus ?thesis using ancestor_trans [OF assms(1) c(1)] by (simp add: hash_at_def)
    qed
    hence "map (hash_at st c) hs = map (hash_at st a) hs" by simp
    moreover have "LocatorEntries_loop st (Some a) step_size acc =
        LocatorEntries_loop st (Some c) ?step (acc @ [hash])"
      using b hash False c GetAncestor_ancestor [OF assms(1) b, of ?h]
      by (subst LocatorEntries_loop.simps) (simp add: GetBlockHash_def Let_def)
    ultimately show ?thesis using hs(1) L at by (intro exI [of _ "nHeight b # hs"]) simp
  qed
qed

text \<open>
  The locator of an active branch is computed without failure; it lists the hashes of the tip,
  then of ever lower entries of the same branch, down to the genesis block, and a branch of height
  \<^verbatim>\<open>h\<close> gives at most \<^verbatim>\<open>11 + bits(h)\<close> hashes.
\<close>

theorem GetLocator_heights:
  assumes "wf_index st" "all_hashed st" "st t = Some tb"
  shows "\<exists>hs. GetLocator st (chain_of st t) = Some (Inr (map (hash_at st t) hs)) \<and>
    hs \<noteq> [] \<and> hd hs = nHeight tb \<and> last hs = 0 \<and> sorted_wrt (>) hs \<and>
    length hs \<le> 11 + bit_length (nat (nHeight tb))"
proof -
  have h: "0 \<le> nHeight tb" using assms by (auto dest: wf_index_linked linked_nonneg)
  obtain hs where hs: "LocatorEntries_loop st (Some t) 1 [] = Some (Inr (map (hash_at st t) hs))"
    "locator_heights (nHeight tb) 1 0 hs"
    using LocatorEntries_loop_heights [OF assms, of 1 "[]"] by auto
  let ?k = "bit_length (nat (nHeight tb))"
  have "nat (nHeight tb) < 2 ^ ?k" by (rule bit_length_upper)
  hence "nHeight tb < 2 ^ ?k" using h by (simp add: nat_less_iff)
  hence "nHeight tb \<le> 1 * (2 ^ ?k - 1)" by simp
  hence "length hs \<le> (10 - 0) + ?k + 1" using hs(2) unfolding locator_heights_def by blast
  thus ?thesis
    using hs chain_of_Cons(1) [OF assms(1,3)]
    by (auto simp: GetLocator_def LocatorEntries_def locator_heights_def)
qed

theorem GetLocator_heights_witness:
  "\<exists>hs. GetLocator (store_of small_index) (chain_of (store_of small_index) 4) =
      Some (Inr (map (hash_at (store_of small_index) 4) hs)) \<and> hd hs = 4 \<and> last hs = 0"
proof -
  have "all_hashed (store_of small_index)"
    by (auto simp: all_hashed_def store_of_def small_index_def entry_def less_Suc_eq nth_Cons'
        split: if_splits)
  moreover have "store_of small_index 4 = Some (entry (Some 3) (Some 0) 4 350)"
    by (simp add: store_of_def small_index_def)
  ultimately show ?thesis
    using GetLocator_heights [OF wf_small_index] by (fastforce simp: entry_def)
qed

end
