(* ===== verification/Consensus_Params.thy ===== *)
theory Consensus_Params
  imports Arith_Compact
begin

text \<open>
  The consensus parameters of \<^verbatim>\<open>consensus/params.h\<close>: deployments, their heights, and the record of limits.
\<close>

section \<open>Deployments\<close>

datatype BuriedDeployment =
  DEPLOYMENT_HEIGHTINCB | DEPLOYMENT_CLTV | DEPLOYMENT_DERSIG | DEPLOYMENT_CSV | DEPLOYMENT_SEGWIT

datatype DeploymentPos = DEPLOYMENT_TESTDUMMY | DEPLOYMENT_TAPROOT

record BIP9Deployment =
  bit_pos :: nat
  nStartTime :: int
  nTimeout :: int
  min_activation_height :: int

definition NO_TIMEOUT :: int where "NO_TIMEOUT = 2 ^ 63 - 1"
definition ALWAYS_ACTIVE :: int where "ALWAYS_ACTIVE = -1"
definition NEVER_ACTIVE :: int where "NEVER_ACTIVE = -2"

section \<open>Parameters\<close>

record Params =
  hashGenesisBlock :: uint256
  nSubsidyHalvingInterval :: int
  script_flag_exceptions :: "uint256 \<rightharpoonup> u32"
  BIP34Height :: int
  BIP34Hash :: uint256
  BIP65Height :: int
  BIP66Height :: int
  CSVHeight :: int
  SegwitHeight :: int
  MinBIP9WarningHeight :: int
  nRuleChangeActivationThreshold :: u32
  nMinerConfirmationWindow :: u32
  vDeployments :: "DeploymentPos \<Rightarrow> BIP9Deployment"
  powLimit :: uint256
  fPowAllowMinDifficultyBlocks :: bool
  fPowNoRetargeting :: bool
  nPowTargetSpacing :: int
  nPowTargetTimespan :: int
  nMinimumChainWork :: uint256
  defaultAssumeValid :: uint256
  signet_blocks :: bool
  signet_challenge :: bytes

definition DifficultyAdjustmentInterval :: "Params \<Rightarrow> int result" where
  "DifficultyAdjustmentInterval params =
     cpp_div (nPowTargetTimespan params) (nPowTargetSpacing params)"

definition DeploymentHeight :: "Params \<Rightarrow> BuriedDeployment \<Rightarrow> int" where
  "DeploymentHeight params dep =
     (case dep of
        DEPLOYMENT_HEIGHTINCB \<Rightarrow> BIP34Height params
      | DEPLOYMENT_CLTV \<Rightarrow> BIP65Height params
      | DEPLOYMENT_DERSIG \<Rightarrow> BIP66Height params
      | DEPLOYMENT_CSV \<Rightarrow> CSVHeight params
      | DEPLOYMENT_SEGWIT \<Rightarrow> SegwitHeight params)"

text \<open>Parameters with positive times whose retarget interval is at least one block.\<close>

definition wf_params :: "Params \<Rightarrow> bool" where
  "wf_params params =
     (wf_uint256 (powLimit params) \<and> 0 < nPowTargetSpacing params \<and>
      nPowTargetSpacing params \<le> nPowTargetTimespan params)"

lemma wf_params_interval:
  assumes "wf_params params"
  shows "DifficultyAdjustmentInterval params = Inr (nPowTargetTimespan params div nPowTargetSpacing params)"
    and "1 \<le> nPowTargetTimespan params div nPowTargetSpacing params"
proof -
  have p: "0 < nPowTargetSpacing params" "nPowTargetSpacing params \<le> nPowTargetTimespan params"
    using assms by (simp_all add: wf_params_def)
  thus "DifficultyAdjustmentInterval params =
      Inr (nPowTargetTimespan params div nPowTargetSpacing params)"
    by (simp add: DifficultyAdjustmentInterval_def)
  show "1 \<le> nPowTargetTimespan params div nPowTargetSpacing params"
    using p zdiv_mono1 [OF p(2,1)] by simp
qed


text \<open>
  Parameters with the 90 second spacing and the one day retarget timespan that \<^verbatim>\<open>pow.cpp\<close>
  describes; the other fields are arbitrary.
\<close>

definition example_params :: Params where
  "example_params =
     \<lparr>hashGenesisBlock = replicate 32 0, nSubsidyHalvingInterval = 840000,
      script_flag_exceptions = Map.empty, BIP34Height = 1, BIP34Hash = replicate 32 0,
      BIP65Height = 1, BIP66Height = 1, CSVHeight = 1, SegwitHeight = 1,
      MinBIP9WarningHeight = 0, nRuleChangeActivationThreshold = 3, nMinerConfirmationWindow = 4,
      vDeployments = (\<lambda>_. \<lparr>bit_pos = 28, nStartTime = NEVER_ACTIVE, nTimeout = NO_TIMEOUT,
                           min_activation_height = 0\<rparr>),
      powLimit = replicate 28 0xff @ replicate 4 0, fPowAllowMinDifficultyBlocks = False,
      fPowNoRetargeting = False, nPowTargetSpacing = 90, nPowTargetTimespan = 86400,
      nMinimumChainWork = replicate 32 0, defaultAssumeValid = replicate 32 0,
      signet_blocks = False, signet_challenge = []\<rparr>"

lemma wf_example_params: "wf_params example_params"
  by (simp add: wf_params_def example_params_def wf_uint256_def)

end
