(* ===== verification/Block_Work.thy ===== *)
theory Block_Work
  imports Block_Index Consensus_Params
begin

text \<open>
  The work of a block (\<^verbatim>\<open>GetBlockProof\<close>) and the time equivalent of a work difference
  (\<^verbatim>\<open>GetBlockProofEquivalentTime\<close>), both of \<^verbatim>\<open>chain.cpp\<close>.
\<close>

definition GetBlockProof :: "CBlockIndex \<Rightarrow> base_uint result" where
  "GetBlockProof block =
     (let (bnTarget, fNegative, fOverflow) = SetCompact (nBits block) in
      if fNegative \<or> fOverflow \<or> EqualTo bnTarget 0 then Inr (base_uint_u64 0)
      else rbind (op_div (op_not bnTarget) (op_add bnTarget (base_uint_u64 1)))
             (\<lambda>q. Inr (op_add q (base_uint_u64 1))))"

definition GetBlockProofEquivalentTime ::
  "CBlockIndex \<Rightarrow> CBlockIndex \<Rightarrow> CBlockIndex \<Rightarrow> Params \<Rightarrow> int result" where
  "GetBlockProofEquivalentTime to_block from_block tip params =
     (let (r, sign) =
            (if CompareTo (nChainWork to_block) (nChainWork from_block) > 0
             then (op_sub (nChainWork to_block) (nChainWork from_block), 1 :: int)
             else (op_sub (nChainWork from_block) (nChainWork to_block), -1))
      in rbind (GetBlockProof tip) (\<lambda>prf.
         rbind (op_div (op_mul r (base_uint_u64 (word_of_int (nPowTargetSpacing params)))) prf)
           (\<lambda>r. if bits_uint r > 63 then Inr (sign * (2 ^ 63 - 1))
                else Inr (sign * sint (GetLow64 r)))))"

definition block_work :: "u32 \<Rightarrow> nat" where
  "block_work c =
     (if 0 < compact_value (unat c) \<and> compact_value (unat c) < 2 ^ 256 \<and> \<not> bit c 23
      then 2 ^ 256 div (compact_value (unat c) + 1) else 0)"


lemma compact_value_room:
  assumes "compact_value c < 2 ^ 256"
  shows "compact_value c + 1 < 2 ^ 256"
proof (cases "c div 2 ^ 24 \<le> 3")
  case True
  have "compact_value c \<le> c mod 2 ^ 23"
    using True by (simp add: compact_value_def Let_def)
  also have "\<dots> < 2 ^ 23" by simp
  finally show ?thesis by simp
next
  case False
  have "256 dvd compact_value c"
    using False by (auto simp: compact_value_def Let_def intro!: dvd_mult dvd_power)
  then obtain q where q: "compact_value c = 256 * q" by (elim dvdE)
  hence "q < 2 ^ 248" using assms by simp
  thus ?thesis unfolding q by simp
qed

lemma GetBlockProof_value:
  obtains w where "GetBlockProof b = Inr w" "wf_uint w" "le_val w = block_work (nBits b)"
proof -
  obtain t neg ov where S: "SetCompact (nBits b) = (t, neg, ov)" by (metis prod.exhaust)
  let ?v = "compact_value (unat (nBits b))"
  have t: "wf_uint t" "le_val t = ?v mod 2 ^ 256" "neg = (?v \<noteq> 0 \<and> bit (nBits b) 23)" "ov = (2 ^ 256 \<le> ?v)"
    using wf_SetCompact [of "nBits b"] SetCompact_value [of "nBits b"]
      SetCompact_negative [of "nBits b"] SetCompact_overflow [of "nBits b"] S by simp_all
  show ?thesis
  proof (cases "neg \<or> ov \<or> EqualTo t 0")
    case True
    hence "GetBlockProof b = Inr (base_uint_u64 0)" by (simp add: GetBlockProof_def S)
    moreover have "block_work (nBits b) = 0"
      using True t by (auto simp: block_work_def EqualTo_value)
    ultimately show ?thesis using limbs.of_u64 [of 0] that by auto
  next
    case False
    hence v: "?v < 2 ^ 256" "le_val t = ?v" "?v \<noteq> 0" "\<not> bit (nBits b) 23"
      using t by (auto simp: EqualTo_value)
    obtain w where w: "rbind (op_div (op_not t) (op_add t (base_uint_u64 1)))
        (\<lambda>q. Inr (op_add q (base_uint_u64 1))) = Inr w" "wf_uint w" "le_val w = 2 ^ 256 div (?v + 1)"
      using limbs.work_quotient [of t] t(1) v compact_value_room [OF v(1)] by auto
    show ?thesis
      by (rule that [of w]) (use w v False in \<open>simp_all add: GetBlockProof_def S block_work_def\<close>)
  qed
qed

text \<open>
  C28: \<^verbatim>\<open>GetBlockProof\<close> never fails; it is zero for a target that is zero, negative or too large,
  and otherwise exactly \<^verbatim>\<open>2**256 / (target + 1)\<close>, although that numerator does not fit the type.
\<close>

theorem GetBlockProof_exact:
  "\<exists>w. GetBlockProof b = Inr w \<and> wf_uint w \<and>
     le_val w = (if 0 < compact_value (unat (nBits b)) \<and> compact_value (unat (nBits b)) < 2 ^ 256 \<and>
                    \<not> bit (nBits b) 23
                 then 2 ^ 256 div (compact_value (unat (nBits b)) + 1) else 0)"
  using GetBlockProof_value [of b] unfolding block_work_def by metis

lemma sint_small_u64:
  fixes x :: u64
  assumes "unat x < 2 ^ 63"
  shows "sint x = int (unat x)"
proof -
  have u: "uint x = int (unat x)" by simp
  have "uint x < 2 ^ 63"
    unfolding uint_nat using assms by (metis of_nat_less_iff of_nat_numeral of_nat_power)
  hence "signed_take_bit (LENGTH(64) - Suc 0) (uint x) = uint x"
    by (intro signed_take_bit_int_eq_self order_trans [OF _ uint_ge_0]) simp_all
  thus ?thesis unfolding u sint_uint .
qed

text \<open>
  The time equivalent of a work difference is exact up to rounding towards zero and saturates
  at the largest 64-bit value, with the sign of the difference; it throws exactly if the tip has
  no work to measure by.
\<close>

theorem GetBlockProofEquivalentTime_exact:
  assumes "wf_uint (nChainWork to_block)" "wf_uint (nChainWork from_block)"
    and "0 \<le> nPowTargetSpacing params" "nPowTargetSpacing params < 2 ^ 63"
    and "d = (if le_val (nChainWork from_block) < le_val (nChainWork to_block)
              then le_val (nChainWork to_block) - le_val (nChainWork from_block)
              else le_val (nChainWork from_block) - le_val (nChainWork to_block))"
    and "d * nat (nPowTargetSpacing params) < 2 ^ 256"
  shows "GetBlockProofEquivalentTime to_block from_block tip params =
    (if block_work (nBits tip) = 0 then Inl (Thrown ''Division by zero'')
     else Inr ((if le_val (nChainWork from_block) < le_val (nChainWork to_block) then 1 else -1) *
       int (min (2 ^ 63 - 1) (d * nat (nPowTargetSpacing params) div block_work (nBits tip)))))"
proof -
  let ?gt = "le_val (nChainWork from_block) < le_val (nChainWork to_block)"
  let ?sp = "word_of_int (nPowTargetSpacing params) :: u64"
  define r where "r = (if ?gt then op_sub (nChainWork to_block) (nChainWork from_block)
                       else op_sub (nChainWork from_block) (nChainWork to_block))"
  have gt: "0 < CompareTo (nChainWork to_block) (nChainWork from_block) \<longleftrightarrow> ?gt"
    using limbs.compare_simps(1) [OF assms(1,2)] .
  have r: "wf_uint r" "le_val r = d"
    using assms(1,2,5) limbs.sub(1) [OF assms(1,2)] limbs.sub(1) [OF assms(2,1)]
    by (auto simp: r_def le_val_op_sub_le)
  have sp: "unat ?sp = nat (nPowTargetSpacing params)"
    using assms(3,4) by (simp add: unat_eq_nat_uint uint_word_of_int)
  have m: "wf_uint (op_mul r (base_uint_u64 ?sp))"
    "le_val (op_mul r (base_uint_u64 ?sp)) = d * nat (nPowTargetSpacing params)"
    using r assms(6) sp limbs.of_u64 [of ?sp] by (simp_all add: limbs.mul)
  obtain w where w: "GetBlockProof tip = Inr w" "wf_uint w" "le_val w = block_work (nBits tip)"
    using GetBlockProof_value .
  define s where "s = (if ?gt then 1 else - 1 :: int)"
  have E: "GetBlockProofEquivalentTime to_block from_block tip params =
      rbind (op_div (op_mul r (base_uint_u64 ?sp)) w)
        (\<lambda>r. if bits_uint r > 63 then Inr (s * (2 ^ 63 - 1)) else Inr (s * sint (GetLow64 r)))"
  proof (cases ?gt)
    case True
    hence "s = 1" by (simp add: s_def)
    thus ?thesis using True w(1) gt by (simp add: GetBlockProofEquivalentTime_def r_def cong: if_cong)
  next
    case False
    hence "s = - 1" by (simp add: s_def)
    thus ?thesis using False w(1) gt by (simp add: GetBlockProofEquivalentTime_def r_def cong: if_cong)
  qed
  show ?thesis
  proof (cases "block_work (nBits tip) = 0")
    case True
    hence "op_div (op_mul r (base_uint_u64 ?sp)) w = Inl (Thrown ''Division by zero'')"
      using w by (intro limbs.divide_zero) simp
    thus ?thesis using True by (simp add: E)
  next
    case False
    then obtain q where q: "op_div (op_mul r (base_uint_u64 ?sp)) w = Inr q" "wf_uint q"
      "le_val q = d * nat (nPowTargetSpacing params) div block_work (nBits tip)"
      using limbs.divide_value [OF m(1) w(2)] w m by auto
    have "(if bits_uint q > 63 then 2 ^ 63 - 1 else sint (GetLow64 q)) = int (min (2 ^ 63 - 1) (le_val q))"
    proof (cases "le_val q < 2 ^ 63")
      case True
      hence "unat (GetLow64 q) = le_val q" "\<not> bits_uint q > 63"
        using unat_GetLow64 [OF q(2)] bits_uint_le_iff [of q 63] by simp_all
      thus ?thesis using True sint_small_u64 [of "GetLow64 q"] by simp
    next
      case False
      thus ?thesis using bits_uint_le_iff [of q 63] by simp
    qed
    hence "(if bits_uint q > 63 then Inr (s * (2 ^ 63 - 1)) else Inr (s * sint (GetLow64 q)))
        = (Inr (s * int (min (2 ^ 63 - 1) (le_val q))) :: int result)"
      by (simp split: if_splits)
    thus ?thesis using False by (simp only: E q rbind_simps s_def if_False)
  qed
qed

theorem GetBlockProofEquivalentTime_exact_witness:
  "GetBlockProofEquivalentTime
     (CBlockIndex_default\<lparr>nChainWork := base_uint_u64 (2 ^ 40)\<rparr>) CBlockIndex_default
     (CBlockIndex_default\<lparr>nBits := 0x1d00ffff\<rparr>) example_params = Inr 23039"
proof -
  let ?to = "CBlockIndex_default\<lparr>nChainWork := base_uint_u64 (2 ^ 40)\<rparr>"
  let ?tip = "CBlockIndex_default\<lparr>nBits := 0x1d00ffff\<rparr>"
  have "compact_value (unat (0x1d00ffff :: u32)) = 0xffff * 256 ^ 26"
    by (simp add: compact_value_def Let_def)
  hence w: "block_work (nBits ?tip) = 4295032833"
    by (simp add: block_work_def)
  have to1: "wf_uint (nChainWork ?to)" "le_val (nChainWork ?to) = 2 ^ 40"
    using limbs.of_u64 [of "2 ^ 40"] by simp_all
  have fr: "wf_uint (nChainWork CBlockIndex_default)" "le_val (nChainWork CBlockIndex_default) = 0"
    by (simp_all add: CBlockIndex_default_def base_uint_zero_def wf_uint_def le_val_replicate_0)
  have "nPowTargetSpacing example_params = 90" by (simp add: example_params_def)
  with GetBlockProofEquivalentTime_exact [OF to1(1) fr(1), of example_params "2 ^ 40" ?tip]
  show ?thesis unfolding w to1(2) fr(2) by simp
qed

end
