(* ===== verification/RandomX.thy ===== *)
theory RandomX
  imports Arith_Uint256 "HOL-Library.AList"
begin

text \<open>
  The singleton of \<^verbatim>\<open>crypto/randomx_wrapper.cpp\<close> that owns the RandomX cache, dataset and virtual
  machine and rebuilds them when the key changes. The RandomX library itself is a parameter: a
  record of its entry points over an abstract library state \<^verbatim>\<open>'w\<close>, of which the theorems assume
  only the documented contract \<^verbatim>\<open>randomx_contract\<close>. Exceptions leave the members as they are at
  the throw, so every operation returns its result together with the state, failed or not.
\<close>

section \<open>The library interface\<close>





section \<open>The wrapper\<close>

definition RANDOMX_KEY_INTERVAL :: int where
  "RANDOMX_KEY_INTERVAL = 2048"

definition RANDOMX_GENESIS_KEY :: string where
  "RANDOMX_GENESIS_KEY = ''KPCoin Genesis Block 2026''"

definition bytes_of_string :: "string \<Rightarrow> bytes" where
  "bytes_of_string s = map (\<lambda>c. of_nat (of_char c)) s"






definition GetKeyBlockHeight :: "int \<Rightarrow> int" where
  "GetKeyBlockHeight nHeight =
     (if nHeight < RANDOMX_KEY_INTERVAL then -1
      else let epochStart = nHeight - (nHeight smod RANDOMX_KEY_INTERVAL) in epochStart - 1)"















section \<open>The documented behaviour of the library\<close>











































section \<open>Reachable states\<close>
























section \<open>Epochs\<close>

lemma key_height_bounds:
  assumes "0 \<le> h"
  shows "GetKeyBlockHeight h = 2048 * (h div 2048) - 1" "GetKeyBlockHeight h < h"
    "h \<le> GetKeyBlockHeight h + 2048" "GetKeyBlockHeight h = -1 \<longleftrightarrow> h < 2048"
    "2048 \<le> h \<Longrightarrow> 0 \<le> GetKeyBlockHeight h"
proof -
  show eq: "GetKeyBlockHeight h = 2048 * (h div 2048) - 1"
  proof (cases "h < 2048")
    case True
    thus ?thesis using assms by (simp add: GetKeyBlockHeight_def RANDOMX_KEY_INTERVAL_def)
  next
    case False
    thus ?thesis
      using smod_nonneg [of h 2048] minus_mod_eq_mult_div [of h 2048]
      by (simp add: GetKeyBlockHeight_def RANDOMX_KEY_INTERVAL_def Let_def)
  qed
  have q: "2048 * (h div 2048) \<le> h" "h < 2048 * (h div 2048) + 2048"
    using mult_div_mod_eq [of 2048 h] pos_mod_sign [of 2048 h] pos_mod_bound [of 2048 h] by linarith+
  thus "GetKeyBlockHeight h < h" "h \<le> GetKeyBlockHeight h + 2048"
    "2048 \<le> h \<Longrightarrow> 0 \<le> GetKeyBlockHeight h"
    unfolding eq by linarith+
  show "GetKeyBlockHeight h = -1 \<longleftrightarrow> h < 2048"
  proof
    show "GetKeyBlockHeight h = -1" if "h < 2048"
      using that by (simp add: GetKeyBlockHeight_def RANDOMX_KEY_INTERVAL_def)
  qed (use q eq in linarith)
qed

text \<open>
  C24: the key height is constant over an epoch of 2048 blocks, is the height of the last block
  before the epoch (so always below the block that is hashed, at a distance of at most 2048), and is
  the genesis marker exactly in the first epoch.
\<close>

theorem GetKeyBlockHeight_epoch:
  assumes "0 \<le> h"
  shows "GetKeyBlockHeight h = 2048 * (h div 2048) - 1 \<and> GetKeyBlockHeight h < h \<and>
    h \<le> GetKeyBlockHeight h + 2048 \<and> (GetKeyBlockHeight h = -1 \<longleftrightarrow> h < 2048) \<and>
    (\<forall>h' \<ge> 0. h div 2048 = h' div 2048 \<longleftrightarrow> GetKeyBlockHeight h = GetKeyBlockHeight h')"
  using key_height_bounds [OF assms] by (simp add: key_height_bounds(1))

theorem GetKeyBlockHeight_epoch_witness:
  "GetKeyBlockHeight 5000 = 4095 \<and> (GetKeyBlockHeight 5000 = -1 \<longleftrightarrow> (5000 :: int) < 2048)"
  using GetKeyBlockHeight_epoch [of 5000] by simp

end
