(* ===== verification/Pow.thy ===== *)
theory Pow
  imports Active_Chain Block_Work RandomX
begin

text \<open>
  Proof of work and difficulty (\<^verbatim>\<open>pow.cpp\<close>): the retarget rule, the check of a hash against a
  compact target, the bound on difficulty changes that header synchronisation relies on, and the
  RandomX variants that choose a key from the chain. The serialisation of a header belongs to
  \<^verbatim>\<open>primitives/block.h\<close> and is a parameter.
\<close>

section \<open>Difficulty\<close>





definition CheckProofOfWork :: "uint256 \<Rightarrow> u32 \<Rightarrow> Params \<Rightarrow> bool" where
  "CheckProofOfWork hash bits params =
     (let (bnTarget, fNegative, fOverflow) = SetCompact bits in
      if fNegative \<or> EqualTo bnTarget 0 \<or> fOverflow \<or>
         CompareTo bnTarget (UintToArith256 (powLimit params)) > 0 then False
      else if CompareTo (UintToArith256 hash) bnTarget > 0 then False
      else True)"



section \<open>RandomX keys and hashes\<close>

definition genesis_key :: bytes where
  "genesis_key = bytes_of_string RANDOMX_GENESIS_KEY"

partial_function (option) key_block_walk ::
  "block_store \<Rightarrow> int \<Rightarrow> addr option \<Rightarrow> addr option result option" where
  "key_block_walk st keyBlockHeight pKeyBlock =
     (case pKeyBlock of
        None \<Rightarrow> Some (Inr None)
      | Some a \<Rightarrow>
          (case st a of
             None \<Rightarrow> Some (Inl Null_deref)
           | Some b \<Rightarrow>
               if nHeight b > keyBlockHeight then key_block_walk st keyBlockHeight (pprev b)
               else Some (Inr (Some a))))"

definition GetRandomXKey :: "block_store \<Rightarrow> addr option \<Rightarrow> (bytes \<times> int) result option" where
  "GetRandomXKey st pindexPrev =
     (case (case pindexPrev of None \<Rightarrow> Inr 0
            | Some a \<Rightarrow> rbind (deref st a) (\<lambda>b. Inr (nHeight b + 1))) of
        Inl e \<Rightarrow> Some (Inl e)
      | Inr nNextHeight \<Rightarrow>
          let keyBlockHeight = GetKeyBlockHeight nNextHeight in
          if keyBlockHeight < 0 then Some (Inr (genesis_key, -1))
          else
            (case key_block_walk st keyBlockHeight pindexPrev of
               None \<Rightarrow> None
             | Some (Inl e) \<Rightarrow> Some (Inl e)
             | Some (Inr None) \<Rightarrow> Some (Inr (genesis_key, -1))
             | Some (Inr (Some k)) \<Rightarrow>
                 Some (rbind (deref st k) (\<lambda>kb.
                   if nHeight kb \<noteq> keyBlockHeight then Inr (genesis_key, -1)
                   else rbind (GetBlockHash kb) (\<lambda>keyBlockHash. Inr (keyBlockHash, keyBlockHeight))))))"




section \<open>The retarget rule\<close>












section \<open>Properties\<close>





text \<open>
  C20: \<^verbatim>\<open>CheckProofOfWork\<close> accepts a hash exactly if the compact target is positive, fits 256 bits
  and is not above the limit, and the hash as a little-endian number does not exceed it.
\<close>

theorem CheckProofOfWork_iff:
  assumes "wf_uint256 hash" "wf_params params"
  shows "CheckProofOfWork hash bits params \<longleftrightarrow>
    \<not> bit bits 23 \<and> 0 < compact_value (unat bits) \<and>
    compact_value (unat bits) \<le> le_val (powLimit params) \<and> le_val hash \<le> compact_value (unat bits)"
proof -
  obtain t neg ov where S: "SetCompact bits = (t, neg, ov)" by (metis prod.exhaust)
  let ?v = "compact_value (unat bits)"
  have t: "wf_uint t" "le_val t = ?v mod 2 ^ 256" "neg = (?v \<noteq> 0 \<and> bit bits 23)" "ov = (2 ^ 256 \<le> ?v)"
    using wf_SetCompact [of bits] SetCompact_value [of bits] SetCompact_negative [of bits]
      SetCompact_overflow [of bits] S by simp_all
  have lim: "wf_uint256 (powLimit params)" using assms(2) by (simp add: wf_params_def)
  have "le_val (powLimit params) < 2 ^ 256"
    using limbs.val_bound [OF wf_UintToArith256 [of "powLimit params"]] le_val_UintToArith256 [OF lim] by simp
  hence fit: "?v < 2 ^ 256" if "?v \<le> le_val (powLimit params)" using that by simp
  have C: "CheckProofOfWork hash bits params \<longleftrightarrow>
      \<not> neg \<and> le_val t \<noteq> 0 \<and> \<not> ov \<and> le_val t \<le> le_val (powLimit params) \<and> le_val hash \<le> le_val t"
    using t(1) by (simp add: CheckProofOfWork_def S EqualTo_value limbs.compare_simps(1)
        le_val_UintToArith256 lim assms(1) not_less)
  show ?thesis
  proof (cases "ov")
    case True
    thus ?thesis using C t(4) fit by auto
  next
    case False
    hence "le_val t = ?v" using t(2,4) by simp
    thus ?thesis using C t(3) False fit by auto
  qed
qed

theorem CheckProofOfWork_iff_witness:
  "CheckProofOfWork (replicate 26 0 @ [0xfe, 0xff, 0, 0, 0, 0]) 0x1d00ffff example_params \<and>
   \<not> CheckProofOfWork (1 # replicate 25 0 @ [0xff, 0xff, 0, 0, 0, 0]) 0x1d00ffff example_params"
proof -
  have v: "compact_value (unat (0x1d00ffff :: u32)) = 0xffff * 256 ^ 26"
    by (simp add: compact_value_def Let_def)
  have r: "replicate (numeral k) x = x # replicate (pred_numeral k) x" for k and x :: u8
    by (simp add: numeral_eq_Suc)
  have l: "le_val (powLimit example_params) = 2 ^ 224 - 1"
    by (simp add: example_params_def r)
  show ?thesis
    using CheckProofOfWork_iff [of "replicate 26 0 @ [0xfe, 0xff, 0, 0, 0, 0]" example_params "0x1d00ffff"]
      CheckProofOfWork_iff [of "1 # replicate 25 0 @ [0xff, 0xff, 0, 0, 0, 0]" example_params "0x1d00ffff"]
      wf_example_params v l
    by (simp add: wf_uint256_def le_val_append le_val_replicate_0)
qed


lemma key_block_walk_ancestor:
  assumes "wf_index st" "st a = Some b" "0 \<le> k" "k \<le> nHeight b"
  shows "key_block_walk st k (Some a) = Some (Inr (ancestor st a k))"
  using assms(2,4)
proof (induction "nat (nHeight b - k)" arbitrary: a b)
  case 0
  hence "nHeight b = k" by simp
  thus ?case using 0 assms(3) ancestor_self [of st a b] by (subst key_block_walk.simps) simp
next
  case (Suc n)
  hence kb: "k < nHeight b" by linarith
  from wf_index_linked [OF assms(1) Suc.prems(1)] show ?case
  proof (cases rule: linked_cases)
    case root
    thus ?thesis using kb assms(3) by simp
  next
    case (child p pb)
    have "key_block_walk st k (Some p) = Some (Inr (ancestor st p k))"
      using child Suc(2) kb by (intro Suc(1) [OF _ child(2)]) simp_all
    thus ?thesis
      using Suc.prems(1) kb child ancestor_pprev [OF assms(1) Suc.prems(1) child(1) kb]
      by (subst key_block_walk.simps) simp
  qed
qed

text \<open>
  C21: for a block on top of any entry, \<^verbatim>\<open>GetRandomXKey\<close> returns the fixed genesis key in the first
  2048 blocks and afterwards the hash of the ancestor at the key height, together with that height;
  the fall-back to the genesis key for a missing key block is never taken in a well-formed index.
\<close>

theorem GetRandomXKey_from_ancestor:
  assumes "wf_index st" "all_hashed st" "st a = Some b"
  shows "if nHeight b + 1 < 2048 then GetRandomXKey st (Some a) = Some (Inr (genesis_key, -1))
    else \<exists>x xb h. ancestor st a (GetKeyBlockHeight (nHeight b + 1)) = Some x \<and> st x = Some xb \<and>
      phashBlock xb = Some h \<and> nHeight xb = 2048 * ((nHeight b + 1) div 2048) - 1 \<and>
      GetRandomXKey st (Some a) = Some (Inr (h, nHeight xb))"
proof -
  have h: "0 \<le> nHeight b" using assms by (auto dest: wf_index_linked linked_nonneg)
  have d: "deref st a = Inr b" using assms(3) by (simp add: deref_def)
  let ?k = "GetKeyBlockHeight (nHeight b + 1)"
  show ?thesis
  proof (cases "nHeight b + 1 < 2048")
    case True
    hence "?k < 0" by (simp add: GetKeyBlockHeight_def RANDOMX_KEY_INTERVAL_def)
    thus ?thesis using True d by (simp add: GetRandomXKey_def)
  next
    case False
    have k: "?k = 2048 * ((nHeight b + 1) div 2048) - 1" "?k \<le> nHeight b" "0 \<le> ?k"
      using key_height_bounds [of "nHeight b + 1"] h False by auto
    from ancestor_Some [OF assms(1,3) k(3,2)] obtain x xb where
      x: "ancestor st a ?k = Some x" "st x = Some xb" "nHeight xb = ?k" .
    obtain hash where hash: "phashBlock xb = Some hash" using assms(2) x by (auto simp: all_hashed_def)
    have "GetRandomXKey st (Some a) = Some (Inr (hash, ?k))"
      using d k x hash key_block_walk_ancestor [OF assms(1,3) k(3,2)]
      by (simp add: GetRandomXKey_def deref_def GetBlockHash_def)
    thus ?thesis using False x hash k(1) by auto
  qed
qed


definition linear_index :: "nat \<Rightarrow> block_store" where
  "linear_index n = (\<lambda>a. if a \<le> n
     then Some (entry (if a = 0 then None else Some (a - 1)) None (int a) 0) else None)"

lemma wf_linear_index: "wf_index (linear_index n)" "all_hashed (linear_index n)"
  by (auto simp: wf_index_def linked_def skip_ok_def linear_index_def entry_def all_hashed_def
      split: if_splits)

theorem GetRandomXKey_from_ancestor_witness:
  "\<exists>h. GetRandomXKey (linear_index 3000) (Some 3000) = Some (Inr (h, 2047))"
proof -
  have b: "linear_index 3000 3000 = Some (entry (Some 2999) None 3000 0)"
    by (simp add: linear_index_def)
  show ?thesis
    using GetRandomXKey_from_ancestor [OF wf_linear_index b] by (auto simp: entry_def)
qed




section \<open>The genesis miner\<close>

text \<open>
  The stand-alone miner of \<^verbatim>\<open>mine_genesis.cpp\<close>; the hash function of the wrapper is an argument.
\<close>

record CBlockHeader_Mine =
  mine_nVersion :: u32
  mine_hashPrevBlock :: bytes
  mine_hashMerkleRoot :: bytes
  mine_nTime :: u32
  mine_nBits :: u32
  mine_nNonce :: u32

definition mine_Serialize :: "CBlockHeader_Mine \<Rightarrow> bytes" where
  "mine_Serialize h =
     WriteLE32 (mine_nVersion h) @ mine_hashPrevBlock h @ mine_hashMerkleRoot h @
     WriteLE32 (mine_nTime h) @ WriteLE32 (mine_nBits h) @ WriteLE32 (mine_nNonce h)"

definition mine_key :: bytes where
  "mine_key = bytes_of_string ''KPCoinGenesisKey''"

definition mine_header :: "bytes \<Rightarrow> CBlockHeader_Mine" where
  "mine_header merkle =
     \<lparr>mine_nVersion = 1, mine_hashPrevBlock = replicate 32 0, mine_hashMerkleRoot = merkle,
      mine_nTime = 1715000000, mine_nBits = 0x217fffff, mine_nNonce = 0\<rparr>"

primrec mine_loop ::
  "(bytes \<Rightarrow> bytes \<Rightarrow> uint256) \<Rightarrow> CBlockHeader_Mine \<Rightarrow> nat \<Rightarrow> u32 \<Rightarrow> (u32 \<times> uint256) option" where
  "mine_loop hash header 0 n = None"
| "mine_loop hash header (Suc left) n =
     (let hashResult = hash mine_key (mine_Serialize (header\<lparr>mine_nNonce := n\<rparr>)) in
      if hashResult ! 31 < 0x80 then Some (n, hashResult)
      else mine_loop hash header left (n + 1))"

definition mine_main :: "(bytes \<Rightarrow> bytes \<Rightarrow> uint256) \<Rightarrow> bytes \<Rightarrow> (u32 \<times> uint256) option" where
  "mine_main hash merkle = mine_loop hash (mine_header merkle) 100 0"

text \<open>
  C22: the difficulty the genesis miner writes into its header can never be met: its compact target
  overflows 256 bits, so \<^verbatim>\<open>CheckProofOfWork\<close> rejects every hash for it, the miner's own included;
  the miner also hashes under a key different from the wrapper's genesis key.
\<close>

theorem mined_genesis_rejected:
  "\<not> CheckProofOfWork hash (mine_nBits (mine_header merkle)) params \<and>
   mine_key \<noteq> genesis_key \<and>
   (mine_main rx merkle = Some (n, h) \<longrightarrow> h = rx mine_key (mine_Serialize ((mine_header merkle)\<lparr>mine_nNonce := n\<rparr>))
      \<and> h ! 31 < 0x80 \<and> \<not> CheckProofOfWork h (mine_nBits (mine_header merkle)) params)"
proof -
  have "2 ^ 256 \<le> compact_value (unat (0x217fffff :: u32))"
    by (simp add: compact_value_def Let_def)
  hence "snd (snd (SetCompact 0x217fffff))" by (simp add: SetCompact_overflow)
  hence rej: "\<not> CheckProofOfWork x 0x217fffff params" for x
    by (auto simp: CheckProofOfWork_def split: prod.splits)
  have loop: "h = rx mine_key (mine_Serialize (hd\<lparr>mine_nNonce := n\<rparr>)) \<and> h ! 31 < 0x80"
    if "mine_loop rx hd k m = Some (n, h)" for hd k m
    using that by (induction k arbitrary: m) (auto simp: Let_def split: if_splits)
  have key: "mine_key \<noteq> genesis_key" by code_simp
  have bits: "mine_nBits (mine_header merkle) = 0x217fffff" by (simp add: mine_header_def)
  show ?thesis
    unfolding mine_main_def bits using key rej loop [of "mine_header merkle" 100 0] by blast
qed


theorem mined_genesis_rejected_witness:
  "mine_main (\<lambda>k i. replicate 32 0) [] = Some (0, replicate 32 0) \<and>
   \<not> CheckProofOfWork (replicate 32 0) 0x217fffff example_params"
proof -
  have "mine_main (\<lambda>k i. replicate 32 0) [] = Some (0, replicate 32 0)" by code_simp
  thus ?thesis
    using mined_genesis_rejected [of "replicate 32 0" "[]" example_params "\<lambda>k i. replicate 32 0" 0]
    by (simp add: mine_header_def)
qed

end
