(* ===== verification/Hash_Stream.thy ===== *)
theory Hash_Stream
  imports Crypto_Common
begin

text \<open>
  The buffering that the hash classes of \<^verbatim>\<open>crypto/\<close> share (\<^verbatim>\<open>CSHA256\<close>, \<^verbatim>\<open>CSHA512\<close>, \<^verbatim>\<open>CSHA1\<close>,
  \<^verbatim>\<open>CRIPEMD160\<close>): input of any length is cut into blocks of \<^verbatim>\<open>B\<close> bytes, an incomplete block waits
  in the buffer, and the byte counter is a 64-bit word that may wrap. The locale at the end states
  once what a sequence of writes followed by the padding computes; every class is an interpretation.
\<close>

section \<open>Buffered writing\<close>

record 's hash_ctx =
  ctx_s :: 's
  ctx_buf :: bytes
  ctx_bytes :: u64

definition memcpy_at :: "'a list \<Rightarrow> nat \<Rightarrow> 'a list \<Rightarrow> 'a list" where
  "memcpy_at dst off src = take off dst @ src @ drop (off + length src) dst"

text \<open>\<^verbatim>\<open>n\<close> consecutive blocks, one transformation each.\<close>

primrec process_blocks :: "nat \<Rightarrow> ('s \<Rightarrow> bytes \<Rightarrow> 's) \<Rightarrow> nat \<Rightarrow> 's \<Rightarrow> bytes \<Rightarrow> 's" where
  "process_blocks B tr 0 s data = s"
| "process_blocks B tr (Suc n) s data = process_blocks B tr n (tr s (take B data)) (drop B data)"

definition hash_write :: "nat \<Rightarrow> ('s \<Rightarrow> bytes \<Rightarrow> 's) \<Rightarrow> 's hash_ctx \<Rightarrow> bytes \<Rightarrow> 's hash_ctx" where
  "hash_write B tr ctx data =
     (let bufsize = unat (ctx_bytes ctx) mod B;
          (ctx, data, bufsize) =
            (if bufsize \<noteq> 0 \<and> bufsize + length data \<ge> B then
               let buf = memcpy_at (ctx_buf ctx) bufsize (take (B - bufsize) data)
               in (ctx\<lparr>ctx_buf := buf, ctx_bytes := ctx_bytes ctx + of_nat (B - bufsize),
                       ctx_s := tr (ctx_s ctx) buf\<rparr>, drop (B - bufsize) data, 0)
             else (ctx, data, bufsize));
          blocks = length data div B;
          ctx = ctx\<lparr>ctx_s := process_blocks B tr blocks (ctx_s ctx) data,
                    ctx_bytes := ctx_bytes ctx + of_nat (B * blocks)\<rparr>;
          data = drop (B * blocks) data
      in if data \<noteq> [] then
           ctx\<lparr>ctx_buf := memcpy_at (ctx_buf ctx) bufsize data,
               ctx_bytes := ctx_bytes ctx + of_nat (length data)\<rparr>
         else ctx)"

section \<open>The message a context stands for\<close>

lemma div_mod_split: "n = B * q + x \<Longrightarrow> x < B \<Longrightarrow> n div B = q \<and> n mod B = (x :: nat)"
  by simp

definition md_fold :: "nat \<Rightarrow> ('s \<Rightarrow> bytes \<Rightarrow> 's) \<Rightarrow> 's \<Rightarrow> bytes \<Rightarrow> 's" where
  "md_fold B tr s m = process_blocks B tr (length m div B) s m"

definition ctx_repr :: "nat \<Rightarrow> ('s \<Rightarrow> bytes \<Rightarrow> 's) \<Rightarrow> 's \<Rightarrow> 's hash_ctx \<Rightarrow> bytes \<Rightarrow> bool" where
  "ctx_repr B tr iv ctx m =
     (length (ctx_buf ctx) = B \<and> ctx_bytes ctx = of_nat (length m) \<and>
      ctx_s ctx = md_fold B tr iv m \<and>
      take (length m mod B) (ctx_buf ctx) = drop (B * (length m div B)) m)"

lemma process_blocks_append:
  "length a = B * k \<Longrightarrow> process_blocks B tr (k + n) s (a @ b) =
     process_blocks B tr n (process_blocks B tr k s a) b"
proof (induction k arbitrary: s a)
  case (Suc k)
  hence "process_blocks B tr (k + n) (tr s (take B a)) (drop B a @ b) =
      process_blocks B tr n (process_blocks B tr k (tr s (take B a)) (drop B a)) b"
    by (intro Suc.IH) simp
  thus ?case using Suc.prems by simp
qed simp

lemma process_blocks_prefix:
  "B * n \<le> length a \<Longrightarrow> process_blocks B tr n s (a @ b) = process_blocks B tr n s a"
  by (induction n arbitrary: s a) auto

lemma process_blocks_take:
  "B * n \<le> k \<Longrightarrow> process_blocks B tr n s (take k a) = process_blocks B tr n s a"
proof (induction n arbitrary: s a k)
  case (Suc n)
  hence "process_blocks B tr n x (take (k - B) (drop B a)) = process_blocks B tr n x (drop B a)" for x
    by simp
  moreover have "min B k = B" using Suc.prems by simp
  ultimately show ?case by (simp add: drop_take)
qed simp

lemma length_memcpy_at:
  "off + length src \<le> length dst \<Longrightarrow> length (memcpy_at dst off src) = length dst"
  by (simp add: memcpy_at_def)

lemma take_memcpy_at:
  "off + length src \<le> length dst \<Longrightarrow> take (off + length src) (memcpy_at dst off src) = take off dst @ src"
  by (simp add: memcpy_at_def)

text \<open>Appending one piece that completes a block, or that stays within one.\<close>

lemma ctx_repr_within:
  assumes "ctx_repr B tr iv ctx m" "length m mod B + length d < B"
  shows "ctx_repr B tr iv (ctx\<lparr>ctx_buf := memcpy_at (ctx_buf ctx) (length m mod B) d,
    ctx_bytes := ctx_bytes ctx + of_nat (length d)\<rparr>) (m @ d)"
proof -
  let ?r = "length m mod B" and ?q = "length m div B"
  have len: "length (ctx_buf ctx) = B" using assms(1) by (simp add: ctx_repr_def)
  have split: "length m = B * ?q + ?r" by simp
  have "length (m @ d) = B * ?q + (?r + length d)" using split by simp
  from div_mod_split [OF this assms(2)]
  have q: "length (m @ d) div B = ?q" "length (m @ d) mod B = ?r + length d" by simp_all
  have "md_fold B tr iv (m @ d) = md_fold B tr iv m"
    unfolding md_fold_def q by (rule process_blocks_prefix) simp
  moreover have "take (?r + length d) (memcpy_at (ctx_buf ctx) ?r d) = drop (B * ?q) (m @ d)"
    using assms len by (subst take_memcpy_at) (simp_all add: ctx_repr_def)
  ultimately show ?thesis
    using assms len unfolding ctx_repr_def q by (simp add: length_memcpy_at)
qed


lemma ctx_repr_blocks:
  assumes "ctx_repr B tr iv ctx m" "length m mod B = 0" "B * n \<le> length d" "0 < B"
  shows "ctx_repr B tr iv (ctx\<lparr>ctx_s := process_blocks B tr n (ctx_s ctx) d,
    ctx_bytes := ctx_bytes ctx + of_nat (B * n)\<rparr>) (m @ take (B * n) d)"
proof -
  obtain q0 where m: "length m = B * q0" using assms(2) by (auto elim: dvdE simp: mod_eq_0_iff_dvd)
  hence q0: "length m div B = q0" using assms(4) by simp
  have l: "length (m @ take (B * n) d) = length m + B * n" using assms(3) by simp
  hence "length (m @ take (B * n) d) = B * (q0 + n) + 0" using m by (simp add: distrib_left)
  from div_mod_split [OF this assms(4)]
  have q: "length (m @ take (B * n) d) div B = q0 + n" "length (m @ take (B * n) d) mod B = 0"
    by simp_all
  have "md_fold B tr iv (m @ take (B * n) d) = process_blocks B tr n (ctx_s ctx) d"
    using assms(1,3) unfolding md_fold_def q
    by (simp add: process_blocks_append [OF m] process_blocks_take ctx_repr_def md_fold_def q0)
  thus ?thesis
    using assms(1,3) m l unfolding ctx_repr_def q by (simp add: distrib_left)
qed

lemma ctx_repr_fill:
  assumes "ctx_repr B tr iv ctx m" "length m mod B + length d = B" "0 < B"
  defines "buf \<equiv> memcpy_at (ctx_buf ctx) (length m mod B) d"
  shows "ctx_repr B tr iv (ctx\<lparr>ctx_buf := buf, ctx_bytes := ctx_bytes ctx + of_nat (length d),
    ctx_s := tr (ctx_s ctx) buf\<rparr>) (m @ d)"
proof -
  let ?q = "length m div B" and ?r = "length m mod B"
  have len: "length (ctx_buf ctx) = B" using assms(1) by (simp add: ctx_repr_def)
  have "length (m @ d) = B * ?q + B"
    using assms(2) mult_div_mod_eq [of B "length m"] unfolding length_append by linarith
  hence ld: "length (m @ d) = B * (?q + 1) + 0" by simp
  hence nil: "drop (B * (?q + 1)) (m @ d) = []" by (intro drop_all) linarith
  from div_mod_split [OF ld assms(3)]
  have q: "length (m @ d) div B = ?q + 1" "length (m @ d) mod B = 0" by simp_all
  have lb: "length buf = B" using assms(2) len by (simp add: buf_def length_memcpy_at)
  hence buf: "buf = drop (B * ?q) m @ d"
    using take_memcpy_at [of ?r d "ctx_buf ctx"] assms(1,2) len
    by (simp add: buf_def ctx_repr_def)
  have split: "m @ d = take (B * ?q) m @ buf" by (simp add: buf)
  have tq: "length (take (B * ?q) m) = B * ?q" by simp
  have "md_fold B tr iv (m @ d) = process_blocks B tr (?q + 1) iv (take (B * ?q) m @ buf)"
    by (simp only: md_fold_def q split [symmetric])
  also have "\<dots> = tr (process_blocks B tr ?q iv (take (B * ?q) m)) buf"
    unfolding process_blocks_append [OF tq] using lb by simp
  also have "process_blocks B tr ?q iv (take (B * ?q) m) = ctx_s ctx"
    using assms(1) by (simp add: process_blocks_take ctx_repr_def md_fold_def)
  finally show ?thesis
    using assms(1) lb unfolding ctx_repr_def q nil by simp
qed

text \<open>The same fold over the list of blocks, as the standards write it.\<close>

definition blocks_of :: "nat \<Rightarrow> bytes \<Rightarrow> bytes list" where
  "blocks_of B m = map (\<lambda>i. take B (drop (B * i) m)) [0..<length m div B]"

lemma process_blocks_foldl:
  "process_blocks B tr n s m = foldl tr s (map (\<lambda>i. take B (drop (B * i) m)) [0..<n])"
proof (induction n arbitrary: s m)
  case (Suc n)
  have "map (\<lambda>i. take B (drop (B * i) m)) [0..<Suc n] =
      take B m # map (\<lambda>i. take B (drop (B * i) (drop B m))) [0..<n]"
    by (simp add: map_upt_Suc add.commute del: upt_Suc)
  thus ?case using Suc.IH by (simp del: upt_Suc)
qed simp

lemma md_fold_blocks: "md_fold B tr s m = foldl tr s (blocks_of B m)"
  by (simp add: md_fold_def blocks_of_def process_blocks_foldl)

lemma blocks_of_single: "length m = B \<Longrightarrow> 0 < B \<Longrightarrow> blocks_of B m = [m]"
  by (simp add: blocks_of_def)

lemma blocks_of_append:
  assumes "length a = B" "0 < B"
  shows "blocks_of B (a @ b) = a # blocks_of B b"
proof -
  have "length (a @ b) div B = Suc (length b div B)" using assms by (simp add: div_add_self1)
  thus ?thesis using assms by (simp add: blocks_of_def map_upt_Suc del: upt_Suc)
qed

text \<open>The zero bytes of the Merkle-Damgard padding with a length field of \<^verbatim>\<open>L\<close> bytes.\<close>

definition pad_zeros :: "nat \<Rightarrow> nat \<Rightarrow> nat \<Rightarrow> nat" where
  "pad_zeros B L n = (2 * B - 1 - L - n mod B) mod B"

lemma pad_zeros_fills:
  assumes "L < B"
  shows "(n + 1 + pad_zeros B L n + L) mod B = 0" and "pad_zeros B L n < B"
proof -
  have "n + 1 + (2 * B - 1 - L - n mod B) + L = B * (n div B) + 2 * B"
    using assms mult_div_mod_eq [of B n] mod_less_divisor [of B n] by linarith
  hence "(n + 1 + (2 * B - 1 - L - n mod B) + L) mod B = 0" by simp
  thus "(n + 1 + pad_zeros B L n + L) mod B = 0"
    unfolding pad_zeros_def by (metis (no_types, opaque_lifting) mod_add_left_eq mod_add_right_eq)
  show "pad_zeros B L n < B" using assms by (simp add: pad_zeros_def)
qed

lemma write_bits_length: "push_bit 3 (of_nat n :: u64) = of_nat (8 * n)"
  by (simp add: push_bit_eq_mult)

section \<open>The streaming contract\<close>

locale md_stream =
  fixes B :: nat and tr :: "'s \<Rightarrow> bytes \<Rightarrow> 's" and iv :: 's
  assumes B_pos: "0 < B" and B_dvd: "B dvd 2 ^ 64"
begin

lemma bufsize:
  assumes "ctx_repr B tr iv ctx m"
  shows "unat (ctx_bytes ctx) mod B = length m mod B"
proof -
  have "unat (ctx_bytes ctx) = length m mod 2 ^ 64"
    using assms by (simp add: ctx_repr_def unat_of_nat)
  thus ?thesis using B_dvd by (simp add: mod_mod_cancel)
qed

lemma write_aligned:
  assumes "ctx_repr B tr iv ctx m" "length m mod B = 0 \<or> length m mod B + length d < B"
  shows "ctx_repr B tr iv
    (let blocks = length d div B;
         ctx = ctx\<lparr>ctx_s := process_blocks B tr blocks (ctx_s ctx) d,
                   ctx_bytes := ctx_bytes ctx + of_nat (B * blocks)\<rparr>;
         d = drop (B * blocks) d
     in if d \<noteq> [] then
          ctx\<lparr>ctx_buf := memcpy_at (ctx_buf ctx) (length m mod B) d,
              ctx_bytes := ctx_bytes ctx + of_nat (length d)\<rparr>
        else ctx) (m @ d)"
proof -
  let ?n = "length d div B"
  let ?ctx = "ctx\<lparr>ctx_s := process_blocks B tr ?n (ctx_s ctx) d, ctx_bytes := ctx_bytes ctx + of_nat (B * ?n)\<rparr>"
  let ?m = "m @ take (B * ?n) d" and ?d = "drop (B * ?n) d"
  have dm: "B * ?n \<le> length d" by simp
  have 1: "ctx_repr B tr iv ?ctx ?m \<and> length ?m mod B = length m mod B"
  proof (cases "length m mod B = 0")
    case True
    have "(length m + B * ?n) mod B = length m mod B" by simp
    thus ?thesis using ctx_repr_blocks [OF assms(1) True dm B_pos] dm by simp
  next
    case False
    hence "?n = 0" using assms(2) by simp
    thus ?thesis using assms(1) by simp
  qed
  have "length m mod B + length ?d < B"
  proof (cases "length m mod B = 0")
    case True
    have "length ?d = length d mod B" by (simp add: minus_mult_div_eq_mod)
    thus ?thesis using True B_pos by simp
  qed (use assms(2) in simp)
  hence w: "length ?m mod B + length ?d < B" using 1 by simp
  have "ctx_repr B tr iv (?ctx\<lparr>ctx_buf := memcpy_at (ctx_buf ?ctx) (length ?m mod B) ?d,
      ctx_bytes := ctx_bytes ?ctx + of_nat (length ?d)\<rparr>) (?m @ ?d)"
    by (rule ctx_repr_within [OF _ w]) (use 1 in simp)
  thus ?thesis using 1 by (auto simp: Let_def)
qed

lemma write_repr:
  assumes "ctx_repr B tr iv ctx m"
  shows "ctx_repr B tr iv (hash_write B tr ctx d) (m @ d)"
proof (cases "length m mod B \<noteq> 0 \<and> length m mod B + length d \<ge> B")
  case False
  hence "length m mod B = 0 \<or> length m mod B + length d < B" by auto
  from write_aligned [OF assms this] show ?thesis
    unfolding hash_write_def bufsize [OF assms] Let_def if_not_P [OF False] prod.case .
next
  case True
  let ?r = "length m mod B"
  let ?d1 = "take (B - ?r) d" and ?d2 = "drop (B - ?r) d"
  have l1: "length ?d1 = B - ?r" using True unfolding length_take by linarith
  have r: "?r < B" using B_pos by simp
  let ?buf = "memcpy_at (ctx_buf ctx) ?r ?d1"
  let ?ctx = "ctx\<lparr>ctx_buf := ?buf, ctx_bytes := ctx_bytes ctx + of_nat (B - ?r),
     ctx_s := tr (ctx_s ctx) ?buf\<rparr>"
  have 1: "ctx_repr B tr iv ?ctx (m @ ?d1)"
    using ctx_repr_fill [OF assms, of ?d1] l1 r B_pos by simp
  have "length (m @ ?d1) = B * (length m div B) + B"
    using l1 r mult_div_mod_eq [of B "length m"] unfolding length_append by linarith
  hence "length (m @ ?d1) = B * (length m div B + 1) + 0" by simp
  from div_mod_split [OF this B_pos] have z: "length (m @ ?d1) mod B = 0" by simp
  from write_aligned [OF 1 disjI1 [OF z], of ?d2, unfolded z] show ?thesis
    unfolding hash_write_def bufsize [OF assms] Let_def if_P [OF True] prod.case
      append_assoc append_take_drop_id .
qed

lemma writes_repr:
  "ctx_repr B tr iv ctx m \<Longrightarrow> ctx_repr B tr iv (fold (\<lambda>d c. hash_write B tr c d) ds ctx) (m @ concat ds)"
proof (induction ds arbitrary: ctx m)
  case (Cons d ds)
  from Cons.IH [OF write_repr [OF Cons.prems, of d]] show ?case by simp
qed simp

lemma init_repr: "length buf = B \<Longrightarrow> ctx_repr B tr iv \<lparr>ctx_s = iv, ctx_buf = buf, ctx_bytes = 0\<rparr> []"
  by (simp add: ctx_repr_def md_fold_def)

lemma after_writes: "length buf = B \<Longrightarrow>
    ctx_repr B tr iv (fold (\<lambda>d c. hash_write B tr c d) ds \<lparr>ctx_s = iv, ctx_buf = buf, ctx_bytes = 0\<rparr>) (concat ds)"
  using writes_repr [OF init_repr, of buf ds] by simp

text \<open>A padding that completes the last block leaves the fold over the whole padded message.\<close>

lemma state_of_writes:
  assumes "ctx_repr B tr iv ctx m"
  shows "ctx_s (hash_write B tr (hash_write B tr ctx d) e) = md_fold B tr iv (m @ d @ e)"
  using write_repr [OF write_repr [OF assms, of d], of e] by (simp add: ctx_repr_def)

lemma finalize_state:
  assumes "ctx_repr B tr iv ctx m" "L < B"
    "z = (2 * B - 1 - L - unat (ctx_bytes ctx) mod B) mod B"
  shows "ctx_s (hash_write B tr (hash_write B tr ctx (take (1 + z) (x # replicate (B - 1) y))) e) =
    foldl tr iv (blocks_of B (m @ x # replicate (pad_zeros B L (length m)) y @ e))"
proof -
  have z: "z = pad_zeros B L (length m)"
    using assms(3) bufsize [OF assms(1)] by (simp add: pad_zeros_def)
  have "pad_zeros B L (length m) \<le> B - 1" using pad_zeros_fills(2) [OF assms(2), of "length m"] by simp
  hence "take (1 + z) (x # replicate (B - 1) y) = x # replicate z y" by (simp add: z min_def)
  thus ?thesis unfolding z by (simp add: state_of_writes [OF assms(1)] md_fold_blocks)
qed

lemma write_buf:
  "ctx_repr B tr iv ctx m \<Longrightarrow> length (ctx_buf (hash_write B tr (hash_write B tr ctx d) e)) = B"
  using write_repr [OF write_repr, of ctx m d e] by (simp add: ctx_repr_def)

end

end
