(* ===== verification/Message_Schedule.thy ===== *)
theory Message_Schedule
  imports Hash_Stream
begin

text \<open>
  The message schedules of the SHA family as the sources compute them: a window of sixteen words in
  which every new word overwrites the oldest one. The locale relates a window to the recurrence of
  the standard, which numbers the words from the start of the block.
\<close>

lemma map2_nth: "length ks = n \<Longrightarrow> map2 f ks (map g [0..<n]) = map (\<lambda>t. f (ks ! t) (g t)) [0..<n]"
  by (intro nth_equalityI) simp_all

lemma map2_append_right:
  "map2 f ks (xs @ ys) = map2 f (take (length xs) ks) xs @ map2 f (drop (length xs) ks) ys"
  by (simp add: zip_append2)

lemma replicate_numeral: "replicate (numeral k) x = x # replicate (pred_numeral k) x"
  by (simp add: numeral_eq_Suc)

lemma upt_0_16: "[0..<16] = [0, 1, 2, 3, 4, 5, 6, 7, 8, 9, 10, 11, 12, 13, 14, 15]"
  by code_simp

text \<open>The words of rounds 16, 17, ...; \<^verbatim>\<open>i\<close> is the position of the oldest word.\<close>

primrec run_schedule :: "('w list \<Rightarrow> nat \<Rightarrow> 'w) \<Rightarrow> nat \<Rightarrow> nat \<Rightarrow> 'w list \<Rightarrow> 'w list" where
  "run_schedule nxt 0 i w = []"
| "run_schedule nxt (Suc n) i w =
     (let x = nxt w i in x # run_schedule nxt n ((i + 1) mod 16) (w[i := x]))"

lemma run_schedule_numeral:
  "run_schedule nxt (numeral k) i w =
     (let x = nxt w i in x # run_schedule nxt (pred_numeral k) ((i + 1) mod 16) (w[i := x]))"
  by (simp add: numeral_eq_Suc [of k])

lemma length_run_schedule [simp]: "length (run_schedule nxt n i w) = n"
  by (induction n arbitrary: i w) (simp_all add: Let_def)

text \<open>Position \<^verbatim>\<open>(t + m) mod 16\<close> of the window holds word \<^verbatim>\<open>t - 16 + m\<close> before round \<^verbatim>\<open>t\<close>.\<close>

definition window :: "(nat \<Rightarrow> 'w) \<Rightarrow> nat \<Rightarrow> 'w list \<Rightarrow> bool" where
  "window W t w = (length w = 16 \<and> (\<forall>m < 16. w ! ((t + m) mod 16) = W (t + m - 16)))"

lemma window_at: "window W t w \<Longrightarrow> m < 16 \<Longrightarrow> w ! ((t + m) mod 16) = W (t + m - 16)"
  unfolding window_def by blast

lemma window_at_0: "window W t w \<Longrightarrow> w ! (t mod 16) = W (t - 16)"
  using window_at [of W t w 0] by simp

lemma window_step:
  assumes "window W t w"
  shows "window W (Suc t) (w[t mod 16 := W t])"
proof -
  have l: "length w = 16" using assms by (simp add: window_def)
  have "w[t mod 16 := W t] ! ((Suc t + m) mod 16) = W (Suc t + m - 16)" if m: "m < 16" for m
  proof (cases "m = 15")
    case True
    hence "(Suc t + m) mod 16 = t mod 16" "Suc t + m - 16 = t" by simp_all
    thus ?thesis using l by simp
  next
    case False
    have "\<not> 16 dvd Suc m" using False m by (auto dest: dvd_imp_le)
    hence n: "(Suc t + m) mod 16 \<noteq> t mod 16"
      using mod_eq_dvd_iff_nat [of t "Suc t + m" 16] by simp
    have "Suc m < 16" using False m by simp
    from window_at [OF assms this] show ?thesis using n by simp
  qed
  thus ?thesis using l by (simp add: window_def)
qed

lemma window_init: "length M = 16 \<Longrightarrow> (\<And>t. t < 16 \<Longrightarrow> W t = M ! t) \<Longrightarrow> window W 16 M"
  by (simp add: window_def)

lemma window_32: "window W 32 (map W [16..<32])"
  unfolding window_def
proof (intro conjI allI impI)
  fix m :: nat
  assume m: "m < 16"
  hence "(32 + m) mod 16 = m" using mod_mult_self2 [of m 16 2] by (simp add: add.commute)
  thus "map W [16..<32] ! ((32 + m) mod 16) = W (32 + m - 16)"
    using m by (simp del: upt_rec_numeral)
qed simp

locale message_schedule =
  fixes nxt :: "'w list \<Rightarrow> nat \<Rightarrow> 'w" and W :: "'w list \<Rightarrow> nat \<Rightarrow> 'w"
  assumes first_words: "t < 16 \<Longrightarrow> W M t = M ! t"
    and next_word: "16 \<le> t \<Longrightarrow> window (W M) t w \<Longrightarrow> nxt w (t mod 16) = W M t"
begin

lemma run_from:
  "window (W M) t w \<Longrightarrow> 16 \<le> t \<Longrightarrow> run_schedule nxt n (t mod 16) w = map (W M) [t..<t + n]"
proof (induction n arbitrary: t w)
  case (Suc n)
  have "run_schedule nxt n (Suc t mod 16) (w[t mod 16 := W M t]) = map (W M) [Suc t..<Suc t + n]"
    using Suc.prems by (intro Suc.IH window_step) simp_all
  thus ?case
    using next_word [OF Suc.prems(2,1)] by (simp add: Let_def mod_simps upt_rec [of t])
qed simp

lemma run:
  assumes "length M = 16"
  shows "run_schedule nxt n 0 M = map (W M) [16..<16 + n]"
  using run_from [of M 16 M n] window_init [OF assms first_words] by simp

lemma all_words:
  assumes "length M = 16"
  shows "M @ run_schedule nxt n 0 M = map (W M) [0..<16 + n]"
proof -
  have "map (W M) [0..<16] = M"
    using assms by (intro nth_equalityI) (simp_all add: first_words)
  moreover have "[0..<16 + n] = [0..<16] @ [16..<16 + n]"
    by (rule upt_add_eq_append) simp
  ultimately show ?thesis
    by (simp add: run [OF assms])
qed

text \<open>Sixteen steps replace the whole window by the words they produce.\<close>

lemma restart:
  assumes "length M = 16"
  shows "run_schedule nxt (16 + n) 0 M =
    run_schedule nxt 16 0 M @ run_schedule nxt n 0 (run_schedule nxt 16 0 M)"
proof -
  have "run_schedule nxt n 0 (map (W M) [16..<32]) = map (W M) [32..<32 + n]"
    using run_from [OF window_32 [of "W M"], of n] by simp
  moreover have "[16..<16 + (16 + n)] = [16..<32] @ [32..<32 + n]"
    using upt_add_eq_append [of 16 32 n] by simp
  ultimately show ?thesis by (simp add: run [OF assms])
qed

end

end
