(* ===== verification/Sha2_Rounds.thy ===== *)
theory Sha2_Rounds
  imports Message_Schedule
begin

text \<open>
  The parts of a SHA-2 compression function that \<^verbatim>\<open>sha256.cpp\<close> and \<^verbatim>\<open>sha512.cpp\<close> write out in the same
  shape for two word sizes: the rounds, whose calls rotate the eight register names instead of moving
  the registers, and the message schedule, which overwrites a window of sixteen words. Both are
  compared with the loop of the standard (FIPS 180-4, 6.2.2 and 6.4.2).
\<close>

section \<open>The unrolled rounds\<close>

type_synonym 'w regs = "'w \<times> 'w \<times> 'w \<times> 'w \<times> 'w \<times> 'w \<times> 'w \<times> 'w"

text \<open>A round writes its fourth and its last register; the new values are the result.\<close>

type_synonym ('w, 'k) round = "'w \<Rightarrow> 'w \<Rightarrow> 'w \<Rightarrow> 'w \<Rightarrow> 'w \<Rightarrow> 'w \<Rightarrow> 'w \<Rightarrow> 'w \<Rightarrow> 'k \<Rightarrow> 'w \<times> 'w"

fun Rounds :: "('w, 'k) round \<Rightarrow> 'w regs \<Rightarrow> 'k list \<Rightarrow> 'w regs" where
  "Rounds R (a, b, c, d, e, f, g, h) (k0 # k1 # k2 # k3 # k4 # k5 # k6 # k7 # ks) =
     (let (d, h) = R a b c d e f g h k0;
          (c, g) = R h a b c d e f g k1;
          (b, f) = R g h a b c d e f k2;
          (a, e) = R f g h a b c d e k3;
          (h, d) = R e f g h a b c d k4;
          (g, c) = R d e f g h a b c k5;
          (f, b) = R c d e f g h a b k6;
          (e, a) = R b c d e f g h a k7
      in Rounds R (a, b, c, d, e, f, g, h) ks)"
| "Rounds R st _ = st"

fun add8 :: "'w::plus regs \<Rightarrow> 'w regs \<Rightarrow> 'w regs" where
  "add8 (a, b, c, d, e, f, g, h) (a', b', c', d', e', f', g', h') =
     (a + a', b + b', c + c', d + d', e + e', f + f', g + g', h + h')"

fun regs_list :: "'w regs \<Rightarrow> 'w list" where
  "regs_list (a, b, c, d, e, f, g, h) = [a, b, c, d, e, f, g, h]"

text \<open>The update \<^verbatim>\<open>w0 += sigma1(w14) + w9 + sigma0(w1)\<close> at position \<^verbatim>\<open>i\<close> of the window.\<close>

definition sha2_next :: "('w::plus \<Rightarrow> 'w) \<Rightarrow> ('w \<Rightarrow> 'w) \<Rightarrow> 'w list \<Rightarrow> nat \<Rightarrow> 'w" where
  "sha2_next s0 s1 w i =
     w ! i + (s1 (w ! ((i + 14) mod 16)) + w ! ((i + 9) mod 16) + s0 (w ! ((i + 1) mod 16)))"

section \<open>The loop of the standard\<close>

fun fips_round :: "('w, 'k) round \<Rightarrow> 'w regs \<Rightarrow> 'k \<Rightarrow> 'w regs" where
  "fips_round R (a, b, c, d, e, f, g, h) k =
     (let (d', h') = R a b c d e f g h k in (h', a, b, c, d', e, f, g))"

fun fips_W :: "('w::plus \<Rightarrow> 'w) \<Rightarrow> ('w \<Rightarrow> 'w) \<Rightarrow> 'w list \<Rightarrow> nat \<Rightarrow> 'w" where
  "fips_W s0 s1 M t =
     (if t < 16 then M ! t
      else s1 (fips_W s0 s1 M (t - 2)) + fips_W s0 s1 M (t - 7) + s0 (fips_W s0 s1 M (t - 15)) +
        fips_W s0 s1 M (t - 16))"

declare fips_W.simps [simp del]

lemma Rounds_fips:
  "8 dvd length ks \<Longrightarrow> Rounds R st ks = foldl (fips_round R) st ks"
proof (induction R st ks rule: Rounds.induct)
  case (1 R a b c d e f g h k0 k1 k2 k3 k4 k5 k6 k7 ks)
  have "length (k0 # k1 # k2 # k3 # k4 # k5 # k6 # k7 # ks) = 8 + length ks" by simp
  hence "8 dvd length ks" using "1.prems" dvd_add_right_iff [of 8 8 "length ks"] by (simp only: dvd_refl)
  with 1 show ?case by (simp add: Let_def split: prod.split)
qed (auto dest!: dvd_imp_le)

interpretation sha2: message_schedule "sha2_next s0 s1" "fips_W s0 s1"
  for s0 s1 :: "'w::ab_semigroup_add \<Rightarrow> 'w"
proof
  fix t and M w :: "'w list"
  assume t: "16 \<le> t" and win: "window (fips_W s0 s1 M) t w"
  let ?W = "fips_W s0 s1 M"
  have "w ! ((t + 14) mod 16) = ?W (t - 2)" "w ! ((t + 9) mod 16) = ?W (t - 7)"
    "w ! ((t + 1) mod 16) = ?W (t - 15)"
    using window_at [OF win, of 14] window_at [OF win, of 9] window_at [OF win, of 1] t
    by (simp_all add: numeral_2_eq_2)
  thus "sha2_next s0 s1 w (t mod 16) = ?W t"
    using t by (subst fips_W.simps) (simp add: sha2_next_def window_at_0 [OF win] mod_simps ac_simps)
qed (simp add: fips_W.simps)

section \<open>The bit functions of the standard\<close>

definition fips_Ch :: "'a::len word \<Rightarrow> 'a word \<Rightarrow> 'a word \<Rightarrow> 'a word" where
  "fips_Ch x y z = (x AND y) XOR (NOT x AND z)"

definition fips_Maj :: "'a::len word \<Rightarrow> 'a word \<Rightarrow> 'a word \<Rightarrow> 'a word" where
  "fips_Maj x y z = (x AND y) XOR (x AND z) XOR (y AND z)"

lemma choose_eq: "z XOR (x AND (y XOR z)) = fips_Ch x y (z :: 'a::len word)"
  by (rule bit_eqI) (auto simp: fips_Ch_def bit_simps)

lemma majority_eq: "(x AND y) OR (z AND (x OR y)) = fips_Maj x y (z :: 'a::len word)"
  by (rule bit_eqI) (auto simp: fips_Maj_def bit_simps)

lemma rotr_eq:
  fixes x :: "'a::len word"
  assumes "0 < n" "n + m = LENGTH('a)"
  shows "drop_bit n x OR push_bit m x = word_rotr n x"
proof (rule bit_word_eqI)
  fix i
  assume i: "i < LENGTH('a)"
  show "bit (drop_bit n x OR push_bit m x) i = bit (word_rotr n x) i"
  proof (cases "i + n < LENGTH('a)")
    case True
    thus ?thesis using assms i by (auto simp: bit_simps add.commute)
  next
    case False
    hence "(i + n) mod LENGTH('a) = i - m" using assms i by (simp add: mod_if) linarith
    moreover have "\<not> bit x (n + i)" using False bit_imp_le_length [of x "n + i"] by linarith
    ultimately show ?thesis using False assms i by (simp add: bit_simps)
  qed
qed

end
