(* ===== verification/Sha256.thy ===== *)
theory Sha256
  imports Sha2_Rounds
begin

text \<open>
  \<^verbatim>\<open>crypto/sha256.cpp\<close>: the compression function, the hasher class \<^verbatim>\<open>CSHA256\<close>, and the double hash of
  64-byte inputs with its specialised and its vectorised forms. The reference is FIPS 180-4.
\<close>

section \<open>The compression function\<close>

definition sha256_Ch :: "u32 \<Rightarrow> u32 \<Rightarrow> u32 \<Rightarrow> u32" where
  "sha256_Ch x y z = z XOR (x AND (y XOR z))"

definition sha256_Maj :: "u32 \<Rightarrow> u32 \<Rightarrow> u32 \<Rightarrow> u32" where
  "sha256_Maj x y z = (x AND y) OR (z AND (x OR y))"

definition sha256_Sigma0 :: "u32 \<Rightarrow> u32" where
  "sha256_Sigma0 x = (drop_bit 2 x OR push_bit 30 x) XOR (drop_bit 13 x OR push_bit 19 x) XOR
     (drop_bit 22 x OR push_bit 10 x)"

definition sha256_Sigma1 :: "u32 \<Rightarrow> u32" where
  "sha256_Sigma1 x = (drop_bit 6 x OR push_bit 26 x) XOR (drop_bit 11 x OR push_bit 21 x) XOR
     (drop_bit 25 x OR push_bit 7 x)"

definition sha256_sigma0 :: "u32 \<Rightarrow> u32" where
  "sha256_sigma0 x = (drop_bit 7 x OR push_bit 25 x) XOR (drop_bit 18 x OR push_bit 14 x) XOR drop_bit 3 x"

definition sha256_sigma1 :: "u32 \<Rightarrow> u32" where
  "sha256_sigma1 x = (drop_bit 17 x OR push_bit 15 x) XOR (drop_bit 19 x OR push_bit 13 x) XOR drop_bit 10 x"

definition sha256_Round :: "(u32, u32) round" where
  "sha256_Round a b c d e f g h k =
     (let t1 = h + sha256_Sigma1 e + sha256_Ch e f g + k;
          t2 = sha256_Sigma0 a + sha256_Maj a b c
      in (d + t1, t1 + t2))"

definition sha256_Initialize :: "u32 regs" where
  "sha256_Initialize =
     (0x6a09e667, 0xbb67ae85, 0x3c6ef372, 0xa54ff53a, 0x510e527f, 0x9b05688c, 0x1f83d9ab, 0x5be0cd19)"

text \<open>The constants of the 64 \<^verbatim>\<open>Round\<close> lines, one row for each pass over the eight registers.\<close>

definition sha256_K :: "u32 list" where
  "sha256_K = concat
     [[0x428a2f98, 0x71374491, 0xb5c0fbcf, 0xe9b5dba5, 0x3956c25b, 0x59f111f1, 0x923f82a4, 0xab1c5ed5],
      [0xd807aa98, 0x12835b01, 0x243185be, 0x550c7dc3, 0x72be5d74, 0x80deb1fe, 0x9bdc06a7, 0xc19bf174],
      [0xe49b69c1, 0xefbe4786, 0x0fc19dc6, 0x240ca1cc, 0x2de92c6f, 0x4a7484aa, 0x5cb0a9dc, 0x76f988da],
      [0x983e5152, 0xa831c66d, 0xb00327c8, 0xbf597fc7, 0xc6e00bf3, 0xd5a79147, 0x06ca6351, 0x14292967],
      [0x27b70a85, 0x2e1b2138, 0x4d2c6dfc, 0x53380d13, 0x650a7354, 0x766a0abb, 0x81c2c92e, 0x92722c85],
      [0xa2bfe8a1, 0xa81a664b, 0xc24b8b70, 0xc76c51a3, 0xd192e819, 0xd6990624, 0xf40e3585, 0x106aa070],
      [0x19a4c116, 0x1e376c08, 0x2748774c, 0x34b0bcb5, 0x391c0cb3, 0x4ed8aa4a, 0x5b9cca4f, 0x682e6ff3],
      [0x748f82ee, 0x78a5636f, 0x84c87814, 0x8cc70208, 0x90befffa, 0xa4506ceb, 0xbef9a3f7, 0xc67178f2]]"

definition read_block :: "bytes \<Rightarrow> u32 list" where
  "read_block chunk = map (\<lambda>i. ReadBE32 (drop (4 * i) chunk)) [0..<16]"

definition sha256_next :: "u32 list \<Rightarrow> nat \<Rightarrow> u32" where
  "sha256_next = sha2_next sha256_sigma0 sha256_sigma1"

definition sha256_words :: "bytes \<Rightarrow> u32 list" where
  "sha256_words chunk = read_block chunk @ run_schedule sha256_next 48 0 (read_block chunk)"

text \<open>One iteration of the loop of \<^verbatim>\<open>Transform\<close>, and the loop.\<close>

definition sha256_Transform1 :: "u32 regs \<Rightarrow> bytes \<Rightarrow> u32 regs" where
  "sha256_Transform1 s chunk = add8 s (Rounds sha256_Round s (map2 (+) sha256_K (sha256_words chunk)))"

definition sha256_Transform :: "u32 regs \<Rightarrow> bytes \<Rightarrow> nat \<Rightarrow> u32 regs" where
  "sha256_Transform s chunk blocks = process_blocks 64 sha256_Transform1 blocks s chunk"

section \<open>The hasher class\<close>

type_synonym CSHA256 = "u32 regs hash_ctx"

text \<open>The constructor leaves \<^verbatim>\<open>buf\<close> uninitialised; its contents are an argument.\<close>

definition CSHA256_new :: "bytes \<Rightarrow> CSHA256" where
  "CSHA256_new buf = \<lparr>ctx_s = sha256_Initialize, ctx_buf = buf, ctx_bytes = 0\<rparr>"

definition CSHA256_Write :: "CSHA256 \<Rightarrow> bytes \<Rightarrow> CSHA256" where
  "CSHA256_Write ctx data = hash_write 64 sha256_Transform1 ctx data"

definition write_regs32 :: "u32 regs \<Rightarrow> bytes" where
  "write_regs32 s = concat (map WriteBE32 (regs_list s))"

definition CSHA256_Finalize :: "CSHA256 \<Rightarrow> bytes \<times> CSHA256" where
  "CSHA256_Finalize ctx =
     (let pad = 0x80 # replicate 63 0;
          sizedesc = WriteBE64 (push_bit 3 (ctx_bytes ctx));
          ctx = CSHA256_Write ctx (take (1 + (119 - unat (ctx_bytes ctx) mod 64) mod 64) pad);
          ctx = CSHA256_Write ctx sizedesc
      in (write_regs32 (ctx_s ctx), ctx))"

definition CSHA256_Reset :: "CSHA256 \<Rightarrow> CSHA256" where
  "CSHA256_Reset ctx = ctx\<lparr>ctx_bytes := 0, ctx_s := sha256_Initialize\<rparr>"

section \<open>Double hashes of 64-byte inputs\<close>

text \<open>\<^verbatim>\<open>TransformD64\<close> in its three parts; the third has the words the padding makes constant folded in.\<close>

definition D64_transform1 :: "bytes \<Rightarrow> u32 regs" where
  "D64_transform1 in_ptr =
     add8 (Rounds sha256_Round sha256_Initialize (map2 (+) sha256_K (sha256_words in_ptr)))
       sha256_Initialize"

definition D64_K2 :: "u32 list" where
  "D64_K2 = concat
     [[0xc28a2f98, 0x71374491, 0xb5c0fbcf, 0xe9b5dba5, 0x3956c25b, 0x59f111f1, 0x923f82a4, 0xab1c5ed5],
      [0xd807aa98, 0x12835b01, 0x243185be, 0x550c7dc3, 0x72be5d74, 0x80deb1fe, 0x9bdc06a7, 0xc19bf374],
      [0x649b69c1, 0xf0fe4786, 0x0fe1edc6, 0x240cf254, 0x4fe9346f, 0x6cc984be, 0x61b9411e, 0x16f988fa],
      [0xf2c65152, 0xa88e5a6d, 0xb019fc65, 0xb9d99ec7, 0x9a1231c3, 0xe70eeaa0, 0xfdb1232b, 0xc7353eb0],
      [0x3069bad5, 0xcb976d5f, 0x5a0f118f, 0xdc1eeefd, 0x0a35b689, 0xde0b7a04, 0x58f4ca9d, 0xe15d5b16],
      [0x007f3e86, 0x37088980, 0xa507ea32, 0x6fab9537, 0x17406110, 0x0d8cd6f1, 0xcdaa3b6d, 0xc0bbbe37],
      [0x83613bda, 0xdb48a363, 0x0b02e931, 0x6fd15ca7, 0x521afaca, 0x31338431, 0x6ed41a95, 0x6d437890],
      [0xc39c91f2, 0x9eccabbd, 0xb5c9a0e6, 0x532fb63c, 0xd2c741c6, 0x07237ea3, 0xa4954b68, 0x4c191d76]]"

definition D64_transform2 :: "u32 regs \<Rightarrow> u32 regs" where
  "D64_transform2 t = add8 t (Rounds sha256_Round t D64_K2)"

definition D64_window :: "u32 regs \<Rightarrow> u32 list" where
  "D64_window w = (case w of (w0, w1, w2, w3, w4, w5, w6, w7) \<Rightarrow>
      let w0 = w0 + sha256_sigma0 w1;
          w1 = w1 + (0xa00000 + sha256_sigma0 w2);
          w2 = w2 + (sha256_sigma1 w0 + sha256_sigma0 w3);
          w3 = w3 + (sha256_sigma1 w1 + sha256_sigma0 w4);
          w4 = w4 + (sha256_sigma1 w2 + sha256_sigma0 w5);
          w5 = w5 + (sha256_sigma1 w3 + sha256_sigma0 w6);
          w6 = w6 + (sha256_sigma1 w4 + 0x100 + sha256_sigma0 w7);
          w7 = w7 + (sha256_sigma1 w5 + w0 + 0x11002000);
          w8 = 0x80000000 + sha256_sigma1 w6 + w1;
          w9 = sha256_sigma1 w7 + w2;
          w10 = sha256_sigma1 w8 + w3;
          w11 = sha256_sigma1 w9 + w4;
          w12 = sha256_sigma1 w10 + w5;
          w13 = sha256_sigma1 w11 + w6;
          w14 = sha256_sigma1 w12 + w7 + 0x400022;
          w15 = 0x100 + sha256_sigma1 w13 + w8 + sha256_sigma0 w0
      in [w0, w1, w2, w3, w4, w5, w6, w7, w8, w9, w10, w11, w12, w13, w14, w15])"

definition D64_transform3 :: "u32 regs \<Rightarrow> u32 regs" where
  "D64_transform3 w =
     (let ks1 = map2 (+) (take 8 sha256_K) (regs_list w) @
            [0x5807aa98, 0x12835b01, 0x243185be, 0x550c7dc3, 0x72be5d74, 0x80deb1fe, 0x9bdc06a7, 0xc19bf274];
          ws = D64_window w;
          ks2 = map2 (+) (drop 16 sha256_K) (ws @ run_schedule sha256_next 32 0 ws)
      in add8 (Rounds sha256_Round sha256_Initialize (ks1 @ ks2)) sha256_Initialize)"

definition sha256_TransformD64 :: "bytes \<Rightarrow> bytes" where
  "sha256_TransformD64 in_ptr =
     write_regs32 (D64_transform3 (D64_transform2 (D64_transform1 in_ptr)))"

definition D64_padding1 :: bytes where
  "D64_padding1 = 0x80 # replicate 61 0 @ [2, 0]"

definition D64_buffer2_tail :: bytes where
  "D64_buffer2_tail = 0x80 # replicate 29 0 @ [1, 0]"

definition TransformD64Wrapper :: "(u32 regs \<Rightarrow> bytes \<Rightarrow> nat \<Rightarrow> u32 regs) \<Rightarrow> bytes \<Rightarrow> bytes" where
  "TransformD64Wrapper tr in_ptr =
     (let s = sha256_Initialize;
          s = tr s in_ptr 1;
          s = tr s D64_padding1 1;
          buffer2 = write_regs32 s @ D64_buffer2_tail;
          s = sha256_Initialize;
          s = tr s buffer2 1
      in write_regs32 s)"

text \<open>
  The function pointers that \<^verbatim>\<open>SHA256AutoDetect\<close> sets; an absent vectorised routine is a null pointer.
\<close>

record d64_impl =
  TransformD64 :: "bytes \<Rightarrow> bytes"
  TransformD64_2way :: "(bytes \<Rightarrow> bytes) option"
  TransformD64_4way :: "(bytes \<Rightarrow> bytes) option"
  TransformD64_8way :: "(bytes \<Rightarrow> bytes) option"

text \<open>
  A loop that consumes \<^verbatim>\<open>n\<close> inputs per call while at least \<^verbatim>\<open>n\<close> remain; the result is the output
  so far, the remaining input and the remaining number of inputs.
\<close>

fun d64_loop :: "nat \<Rightarrow> (bytes \<Rightarrow> bytes) \<Rightarrow> bytes \<Rightarrow> bytes \<Rightarrow> nat \<Rightarrow> bytes \<times> bytes \<times> nat" where
  "d64_loop n f out in_ptr blocks =
     (if 0 < n \<and> n \<le> blocks
      then d64_loop n f (out @ f (take (64 * n) in_ptr)) (drop (64 * n) in_ptr) (blocks - n)
      else (out, in_ptr, blocks))"

declare d64_loop.simps [simp del]

definition d64_opt_loop ::
    "nat \<Rightarrow> (bytes \<Rightarrow> bytes) option \<Rightarrow> bytes \<times> bytes \<times> nat \<Rightarrow> bytes \<times> bytes \<times> nat" where
  "d64_opt_loop n fp st =
     (case fp of None \<Rightarrow> st | Some f \<Rightarrow> (case st of (out, in_ptr, blocks) \<Rightarrow> d64_loop n f out in_ptr blocks))"

definition SHA256D64 :: "d64_impl \<Rightarrow> bytes \<Rightarrow> nat \<Rightarrow> bytes" where
  "SHA256D64 impl in_ptr blocks =
     (let st = ([], in_ptr, blocks);
          st = d64_opt_loop 8 (TransformD64_8way impl) st;
          st = d64_opt_loop 4 (TransformD64_4way impl) st;
          st = d64_opt_loop 2 (TransformD64_2way impl) st;
          (out, _, _) = d64_opt_loop 1 (Some (TransformD64 impl)) st
      in out)"

section \<open>The reference\<close>

definition fips_Sigma0 :: "u32 \<Rightarrow> u32" where
  "fips_Sigma0 x = word_rotr 2 x XOR word_rotr 13 x XOR word_rotr 22 x"

definition fips_Sigma1 :: "u32 \<Rightarrow> u32" where
  "fips_Sigma1 x = word_rotr 6 x XOR word_rotr 11 x XOR word_rotr 25 x"

definition fips_sigma0 :: "u32 \<Rightarrow> u32" where
  "fips_sigma0 x = word_rotr 7 x XOR word_rotr 18 x XOR drop_bit 3 x"

definition fips_sigma1 :: "u32 \<Rightarrow> u32" where
  "fips_sigma1 x = word_rotr 17 x XOR word_rotr 19 x XOR drop_bit 10 x"

definition fips_step :: "(u32, u32) round" where
  "fips_step a b c d e f g h k =
     (let t1 = h + fips_Sigma1 e + fips_Ch e f g + k;
          t2 = fips_Sigma0 a + fips_Maj a b c
      in (d + t1, t1 + t2))"

definition fips_compress :: "u32 regs \<Rightarrow> bytes \<Rightarrow> u32 regs" where
  "fips_compress s block =
     add8 s (foldl (fips_round fips_step) s
       (map (\<lambda>t. sha256_K ! t + fips_W fips_sigma0 fips_sigma1 (read_block block) t) [0..<64]))"

definition fips_pad :: "bytes \<Rightarrow> bytes" where
  "fips_pad m = m @ 0x80 # replicate (pad_zeros 64 8 (length m)) 0 @ WriteBE64 (of_nat (8 * length m))"

definition fips_sha256 :: "bytes \<Rightarrow> bytes" where
  "fips_sha256 m = write_regs32 (foldl fips_compress sha256_Initialize (blocks_of 64 (fips_pad m)))"

section \<open>The compression function is the one of the standard\<close>

lemma sha256_functions_fips:
  "sha256_Ch = fips_Ch" "sha256_Maj = fips_Maj" "sha256_Sigma0 = fips_Sigma0"
  "sha256_Sigma1 = fips_Sigma1" "sha256_sigma0 = fips_sigma0" "sha256_sigma1 = fips_sigma1"
  by (simp_all add: fun_eq_iff sha256_Ch_def sha256_Maj_def sha256_Sigma0_def sha256_Sigma1_def
      sha256_sigma0_def sha256_sigma1_def fips_Sigma0_def fips_Sigma1_def fips_sigma0_def fips_sigma1_def
      choose_eq majority_eq rotr_eq)

lemma sha256_Round_fips: "sha256_Round = fips_step"
  by (simp add: fun_eq_iff sha256_Round_def fips_step_def sha256_functions_fips)

lemma length_sha256_K [simp]: "length sha256_K = 64"
  by (simp add: sha256_K_def)

lemma length_read_block [simp]: "length (read_block chunk) = 16"
  by (simp add: read_block_def)

lemma length_sha256_words [simp]: "length (sha256_words chunk) = 64"
  by (simp add: sha256_words_def)

lemma sha256_words_fips:
  "sha256_words chunk = map (fips_W fips_sigma0 fips_sigma1 (read_block chunk)) [0..<64]"
  using sha2.all_words [of "read_block chunk" fips_sigma0 fips_sigma1 48]
  by (simp add: sha256_words_def sha256_next_def sha256_functions_fips)

lemma sha256_Transform1_fips: "sha256_Transform1 = fips_compress"
  by (simp add: fun_eq_iff sha256_Transform1_def fips_compress_def Rounds_fips sha256_words_fips
      map2_nth sha256_Round_fips)

section \<open>Streaming\<close>

interpretation csha256: md_stream 64 sha256_Transform1 sha256_Initialize
  by unfold_locales simp_all

lemma CSHA256_Finalize_repr:
  assumes "ctx_repr 64 sha256_Transform1 sha256_Initialize ctx m"
  shows "fst (CSHA256_Finalize ctx) = fips_sha256 m"
proof -
  have b: "ctx_bytes ctx = of_nat (length m)" using assms by (simp add: ctx_repr_def)
  show ?thesis
    using csha256.finalize_state [OF assms, of 8]
    by (simp add: CSHA256_Finalize_def CSHA256_Write_def Let_def fips_sha256_def fips_pad_def
        sha256_Transform1_fips b write_bits_length)
qed

lemma CSHA256_writes_repr:
  assumes "length buf = 64"
  shows "ctx_repr 64 sha256_Transform1 sha256_Initialize
    (fold (\<lambda>d c. CSHA256_Write c d) ds (CSHA256_new buf)) (concat ds)"
  using csha256.after_writes [OF assms, of ds] by (simp add: CSHA256_Write_def CSHA256_new_def)

lemma CSHA256_hash:
  "length buf = 64 \<Longrightarrow>
    fst (CSHA256_Finalize (fold (\<lambda>d c. CSHA256_Write c d) ds (CSHA256_new buf))) = fips_sha256 (concat ds)"
  by (rule CSHA256_Finalize_repr [OF CSHA256_writes_repr])

lemma CSHA256_Reset_new: "CSHA256_Reset ctx = CSHA256_new (ctx_buf ctx)"
  by (simp add: CSHA256_Reset_def CSHA256_new_def)

lemma CSHA256_Finalize_buf:
  assumes "ctx_repr 64 sha256_Transform1 sha256_Initialize ctx m"
  shows "length (ctx_buf (snd (CSHA256_Finalize ctx))) = 64"
  by (simp add: CSHA256_Finalize_def CSHA256_Write_def Let_def csha256.write_buf [OF assms])

section \<open>The specialised double hash\<close>

lemma add8_commute: "add8 a b = add8 b (a :: 'w::ab_semigroup_add regs)"
  by (induction a b rule: add8.induct) (simp add: add.commute)

lemma D64_transform1_eq: "D64_transform1 x = sha256_Transform1 sha256_Initialize x"
  by (simp add: D64_transform1_def sha256_Transform1_def add8_commute)

lemma ReadBE32_4:
  "ReadBE32 (a # b # c # d # r) = of_nat (unat d + 256 * (unat c + 256 * (unat b + 256 * unat a)))"
  by (simp add: ReadBE32_def)

lemma read_block_padding1:
  "read_block D64_padding1 = [0x80000000, 0, 0, 0, 0, 0, 0, 0, 0, 0, 0, 0, 0, 0, 0, 0x200]"
  by (simp add: read_block_def D64_padding1_def replicate_numeral ReadBE32_4 upt_0_16)

lemma D64_K2_eq: "map2 (+) sha256_K (sha256_words D64_padding1) = D64_K2"
  unfolding sha256_words_def read_block_padding1 sha256_K_def D64_K2_def by code_simp

lemma D64_transform2_eq: "D64_transform2 t = sha256_Transform1 t D64_padding1"
  by (simp add: D64_transform2_def sha256_Transform1_def D64_K2_eq)

lemma length_write_regs32 [simp]: "length (write_regs32 s) = 32"
  by (cases s rule: regs_list.cases) (simp add: write_regs32_def)

lemma read_block_buffer2:
  "read_block (write_regs32 w @ D64_buffer2_tail) = regs_list w @ [0x80000000, 0, 0, 0, 0, 0, 0, 0x100]"
proof -
  obtain a b c d e f g h where "w = (a, b, c, d, e, f, g, h)" by (cases w rule: regs_list.cases)
  thus ?thesis
    by (simp add: read_block_def write_regs32_def D64_buffer2_tail_def replicate_numeral ReadBE32_4 upt_0_16)
qed

lemma sigma_constants:
  "sha256_sigma0 0 = 0" "sha256_sigma1 0 = 0" "sha256_sigma0 0x80000000 = 0x11002000"
  "sha256_sigma1 0x100 = 0xa00000" "sha256_sigma0 0x100 = 0x400022"
  by code_simp+

lemma D64_window_eq:
  "run_schedule sha256_next 16 0 (regs_list w @ [0x80000000, 0, 0, 0, 0, 0, 0, 0x100]) = D64_window w"
proof -
  obtain a b c d e f g h where "w = (a, b, c, d, e, f, g, h)" by (cases w rule: regs_list.cases)
  thus ?thesis
    by (simp add: D64_window_def run_schedule_numeral sha256_next_def sha2_next_def sigma_constants Let_def add.assoc)
qed

lemma D64_first_keys:
  "map2 (+) (take 16 sha256_K) (regs_list w @ [0x80000000, 0, 0, 0, 0, 0, 0, 0x100]) =
   map2 (+) (take 8 sha256_K) (regs_list w) @
     [0x5807aa98, 0x12835b01, 0x243185be, 0x550c7dc3, 0x72be5d74, 0x80deb1fe, 0x9bdc06a7, 0xc19bf274]"
proof -
  obtain a b c d e f g h where "w = (a, b, c, d, e, f, g, h)" by (cases w rule: regs_list.cases)
  thus ?thesis by (simp add: sha256_K_def)
qed

lemma D64_transform3_eq:
  "D64_transform3 w = sha256_Transform1 sha256_Initialize (write_regs32 w @ D64_buffer2_tail)"
proof -
  let ?rb = "regs_list w @ [0x80000000, 0, 0, 0, 0, 0, 0, 0x100]"
  have l: "length ?rb = 16" by (cases w rule: regs_list.cases) simp
  have "sha256_words (write_regs32 w @ D64_buffer2_tail) =
      ?rb @ (D64_window w @ run_schedule sha256_next 32 0 (D64_window w))"
    using sha2.restart [OF l, of sha256_sigma0 sha256_sigma1 32]
    by (simp add: sha256_words_def read_block_buffer2 D64_window_eq flip: sha256_next_def)
  hence "map2 (+) sha256_K (sha256_words (write_regs32 w @ D64_buffer2_tail)) =
      map2 (+) (take 16 sha256_K) ?rb @
      map2 (+) (drop 16 sha256_K) (D64_window w @ run_schedule sha256_next 32 0 (D64_window w))"
    by (simp only: map2_append_right [of _ _ ?rb] l)
  thus ?thesis
    by (simp add: D64_transform3_def sha256_Transform1_def D64_first_keys Let_def add8_commute)
qed

lemma WriteBE64_bits: "WriteBE64 0x200 = [0, 0, 0, 0, 0, 0, 2, 0]" "WriteBE64 0x100 = [0, 0, 0, 0, 0, 0, 1, 0]"
  by code_simp+

lemma fips_sha256_64:
  assumes "length m = 64"
  shows "fips_sha256 m =
    write_regs32 (sha256_Transform1 (sha256_Transform1 sha256_Initialize m) D64_padding1)"
proof -
  have "fips_pad m = m @ D64_padding1"
    by (simp add: fips_pad_def assms pad_zeros_def D64_padding1_def replicate_numeral WriteBE64_bits)
  moreover have "length D64_padding1 = 64" by (simp add: D64_padding1_def)
  ultimately show ?thesis
    by (simp add: fips_sha256_def blocks_of_append [OF assms] blocks_of_single sha256_Transform1_fips)
qed

lemma fips_sha256_32:
  assumes "length m = 32"
  shows "fips_sha256 m = write_regs32 (sha256_Transform1 sha256_Initialize (m @ D64_buffer2_tail))"
proof -
  have "fips_pad m = m @ D64_buffer2_tail"
    by (simp add: fips_pad_def assms pad_zeros_def D64_buffer2_tail_def replicate_numeral WriteBE64_bits)
  moreover have "length (m @ D64_buffer2_tail) = 64" by (simp add: assms D64_buffer2_tail_def)
  ultimately show ?thesis
    by (simp add: fips_sha256_def blocks_of_single sha256_Transform1_fips)
qed

lemma TransformD64_double:
  assumes "length x = 64"
  shows "sha256_TransformD64 x = fips_sha256 (fips_sha256 x)"
  by (simp add: sha256_TransformD64_def D64_transform1_eq D64_transform2_eq D64_transform3_eq
      fips_sha256_64 [OF assms] fips_sha256_32)

lemma TransformD64Wrapper_double:
  assumes "length x = 64"
  shows "TransformD64Wrapper sha256_Transform x = fips_sha256 (fips_sha256 x)"
proof -
  have tr: "length b = 64 \<Longrightarrow> sha256_Transform s b 1 = sha256_Transform1 s b" for s b
    by (simp add: sha256_Transform_def)
  have "length D64_padding1 = 64" "length (write_regs32 s @ D64_buffer2_tail) = 64" for s
    by (simp_all add: D64_padding1_def D64_buffer2_tail_def)
  thus ?thesis
    by (simp add: TransformD64Wrapper_def Let_def fips_sha256_64 [OF assms] fips_sha256_32 tr [unfolded One_nat_def] assms)
qed

section \<open>Many double hashes\<close>

text \<open>What a vectorised routine promises: \<^verbatim>\<open>n\<close> double hashes at once.\<close>

definition double_hashes :: "bytes \<Rightarrow> bytes" where
  "double_hashes x = concat (map (\<lambda>b. fips_sha256 (fips_sha256 b)) (blocks_of 64 x))"

definition nway_ok :: "nat \<Rightarrow> (bytes \<Rightarrow> bytes) \<Rightarrow> bool" where
  "nway_ok n f \<longleftrightarrow> (\<forall>x. length x = 64 * n \<longrightarrow> f x = double_hashes x)"

definition d64_impl_ok :: "d64_impl \<Rightarrow> bool" where
  "d64_impl_ok impl \<longleftrightarrow> nway_ok 1 (TransformD64 impl) \<and>
     (\<forall>f. TransformD64_2way impl = Some f \<longrightarrow> nway_ok 2 f) \<and>
     (\<forall>f. TransformD64_4way impl = Some f \<longrightarrow> nway_ok 4 f) \<and>
     (\<forall>f. TransformD64_8way impl = Some f \<longrightarrow> nway_ok 8 f)"

lemma double_hashes_append:
  assumes "length a = 64 * n"
  shows "double_hashes (a @ b) = double_hashes a @ double_hashes b"
  using assms
proof (induction n arbitrary: a)
  case (Suc n)
  have t: "length (take 64 a) = 64" "length (drop 64 a) = 64 * n" using Suc.prems by simp_all
  have "blocks_of 64 a = take 64 a # blocks_of 64 (drop 64 a)"
    using blocks_of_append [OF t(1), of "drop 64 a"] by simp
  moreover have "blocks_of 64 (a @ b) = take 64 a # blocks_of 64 (drop 64 a @ b)"
    using blocks_of_append [OF t(1), of "drop 64 a @ b"] by (simp flip: append_assoc)
  ultimately show ?case using Suc.IH [OF t(2)] by (simp add: double_hashes_def)
qed (simp add: double_hashes_def blocks_of_def)

text \<open>The state of the loops: what is written and what remains add up to the whole result.\<close>

definition d64_inv :: "nat \<Rightarrow> bytes \<Rightarrow> bytes \<times> bytes \<times> nat \<Rightarrow> bool" where
  "d64_inv k x st = (case st of (out, rest, blocks) \<Rightarrow>
     length rest = 64 * blocks \<and> blocks \<le> k \<and> out @ double_hashes rest = double_hashes x)"

lemma d64_loop_inv:
  assumes "nway_ok n f" "0 < n"
  shows "d64_inv k x (out, rest, blocks) \<Longrightarrow> d64_inv (min k (n - 1)) x (d64_loop n f out rest blocks)"
proof (induction blocks arbitrary: out rest k rule: less_induct)
  case (less blocks)
  show ?case
  proof (cases "n \<le> blocks")
    case True
    let ?a = "take (64 * n) rest" and ?b = "drop (64 * n) rest"
    have la: "length ?a = 64 * n" using less.prems True by (simp add: d64_inv_def)
    hence "f ?a = double_hashes ?a" using assms(1) by (simp add: nway_ok_def)
    hence "d64_inv k x (out @ f ?a, ?b, blocks - n)"
      using less.prems True double_hashes_append [OF la, of ?b]
      by (auto simp: d64_inv_def diff_mult_distrib2)
    from less.IH [OF _ this] assms(2) True show ?thesis by (subst d64_loop.simps) simp
  next
    case False
    thus ?thesis using less.prems assms(2) by (subst d64_loop.simps) (simp add: d64_inv_def)
  qed
qed

lemma d64_opt_loop_inv:
  assumes "\<And>f. fp = Some f \<Longrightarrow> nway_ok n f" "0 < n" "d64_inv k x st"
  shows "d64_inv k x (d64_opt_loop n fp st)"
proof (cases fp)
  case (Some f)
  obtain out rest blocks where st: "st = (out, rest, blocks)" by (cases st)
  have "d64_inv (min k (n - 1)) x (d64_opt_loop n fp st)"
    using d64_loop_inv [OF assms(1) [OF Some] assms(2), of k x out rest blocks] assms(3)
    by (simp add: d64_opt_loop_def Some st)
  thus ?thesis by (auto simp: d64_inv_def)
qed (use assms in \<open>simp add: d64_opt_loop_def\<close>)

lemma SHA256D64_double:
  assumes "d64_impl_ok impl" "length x = 64 * blocks"
  shows "SHA256D64 impl x blocks = double_hashes x"
proof -
  let ?s8 = "d64_opt_loop 8 (TransformD64_8way impl) ([], x, blocks)"
  let ?s2 = "d64_opt_loop 2 (TransformD64_2way impl) (d64_opt_loop 4 (TransformD64_4way impl) ?s8)"
  have "d64_inv blocks x ([], x, blocks)" using assms(2) by (simp add: d64_inv_def)
  hence "d64_inv blocks x ?s2"
    using assms(1) by (intro d64_opt_loop_inv) (simp_all add: d64_impl_ok_def)
  moreover obtain out rest n where s2: "?s2 = (out, rest, n)" by (cases ?s2)
  moreover have "nway_ok 1 (TransformD64 impl)" using assms(1) by (simp add: d64_impl_ok_def)
  ultimately have "d64_inv 0 x (d64_loop 1 (TransformD64 impl) out rest n)"
    using d64_loop_inv [of 1 "TransformD64 impl" blocks x out rest n] by simp
  moreover have "double_hashes [] = []" by (simp add: double_hashes_def blocks_of_def)
  ultimately have "fst (d64_loop 1 (TransformD64 impl) out rest n) = double_hashes x"
    by (auto simp: d64_inv_def split: prod.splits)
  thus ?thesis
    by (simp add: SHA256D64_def s2 d64_opt_loop_def [of "Suc 0"] case_prod_unfold)
qed

section \<open>Properties\<close>

lemma fips_pad_aligned: "length (fips_pad m) mod 64 = 0"
  using pad_zeros_fills(1) [of 8 64 "length m"] by (simp add: fips_pad_def ac_simps)

text \<open>
  C13: \<^verbatim>\<open>CSHA256\<close> computes SHA-256 of FIPS 180-4 however the message is cut into \<^verbatim>\<open>Write\<close> calls,
  whatever the uninitialised buffer holds, and again after \<^verbatim>\<open>Finalize\<close> and \<^verbatim>\<open>Reset\<close>; the padded
  message is a whole number of blocks, so no byte is left out.
\<close>

theorem CSHA256_streaming:
  assumes "length buf = 64"
  shows "fst (CSHA256_Finalize (fold (\<lambda>d c. CSHA256_Write c d) ds (CSHA256_new buf))) =
      fips_sha256 (concat ds) \<and>
    fst (CSHA256_Finalize (fold (\<lambda>d c. CSHA256_Write c d) es (CSHA256_Reset
      (snd (CSHA256_Finalize (fold (\<lambda>d c. CSHA256_Write c d) ds (CSHA256_new buf))))))) =
      fips_sha256 (concat es) \<and>
    length (fips_pad (concat ds)) mod 64 = 0"
  using CSHA256_Finalize_buf [OF CSHA256_writes_repr [OF assms]]
  by (simp add: CSHA256_hash [OF assms] CSHA256_hash CSHA256_Reset_new fips_pad_aligned)

theorem CSHA256_streaming_witness:
  "fst (CSHA256_Finalize (CSHA256_Write (CSHA256_Write (CSHA256_new (replicate 64 0)) [97]) [98, 99])) =
     fips_sha256 [97, 98, 99]"
  using CSHA256_streaming [of "replicate 64 0" "[[97], [98, 99]]" "[]"] by simp

text \<open>
  C29: the specialised \<^verbatim>\<open>TransformD64\<close>, with its precomputed padding constants, the generic
  \<^verbatim>\<open>TransformD64Wrapper\<close>, and \<^verbatim>\<open>SHA256D64\<close> over any set of vectorised routines that compute
  what they promise, all give the double SHA-256 of every 64-byte input, in order.
\<close>

theorem SHA256D64_double_hash:
  assumes "d64_impl_ok impl" "length x = 64 * blocks" "length y = 64"
  shows "SHA256D64 impl x blocks =
      concat (map (\<lambda>b. fips_sha256 (fips_sha256 b)) (blocks_of 64 x)) \<and>
    sha256_TransformD64 y = fips_sha256 (fips_sha256 y) \<and>
    TransformD64Wrapper sha256_Transform y = fips_sha256 (fips_sha256 y)"
  using SHA256D64_double [OF assms(1,2)]
  by (simp add: TransformD64_double [OF assms(3)] TransformD64Wrapper_double [OF assms(3)] double_hashes_def)

text \<open>The routines of the portable build, with the one vectorised slot filled by the wrapper.\<close>

definition portable_d64 :: d64_impl where
  "portable_d64 = \<lparr>TransformD64 = sha256_TransformD64,
     TransformD64_2way = Some (\<lambda>x. TransformD64Wrapper sha256_Transform (take 64 x) @
       TransformD64Wrapper sha256_Transform (drop 64 x)),
     TransformD64_4way = None, TransformD64_8way = None\<rparr>"

lemma portable_d64_ok: "d64_impl_ok portable_d64"
proof -
  have one: "double_hashes x = fips_sha256 (fips_sha256 x)" if "length x = 64" for x
    using that by (simp add: double_hashes_def blocks_of_single)
  have "double_hashes x = double_hashes (take 64 x) @ double_hashes (drop 64 x)" if "length x = 128" for x
    using double_hashes_append [of "take 64 x" 1 "drop 64 x"] that by simp
  thus ?thesis
    by (simp add: portable_d64_def d64_impl_ok_def nway_ok_def one TransformD64_double TransformD64Wrapper_double)
qed

theorem SHA256D64_double_hash_witness:
  "SHA256D64 portable_d64 (replicate 192 7) 3 =
     concat (map (\<lambda>b. fips_sha256 (fips_sha256 b)) (blocks_of 64 (replicate 192 7)))"
  using SHA256D64_double_hash [OF portable_d64_ok, of "replicate 192 7" 3 "replicate 64 0"] by simp

end
