(* ===== verification/Sha512.thy ===== *)
theory Sha512
  imports Sha2_Rounds
begin

text \<open>
  \<^verbatim>\<open>crypto/sha512.cpp\<close>: the compression function and the hasher class \<^verbatim>\<open>CSHA512\<close>, against SHA-512 of
  FIPS 180-4. The class writes a 64-bit length into the 128-bit length field.
\<close>

section \<open>The compression function\<close>

definition sha512_Ch :: "u64 \<Rightarrow> u64 \<Rightarrow> u64 \<Rightarrow> u64" where
  "sha512_Ch x y z = z XOR (x AND (y XOR z))"

definition sha512_Maj :: "u64 \<Rightarrow> u64 \<Rightarrow> u64 \<Rightarrow> u64" where
  "sha512_Maj x y z = (x AND y) OR (z AND (x OR y))"

definition sha512_Sigma0 :: "u64 \<Rightarrow> u64" where
  "sha512_Sigma0 x = (drop_bit 28 x OR push_bit 36 x) XOR (drop_bit 34 x OR push_bit 30 x) XOR
     (drop_bit 39 x OR push_bit 25 x)"

definition sha512_Sigma1 :: "u64 \<Rightarrow> u64" where
  "sha512_Sigma1 x = (drop_bit 14 x OR push_bit 50 x) XOR (drop_bit 18 x OR push_bit 46 x) XOR
     (drop_bit 41 x OR push_bit 23 x)"

definition sha512_sigma0 :: "u64 \<Rightarrow> u64" where
  "sha512_sigma0 x = (drop_bit 1 x OR push_bit 63 x) XOR (drop_bit 8 x OR push_bit 56 x) XOR drop_bit 7 x"

definition sha512_sigma1 :: "u64 \<Rightarrow> u64" where
  "sha512_sigma1 x = (drop_bit 19 x OR push_bit 45 x) XOR (drop_bit 61 x OR push_bit 3 x) XOR drop_bit 6 x"

definition sha512_Round :: "(u64, u64 \<times> u64) round" where
  "sha512_Round a b c d e f g h kw =
     (let (k, w) = kw;
          t1 = h + sha512_Sigma1 e + sha512_Ch e f g + k + w;
          t2 = sha512_Sigma0 a + sha512_Maj a b c
      in (d + t1, t1 + t2))"

definition sha512_Initialize :: "u64 regs" where
  "sha512_Initialize =
     (0x6a09e667f3bcc908, 0xbb67ae8584caa73b, 0x3c6ef372fe94f82b, 0xa54ff53a5f1d36f1,
      0x510e527fade682d1, 0x9b05688c2b3e6c1f, 0x1f83d9abfb41bd6b, 0x5be0cd19137e2179)"

text \<open>The constants of the 80 \<^verbatim>\<open>Round\<close> lines, one row for each pass over the eight registers.\<close>

definition sha512_K :: "u64 list" where
  "sha512_K = concat
     [[0x428a2f98d728ae22, 0x7137449123ef65cd, 0xb5c0fbcfec4d3b2f, 0xe9b5dba58189dbbc,
       0x3956c25bf348b538, 0x59f111f1b605d019, 0x923f82a4af194f9b, 0xab1c5ed5da6d8118],
      [0xd807aa98a3030242, 0x12835b0145706fbe, 0x243185be4ee4b28c, 0x550c7dc3d5ffb4e2,
       0x72be5d74f27b896f, 0x80deb1fe3b1696b1, 0x9bdc06a725c71235, 0xc19bf174cf692694],
      [0xe49b69c19ef14ad2, 0xefbe4786384f25e3, 0x0fc19dc68b8cd5b5, 0x240ca1cc77ac9c65,
       0x2de92c6f592b0275, 0x4a7484aa6ea6e483, 0x5cb0a9dcbd41fbd4, 0x76f988da831153b5],
      [0x983e5152ee66dfab, 0xa831c66d2db43210, 0xb00327c898fb213f, 0xbf597fc7beef0ee4,
       0xc6e00bf33da88fc2, 0xd5a79147930aa725, 0x06ca6351e003826f, 0x142929670a0e6e70],
      [0x27b70a8546d22ffc, 0x2e1b21385c26c926, 0x4d2c6dfc5ac42aed, 0x53380d139d95b3df,
       0x650a73548baf63de, 0x766a0abb3c77b2a8, 0x81c2c92e47edaee6, 0x92722c851482353b],
      [0xa2bfe8a14cf10364, 0xa81a664bbc423001, 0xc24b8b70d0f89791, 0xc76c51a30654be30,
       0xd192e819d6ef5218, 0xd69906245565a910, 0xf40e35855771202a, 0x106aa07032bbd1b8],
      [0x19a4c116b8d2d0c8, 0x1e376c085141ab53, 0x2748774cdf8eeb99, 0x34b0bcb5e19b48a8,
       0x391c0cb3c5c95a63, 0x4ed8aa4ae3418acb, 0x5b9cca4f7763e373, 0x682e6ff3d6b2b8a3],
      [0x748f82ee5defb2fc, 0x78a5636f43172f60, 0x84c87814a1f0ab72, 0x8cc702081a6439ec,
       0x90befffa23631e28, 0xa4506cebde82bde9, 0xbef9a3f7b2c67915, 0xc67178f2e372532b],
      [0xca273eceea26619c, 0xd186b8c721c0c207, 0xeada7dd6cde0eb1e, 0xf57d4f7fee6ed178,
       0x06f067aa72176fba, 0x0a637dc5a2c898a6, 0x113f9804bef90dae, 0x1b710b35131c471b],
      [0x28db77f523047d84, 0x32caab7b40c72493, 0x3c9ebe0a15c9bebc, 0x431d67c49c100d4c,
       0x4cc5d4becb3e42b6, 0x597f299cfc657e2a, 0x5fcb6fab3ad6faec, 0x6c44198c4a475817]]"

definition read_block64 :: "bytes \<Rightarrow> u64 list" where
  "read_block64 chunk = map (\<lambda>i. ReadBE64 (drop (8 * i) chunk)) [0..<16]"

definition sha512_next :: "u64 list \<Rightarrow> nat \<Rightarrow> u64" where
  "sha512_next = sha2_next sha512_sigma0 sha512_sigma1"

definition sha512_words :: "bytes \<Rightarrow> u64 list" where
  "sha512_words chunk = read_block64 chunk @ run_schedule sha512_next 64 0 (read_block64 chunk)"

definition sha512_Transform :: "u64 regs \<Rightarrow> bytes \<Rightarrow> u64 regs" where
  "sha512_Transform s chunk = add8 s (Rounds sha512_Round s (zip sha512_K (sha512_words chunk)))"

section \<open>The hasher class\<close>

type_synonym CSHA512 = "u64 regs hash_ctx"

definition CSHA512_new :: "bytes \<Rightarrow> CSHA512" where
  "CSHA512_new buf = \<lparr>ctx_s = sha512_Initialize, ctx_buf = buf, ctx_bytes = 0\<rparr>"

definition CSHA512_Write :: "CSHA512 \<Rightarrow> bytes \<Rightarrow> CSHA512" where
  "CSHA512_Write ctx data = hash_write 128 sha512_Transform ctx data"

definition write_regs64 :: "u64 regs \<Rightarrow> bytes" where
  "write_regs64 s = concat (map WriteBE64 (regs_list s))"

definition CSHA512_Finalize :: "CSHA512 \<Rightarrow> bytes \<times> CSHA512" where
  "CSHA512_Finalize ctx =
     (let pad = 0x80 # replicate 127 0;
          sizedesc = replicate 8 0 @ WriteBE64 (push_bit 3 (ctx_bytes ctx));
          ctx = CSHA512_Write ctx (take (1 + (239 - unat (ctx_bytes ctx) mod 128) mod 128) pad);
          ctx = CSHA512_Write ctx sizedesc
      in (write_regs64 (ctx_s ctx), ctx))"

definition CSHA512_Reset :: "CSHA512 \<Rightarrow> CSHA512" where
  "CSHA512_Reset ctx = ctx\<lparr>ctx_bytes := 0, ctx_s := sha512_Initialize\<rparr>"

section \<open>The reference\<close>

definition fips512_Sigma0 :: "u64 \<Rightarrow> u64" where
  "fips512_Sigma0 x = word_rotr 28 x XOR word_rotr 34 x XOR word_rotr 39 x"

definition fips512_Sigma1 :: "u64 \<Rightarrow> u64" where
  "fips512_Sigma1 x = word_rotr 14 x XOR word_rotr 18 x XOR word_rotr 41 x"

definition fips512_sigma0 :: "u64 \<Rightarrow> u64" where
  "fips512_sigma0 x = word_rotr 1 x XOR word_rotr 8 x XOR drop_bit 7 x"

definition fips512_sigma1 :: "u64 \<Rightarrow> u64" where
  "fips512_sigma1 x = word_rotr 19 x XOR word_rotr 61 x XOR drop_bit 6 x"

definition fips512_step :: "(u64, u64) round" where
  "fips512_step a b c d e f g h k =
     (let t1 = h + fips512_Sigma1 e + fips_Ch e f g + k;
          t2 = fips512_Sigma0 a + fips_Maj a b c
      in (d + t1, t1 + t2))"

definition fips512_compress :: "u64 regs \<Rightarrow> bytes \<Rightarrow> u64 regs" where
  "fips512_compress s block =
     add8 s (foldl (fips_round fips512_step) s
       (map (\<lambda>t. sha512_K ! t + fips_W fips512_sigma0 fips512_sigma1 (read_block64 block) t) [0..<80]))"

text \<open>The length field is the number of bits as a 128-bit big-endian number.\<close>

definition fips512_pad :: "bytes \<Rightarrow> bytes" where
  "fips512_pad m = m @ 0x80 # replicate (pad_zeros 128 16 (length m)) 0 @
     rev (le_bytes 16 (of_nat (8 * length m) :: 128 word))"

definition fips_sha512 :: "bytes \<Rightarrow> bytes" where
  "fips_sha512 m = write_regs64 (foldl fips512_compress sha512_Initialize (blocks_of 128 (fips512_pad m)))"

section \<open>The compression function is the one of the standard\<close>

lemma sha512_functions_fips:
  "sha512_Ch = fips_Ch" "sha512_Maj = fips_Maj" "sha512_Sigma0 = fips512_Sigma0"
  "sha512_Sigma1 = fips512_Sigma1" "sha512_sigma0 = fips512_sigma0" "sha512_sigma1 = fips512_sigma1"
  by (simp_all add: fun_eq_iff sha512_Ch_def sha512_Maj_def sha512_Sigma0_def sha512_Sigma1_def
      sha512_sigma0_def sha512_sigma1_def fips512_Sigma0_def fips512_Sigma1_def fips512_sigma0_def
      fips512_sigma1_def choose_eq majority_eq rotr_eq [unfolded One_nat_def] rotr_eq)

lemma sha512_Round_fips: "sha512_Round a b c d e f g h (k, w) = fips512_step a b c d e f g h (k + w)"
  by (simp add: sha512_Round_def fips512_step_def sha512_functions_fips add.assoc)

lemma fips_round_pair:
  "fips_round sha512_Round st (k, w) = fips_round fips512_step st (k + w)"
  by (cases st rule: regs_list.cases) (simp add: sha512_Round_fips)

lemma foldl_fips_round_pair:
  "foldl (fips_round sha512_Round) st (zip ks ws) = foldl (fips_round fips512_step) st (map2 (+) ks ws)"
proof (induction ks arbitrary: st ws)
  case (Cons k ks)
  thus ?case by (cases ws) (simp_all add: fips_round_pair)
qed simp

lemma length_sha512_K [simp]: "length sha512_K = 80"
  by (simp add: sha512_K_def)

lemma length_read_block64 [simp]: "length (read_block64 chunk) = 16"
  by (simp add: read_block64_def)

lemma length_sha512_words [simp]: "length (sha512_words chunk) = 80"
  by (simp add: sha512_words_def)

lemma sha512_words_fips:
  "sha512_words chunk = map (fips_W fips512_sigma0 fips512_sigma1 (read_block64 chunk)) [0..<80]"
  using sha2.all_words [of "read_block64 chunk" fips512_sigma0 fips512_sigma1 64]
  by (simp add: sha512_words_def sha512_next_def sha512_functions_fips)

lemma sha512_Transform_fips: "sha512_Transform = fips512_compress"
proof -
  have "sha512_Transform s chunk =
      add8 s (foldl (fips_round fips512_step) s (map2 (+) sha512_K (sha512_words chunk)))" for s chunk
    by (simp add: sha512_Transform_def Rounds_fips foldl_fips_round_pair)
  thus ?thesis by (simp add: fun_eq_iff fips512_compress_def sha512_words_fips map2_nth)
qed

section \<open>Streaming\<close>

interpretation csha512: md_stream 128 sha512_Transform sha512_Initialize
  by unfold_locales simp_all

lemma upt_split: "[0..<m + n] = [0..<m] @ map (\<lambda>i. m + i) [0..<n]"
  using upt_add_eq_append [of 0 m n] map_add_upt [of m n] by (simp add: add.commute)

lemma length_field_512:
  assumes "n < 2 ^ 61"
  shows "rev (le_bytes 16 (of_nat (8 * n) :: 128 word)) = replicate 8 0 @ WriteBE64 (push_bit 3 (of_nat n))"
proof -
  let ?w = "of_nat (8 * n) :: 128 word" and ?v = "of_nat (8 * n) :: u64"
  have l: "8 * n < 2 ^ 64" using assms by simp
  have l2: "8 * n < 2 ^ 128" by (rule order.strict_trans [OF l]) simp
  have u: "unat ?w = 8 * n" "unat ?v = 8 * n"
    using l l2 by (simp_all add: unat_of_nat del: of_nat_mult)
  have hi: "(ucast (drop_bit (8 * (8 + i)) ?w) :: u8) = 0" for i
  proof -
    have "(2 :: nat) ^ 64 \<le> 2 ^ (8 * (8 + i))" by (rule power_increasing) simp_all
    hence "(8 * n) div 2 ^ (8 * (8 + i)) = 0" using l by (intro div_less) (rule order.strict_trans2)
    hence "unat (drop_bit (8 * (8 + i)) ?w) = 0" by (simp only: unat_drop_bit_div u(1))
    hence "drop_bit (8 * (8 + i)) ?w = 0" by (simp only: unat_eq_0)
    thus ?thesis by (simp only:) simp
  qed
  have lo: "(ucast (drop_bit k ?w) :: u8) = ucast (drop_bit k ?v)" for k
    by (rule word_unat_eq_iff [THEN iffD2]) (simp only: unat_ucast_mod unat_drop_bit_div u)
  have "[0..<16] = [0..<8] @ map (\<lambda>i. 8 + i) [0..<8]" using upt_split [of 8 8] by (simp del: upt_rec_numeral)
  hence "le_bytes 16 ?w = le_bytes 8 ?v @ map (\<lambda>i. 0) [0..<8]"
    unfolding le_bytes_def by (simp only: map_append map_map o_def hi [unfolded lo] lo)
  thus ?thesis by (simp only: WriteBE64_def write_bits_length map_replicate_const rev_append rev_replicate) simp
qed

lemma CSHA512_Finalize_repr:
  assumes "ctx_repr 128 sha512_Transform sha512_Initialize ctx m" "length m < 2 ^ 61"
  shows "fst (CSHA512_Finalize ctx) = fips_sha512 m"
proof -
  have p: "fips512_pad m = m @ 0x80 # replicate (pad_zeros 128 16 (length m)) 0 @
      replicate 8 0 @ WriteBE64 (push_bit 3 (ctx_bytes ctx))"
    using assms(1) by (simp only: fips512_pad_def length_field_512 [OF assms(2)] ctx_repr_def)
  show ?thesis
    using csha512.finalize_state [OF assms(1), of 16]
    by (simp add: CSHA512_Finalize_def CSHA512_Write_def Let_def fips_sha512_def p sha512_Transform_fips)
qed

lemma CSHA512_writes_repr:
  assumes "length buf = 128"
  shows "ctx_repr 128 sha512_Transform sha512_Initialize
    (fold (\<lambda>d c. CSHA512_Write c d) ds (CSHA512_new buf)) (concat ds)"
  using csha512.after_writes [OF assms, of ds] by (simp add: CSHA512_Write_def CSHA512_new_def)

lemma CSHA512_hash:
  "length buf = 128 \<Longrightarrow> length (concat ds) < 2 ^ 61 \<Longrightarrow>
    fst (CSHA512_Finalize (fold (\<lambda>d c. CSHA512_Write c d) ds (CSHA512_new buf))) = fips_sha512 (concat ds)"
  by (rule CSHA512_Finalize_repr [OF CSHA512_writes_repr])

lemma CSHA512_Reset_new: "CSHA512_Reset ctx = CSHA512_new (ctx_buf ctx)"
  by (simp add: CSHA512_Reset_def CSHA512_new_def)

lemma length_fips_sha512 [simp]: "length (fips_sha512 m) = 64"
proof -
  have "length (write_regs64 s) = 64" for s
    by (cases s rule: regs_list.cases) (simp add: write_regs64_def)
  thus ?thesis by (simp add: fips_sha512_def)
qed

end
