(* ===== verification/Rounds5.thy ===== *)
theory Rounds5
  imports Sha2_Rounds
begin

text \<open>
  The unrolled rounds of \<^verbatim>\<open>sha1.cpp\<close> and \<^verbatim>\<open>ripemd160.cpp\<close>: five registers, whose names the successive
  calls rotate. A round updates some of its registers in place; the standards move the registers by
  one position after every round instead.
\<close>

type_synonym regs5 = "u32 \<times> u32 \<times> u32 \<times> u32 \<times> u32"

fun Rounds5 :: "(regs5 \<Rightarrow> 'k \<Rightarrow> regs5) \<Rightarrow> regs5 \<Rightarrow> 'k list \<Rightarrow> regs5" where
  "Rounds5 R (a, b, c, d, e) (k0 # k1 # k2 # k3 # k4 # ks) =
     (let (a, b, c, d, e) = R (a, b, c, d, e) k0;
          (e, a, b, c, d) = R (e, a, b, c, d) k1;
          (d, e, a, b, c) = R (d, e, a, b, c) k2;
          (c, d, e, a, b) = R (c, d, e, a, b) k3;
          (b, c, d, e, a) = R (b, c, d, e, a) k4
      in Rounds5 R (a, b, c, d, e) ks)"
| "Rounds5 R st _ = st"

fun rotate5 :: "regs5 \<Rightarrow> regs5" where
  "rotate5 (a, b, c, d, e) = (e, a, b, c, d)"

fun regs5_list :: "regs5 \<Rightarrow> u32 list" where
  "regs5_list (a, b, c, d, e) = [a, b, c, d, e]"

fun add5 :: "regs5 \<Rightarrow> regs5 \<Rightarrow> regs5" where
  "add5 (a, b, c, d, e) (a', b', c', d', e') = (a + a', b + b', c + c', d + d', e + e')"

lemma Rounds5_rotate:
  "5 dvd length ks \<Longrightarrow> Rounds5 R st ks = foldl (\<lambda>st k. rotate5 (R st k)) st ks"
proof (induction R st ks rule: Rounds5.induct)
  case (1 R a b c d e k0 k1 k2 k3 k4 ks)
  have "length (k0 # k1 # k2 # k3 # k4 # ks) = 5 + length ks" by simp
  hence "5 dvd length ks" using "1.prems" dvd_add_right_iff [of 5 5 "length ks"] by (simp only: dvd_refl)
  with 1 show ?case by (simp add: Let_def split: prod.split)
qed (auto dest!: dvd_imp_le)

lemma rotl_eq:
  fixes x :: u32
  assumes "0 < n" "n < 32"
  shows "push_bit n x OR drop_bit (32 - n) x = word_rotl n x"
proof -
  have "drop_bit (32 - n) x OR push_bit n x = word_rotr (32 - n) x"
    using assms by (intro rotr_eq) simp_all
  also have "\<dots> = word_rotl n x"
    using assms by (intro bit_word_eqI) (auto simp: bit_word_rotr_iff bit_word_rotl_iff mod_if)
  finally show ?thesis by (simp add: or.commute)
qed

lemma foldl_cong_set:
  "(\<And>s x. x \<in> set xs \<Longrightarrow> f s x = g s x) \<Longrightarrow> foldl f s xs = foldl g s xs"
  by (induction xs arbitrary: s) simp_all

end
