(* ===== verification/Sha1.thy ===== *)
theory Sha1
  imports Rounds5
begin

text \<open>
  \<^verbatim>\<open>crypto/sha1.cpp\<close>: the compression function and the hasher class \<^verbatim>\<open>CSHA1\<close>, against SHA-1 of FIPS 180-4.
\<close>

section \<open>The compression function\<close>

definition sha1_f1 :: "u32 \<Rightarrow> u32 \<Rightarrow> u32 \<Rightarrow> u32" where
  "sha1_f1 b c d = d XOR (b AND (c XOR d))"

definition sha1_f2 :: "u32 \<Rightarrow> u32 \<Rightarrow> u32 \<Rightarrow> u32" where
  "sha1_f2 b c d = b XOR c XOR d"

definition sha1_f3 :: "u32 \<Rightarrow> u32 \<Rightarrow> u32 \<Rightarrow> u32" where
  "sha1_f3 b c d = (b AND c) OR (d AND (b OR c))"

definition sha1_left :: "u32 \<Rightarrow> u32" where
  "sha1_left x = push_bit 1 x OR drop_bit 31 x"

text \<open>The call \<^verbatim>\<open>Round(a, b, c, d, e, f(b, c, d), k, w)\<close>; it writes \<^verbatim>\<open>b\<close> and \<^verbatim>\<open>e\<close>.\<close>

type_synonym round_fun = "u32 \<Rightarrow> u32 \<Rightarrow> u32 \<Rightarrow> u32"

fun sha1_Round :: "regs5 \<Rightarrow> round_fun \<times> u32 \<times> u32 \<Rightarrow> regs5" where
  "sha1_Round (a, b, c, d, e) (f, k, w) =
     (a, push_bit 30 b OR drop_bit 2 b, c, d,
      e + ((push_bit 5 a OR drop_bit 27 a) + f b c d + k + w))"

definition sha1_Initialize :: regs5 where
  "sha1_Initialize = (0x67452301, 0xEFCDAB89, 0x98BADCFE, 0x10325476, 0xC3D2E1F0)"

text \<open>The function and the constant of every round line.\<close>

definition sha1_phases :: "(round_fun \<times> u32) list" where
  "sha1_phases = replicate 20 (sha1_f1, 0x5A827999) @ replicate 20 (sha1_f2, 0x6ED9EBA1) @
     replicate 20 (sha1_f3, 0x8F1BBCDC) @ replicate 20 (sha1_f2, 0xCA62C1D6)"

definition sha1_next :: "u32 list \<Rightarrow> nat \<Rightarrow> u32" where
  "sha1_next w i =
     sha1_left (w ! i XOR w ! ((i + 13) mod 16) XOR w ! ((i + 8) mod 16) XOR w ! ((i + 2) mod 16))"

definition sha1_block :: "bytes \<Rightarrow> u32 list" where
  "sha1_block chunk = map (\<lambda>i. ReadBE32 (drop (4 * i) chunk)) [0..<16]"

definition sha1_words :: "bytes \<Rightarrow> u32 list" where
  "sha1_words chunk = sha1_block chunk @ run_schedule sha1_next 64 0 (sha1_block chunk)"

definition sha1_Transform :: "regs5 \<Rightarrow> bytes \<Rightarrow> regs5" where
  "sha1_Transform s chunk =
     add5 s (Rounds5 sha1_Round s (map2 (\<lambda>(f, k) w. (f, k, w)) sha1_phases (sha1_words chunk)))"

section \<open>The hasher class\<close>

type_synonym CSHA1 = "regs5 hash_ctx"

definition CSHA1_new :: "bytes \<Rightarrow> CSHA1" where
  "CSHA1_new buf = \<lparr>ctx_s = sha1_Initialize, ctx_buf = buf, ctx_bytes = 0\<rparr>"

definition CSHA1_Write :: "CSHA1 \<Rightarrow> bytes \<Rightarrow> CSHA1" where
  "CSHA1_Write ctx data = hash_write 64 sha1_Transform ctx data"

definition CSHA1_Finalize :: "CSHA1 \<Rightarrow> bytes \<times> CSHA1" where
  "CSHA1_Finalize ctx =
     (let pad = 0x80 # replicate 63 0;
          sizedesc = WriteBE64 (push_bit 3 (ctx_bytes ctx));
          ctx = CSHA1_Write ctx (take (1 + (119 - unat (ctx_bytes ctx) mod 64) mod 64) pad);
          ctx = CSHA1_Write ctx sizedesc
      in (concat (map WriteBE32 (regs5_list (ctx_s ctx))), ctx))"

definition CSHA1_Reset :: "CSHA1 \<Rightarrow> CSHA1" where
  "CSHA1_Reset ctx = ctx\<lparr>ctx_bytes := 0, ctx_s := sha1_Initialize\<rparr>"

section \<open>The reference\<close>

fun fips1_W :: "u32 list \<Rightarrow> nat \<Rightarrow> u32" where
  "fips1_W M t =
     (if t < 16 then M ! t
      else word_rotl 1 (fips1_W M (t - 3) XOR fips1_W M (t - 8) XOR fips1_W M (t - 14) XOR fips1_W M (t - 16)))"

declare fips1_W.simps [simp del]

definition fips1_f :: "nat \<Rightarrow> u32 \<Rightarrow> u32 \<Rightarrow> u32 \<Rightarrow> u32" where
  "fips1_f t x y z =
     (if t < 20 then fips_Ch x y z else if t < 40 then x XOR y XOR z
      else if t < 60 then fips_Maj x y z else x XOR y XOR z)"

definition fips1_K :: "nat \<Rightarrow> u32" where
  "fips1_K t =
     (if t < 20 then 0x5a827999 else if t < 40 then 0x6ed9eba1 else if t < 60 then 0x8f1bbcdc else 0xca62c1d6)"

fun fips1_step :: "u32 list \<Rightarrow> regs5 \<Rightarrow> nat \<Rightarrow> regs5" where
  "fips1_step M (a, b, c, d, e) t =
     (word_rotl 5 a + fips1_f t b c d + e + fips1_K t + fips1_W M t, a, word_rotl 30 b, c, d)"

definition fips1_compress :: "regs5 \<Rightarrow> bytes \<Rightarrow> regs5" where
  "fips1_compress s block = add5 s (foldl (fips1_step (sha1_block block)) s [0..<80])"

definition fips1_pad :: "bytes \<Rightarrow> bytes" where
  "fips1_pad m = m @ 0x80 # replicate (pad_zeros 64 8 (length m)) 0 @ WriteBE64 (of_nat (8 * length m))"

definition fips_sha1 :: "bytes \<Rightarrow> bytes" where
  "fips_sha1 m =
     concat (map WriteBE32 (regs5_list (foldl fips1_compress sha1_Initialize (blocks_of 64 (fips1_pad m)))))"

section \<open>The compression function is the one of the standard\<close>

lemma sha1_left_rotl: "sha1_left x = word_rotl 1 x"
  using rotl_eq [of 1 x] by (simp add: sha1_left_def)

interpretation sha1s: message_schedule sha1_next fips1_W
proof
  fix t and M w :: "u32 list"
  assume t: "16 \<le> t" and win: "window (fips1_W M) t w"
  have "w ! ((t + 13) mod 16) = fips1_W M (t - 3)" "w ! ((t + 8) mod 16) = fips1_W M (t - 8)"
    "w ! ((t + 2) mod 16) = fips1_W M (t - 14)"
    using window_at [OF win, of 13] window_at [OF win, of 8] window_at [OF win, of 2] t by simp_all
  thus "sha1_next w (t mod 16) = fips1_W M t"
    using t by (subst fips1_W.simps)
      (simp add: sha1_next_def window_at_0 [OF win] mod_simps sha1_left_rotl xor.commute xor.left_commute xor.assoc)
qed (simp add: fips1_W.simps)

lemma sha1_words_fips: "sha1_words chunk = map (fips1_W (sha1_block chunk)) [0..<80]"
  using sha1s.all_words [of "sha1_block chunk" 64] by (simp add: sha1_words_def sha1_block_def)

lemma sha1_functions_fips: "sha1_f1 = fips_Ch" "sha1_f3 = fips_Maj"
  by (simp_all add: fun_eq_iff sha1_f1_def sha1_f3_def choose_eq majority_eq)

lemma length_sha1_phases [simp]: "length sha1_phases = 80"
  by (simp add: sha1_phases_def)

lemma sha1_phases_nth: "t < 80 \<Longrightarrow> sha1_phases ! t = (fips1_f t, fips1_K t)"
  by (auto simp: sha1_phases_def nth_append fips1_f_def fips1_K_def sha1_functions_fips sha1_f2_def fun_eq_iff)

lemma sha1_Round_fips:
  "rotate5 (sha1_Round s (fips1_f t, fips1_K t, fips1_W M t)) = fips1_step M s t"
  using rotl_eq [of 5] rotl_eq [of 30] by (cases s rule: regs5_list.cases) (simp add: ac_simps)

lemma sha1_Transform_fips: "sha1_Transform = fips1_compress"
proof -
  have "map2 (\<lambda>(f, k) w. (f, k, w)) sha1_phases (sha1_words chunk) =
      map (\<lambda>t. (fips1_f t, fips1_K t, fips1_W (sha1_block chunk) t)) [0..<80]" for chunk
    by (simp add: sha1_words_fips map2_nth sha1_phases_nth)
  thus ?thesis
    by (simp add: fun_eq_iff sha1_Transform_def fips1_compress_def Rounds5_rotate foldl_map sha1_Round_fips)
qed

section \<open>Streaming\<close>

interpretation csha1: md_stream 64 sha1_Transform sha1_Initialize
  by unfold_locales simp_all

lemma CSHA1_Finalize_repr:
  assumes "ctx_repr 64 sha1_Transform sha1_Initialize ctx m"
  shows "fst (CSHA1_Finalize ctx) = fips_sha1 m"
proof -
  have b: "ctx_bytes ctx = of_nat (length m)" using assms by (simp add: ctx_repr_def)
  show ?thesis
    using csha1.finalize_state [OF assms, of 8]
    by (simp add: CSHA1_Finalize_def CSHA1_Write_def Let_def fips_sha1_def fips1_pad_def
        sha1_Transform_fips b write_bits_length)
qed

lemma CSHA1_hash:
  assumes "length buf = 64"
  shows "fst (CSHA1_Finalize (fold (\<lambda>d c. CSHA1_Write c d) ds (CSHA1_new buf))) = fips_sha1 (concat ds)"
  using CSHA1_Finalize_repr [OF csha1.after_writes [OF assms, of ds]]
  by (simp add: CSHA1_Write_def CSHA1_new_def)

end
