(* ===== verification/Ripemd160.thy ===== *)
theory Ripemd160
  imports Rounds5
begin

text \<open>
  \<^verbatim>\<open>crypto/ripemd160.cpp\<close>: the compression function with its two lines of eighty rounds and the hasher
  class \<^verbatim>\<open>CRIPEMD160\<close>. The reference generates the word orders and the rotation amounts from the
  permutations and the shift table of the RIPEMD-160 definition.
\<close>

section \<open>The compression function\<close>

definition rmd_f1 :: "u32 \<Rightarrow> u32 \<Rightarrow> u32 \<Rightarrow> u32" where "rmd_f1 x y z = x XOR y XOR z"
definition rmd_f2 :: "u32 \<Rightarrow> u32 \<Rightarrow> u32 \<Rightarrow> u32" where "rmd_f2 x y z = (x AND y) OR (NOT x AND z)"
definition rmd_f3 :: "u32 \<Rightarrow> u32 \<Rightarrow> u32 \<Rightarrow> u32" where "rmd_f3 x y z = (x OR NOT y) XOR z"
definition rmd_f4 :: "u32 \<Rightarrow> u32 \<Rightarrow> u32 \<Rightarrow> u32" where "rmd_f4 x y z = (x AND z) OR (y AND NOT z)"
definition rmd_f5 :: "u32 \<Rightarrow> u32 \<Rightarrow> u32 \<Rightarrow> u32" where "rmd_f5 x y z = x XOR (y OR NOT z)"

definition rmd_Initialize :: regs5 where
  "rmd_Initialize = (0x67452301, 0xEFCDAB89, 0x98BADCFE, 0x10325476, 0xC3D2E1F0)"

definition rol :: "u32 \<Rightarrow> nat \<Rightarrow> u32" where
  "rol x i = push_bit i x OR drop_bit (32 - i) x"

text \<open>A round with its function, constant, message word and rotation; it writes \<^verbatim>\<open>a\<close> and \<^verbatim>\<open>c\<close>.\<close>

type_synonym rmd_key = "(u32 \<Rightarrow> u32 \<Rightarrow> u32 \<Rightarrow> u32) \<times> u32 \<times> u32 \<times> nat"

fun rmd_Round :: "regs5 \<Rightarrow> rmd_key \<Rightarrow> regs5" where
  "rmd_Round (a, b, c, d, e) (f, k, x, r) = (rol (a + f b c d + x + k) r + e, b, rol c 10, d, e)"

definition R11 :: "u32 \<Rightarrow> nat \<Rightarrow> rmd_key" where "R11 x r = (rmd_f1, 0, x, r)"
definition R21 :: "u32 \<Rightarrow> nat \<Rightarrow> rmd_key" where "R21 x r = (rmd_f2, 0x5A827999, x, r)"
definition R31 :: "u32 \<Rightarrow> nat \<Rightarrow> rmd_key" where "R31 x r = (rmd_f3, 0x6ED9EBA1, x, r)"
definition R41 :: "u32 \<Rightarrow> nat \<Rightarrow> rmd_key" where "R41 x r = (rmd_f4, 0x8F1BBCDC, x, r)"
definition R51 :: "u32 \<Rightarrow> nat \<Rightarrow> rmd_key" where "R51 x r = (rmd_f5, 0xA953FD4E, x, r)"

definition R12 :: "u32 \<Rightarrow> nat \<Rightarrow> rmd_key" where "R12 x r = (rmd_f5, 0x50A28BE6, x, r)"
definition R22 :: "u32 \<Rightarrow> nat \<Rightarrow> rmd_key" where "R22 x r = (rmd_f4, 0x5C4DD124, x, r)"
definition R32 :: "u32 \<Rightarrow> nat \<Rightarrow> rmd_key" where "R32 x r = (rmd_f3, 0x6D703EF3, x, r)"
definition R42 :: "u32 \<Rightarrow> nat \<Rightarrow> rmd_key" where "R42 x r = (rmd_f2, 0x7A6D76E9, x, r)"
definition R52 :: "u32 \<Rightarrow> nat \<Rightarrow> rmd_key" where "R52 x r = (rmd_f1, 0, x, r)"

text \<open>The message word and the rotation of every round line, first and second register set.\<close>

definition rmd_word1 :: "nat list" where
  "rmd_word1 =
     [0, 1, 2, 3, 4, 5, 6, 7, 8, 9, 10, 11, 12, 13, 14, 15,
      7, 4, 13, 1, 10, 6, 15, 3, 12, 0, 9, 5, 2, 14, 11, 8,
      3, 10, 14, 4, 9, 15, 8, 1, 2, 7, 0, 6, 13, 11, 5, 12,
      1, 9, 11, 10, 0, 8, 12, 4, 13, 3, 7, 15, 14, 5, 6, 2,
      4, 0, 5, 9, 7, 12, 2, 10, 14, 1, 3, 8, 11, 6, 15, 13]"

definition rmd_rot1 :: "nat list" where
  "rmd_rot1 =
     [11, 14, 15, 12, 5, 8, 7, 9, 11, 13, 14, 15, 6, 7, 9, 8,
      7, 6, 8, 13, 11, 9, 7, 15, 7, 12, 15, 9, 11, 7, 13, 12,
      11, 13, 6, 7, 14, 9, 13, 15, 14, 8, 13, 6, 5, 12, 7, 5,
      11, 12, 14, 15, 14, 15, 9, 8, 9, 14, 5, 6, 8, 6, 5, 12,
      9, 15, 5, 11, 6, 8, 13, 12, 5, 12, 13, 14, 11, 8, 5, 6]"

definition rmd_word2 :: "nat list" where
  "rmd_word2 =
     [5, 14, 7, 0, 9, 2, 11, 4, 13, 6, 15, 8, 1, 10, 3, 12,
      6, 11, 3, 7, 0, 13, 5, 10, 14, 15, 8, 12, 4, 9, 1, 2,
      15, 5, 1, 3, 7, 14, 6, 9, 11, 8, 12, 2, 10, 0, 4, 13,
      8, 6, 4, 1, 3, 11, 15, 0, 5, 12, 2, 13, 9, 7, 10, 14,
      12, 15, 10, 4, 1, 5, 8, 7, 6, 2, 13, 14, 0, 3, 9, 11]"

definition rmd_rot2 :: "nat list" where
  "rmd_rot2 =
     [8, 9, 9, 11, 13, 15, 15, 5, 7, 7, 8, 11, 14, 14, 12, 6,
      9, 13, 15, 7, 12, 8, 9, 11, 7, 7, 12, 7, 6, 15, 13, 11,
      9, 7, 15, 11, 8, 6, 6, 14, 12, 13, 5, 14, 13, 13, 7, 5,
      15, 5, 8, 11, 14, 14, 6, 14, 6, 9, 12, 9, 12, 5, 15, 8,
      8, 5, 12, 9, 12, 5, 14, 6, 8, 13, 6, 5, 15, 13, 11, 11]"

definition rmd_calls1 :: "(u32 \<Rightarrow> nat \<Rightarrow> rmd_key) list" where
  "rmd_calls1 = replicate 16 R11 @ replicate 16 R21 @ replicate 16 R31 @ replicate 16 R41 @ replicate 16 R51"

definition rmd_calls2 :: "(u32 \<Rightarrow> nat \<Rightarrow> rmd_key) list" where
  "rmd_calls2 = replicate 16 R12 @ replicate 16 R22 @ replicate 16 R32 @ replicate 16 R42 @ replicate 16 R52"

definition rmd_block :: "bytes \<Rightarrow> u32 list" where
  "rmd_block chunk = map (\<lambda>i. ReadLE32 (drop (4 * i) chunk)) [0..<16]"

definition rmd_keys :: "(u32 \<Rightarrow> nat \<Rightarrow> rmd_key) list \<Rightarrow> nat list \<Rightarrow> nat list \<Rightarrow> u32 list \<Rightarrow> rmd_key list" where
  "rmd_keys calls words rots w = map2 (\<lambda>R (i, r). R (w ! i) r) calls (zip words rots)"

definition ripemd160_Transform :: "regs5 \<Rightarrow> bytes \<Rightarrow> regs5" where
  "ripemd160_Transform s chunk =
     (let w = rmd_block chunk;
          (a1, b1, c1, d1, e1) = Rounds5 rmd_Round s (rmd_keys rmd_calls1 rmd_word1 rmd_rot1 w);
          (a2, b2, c2, d2, e2) = Rounds5 rmd_Round s (rmd_keys rmd_calls2 rmd_word2 rmd_rot2 w);
          (s0, s1, s2, s3, s4) = s
      in (s1 + c1 + d2, s2 + d1 + e2, s3 + e1 + a2, s4 + a1 + b2, s0 + b1 + c2))"

section \<open>The hasher class\<close>

type_synonym CRIPEMD160 = "regs5 hash_ctx"

definition CRIPEMD160_new :: "bytes \<Rightarrow> CRIPEMD160" where
  "CRIPEMD160_new buf = \<lparr>ctx_s = rmd_Initialize, ctx_buf = buf, ctx_bytes = 0\<rparr>"

definition CRIPEMD160_Write :: "CRIPEMD160 \<Rightarrow> bytes \<Rightarrow> CRIPEMD160" where
  "CRIPEMD160_Write ctx data = hash_write 64 ripemd160_Transform ctx data"

definition CRIPEMD160_Finalize :: "CRIPEMD160 \<Rightarrow> bytes \<times> CRIPEMD160" where
  "CRIPEMD160_Finalize ctx =
     (let pad = 0x80 # replicate 63 0;
          sizedesc = WriteLE64 (push_bit 3 (ctx_bytes ctx));
          ctx = CRIPEMD160_Write ctx (take (1 + (119 - unat (ctx_bytes ctx) mod 64) mod 64) pad);
          ctx = CRIPEMD160_Write ctx sizedesc
      in (concat (map WriteLE32 (regs5_list (ctx_s ctx))), ctx))"

definition CRIPEMD160_Reset :: "CRIPEMD160 \<Rightarrow> CRIPEMD160" where
  "CRIPEMD160_Reset ctx = ctx\<lparr>ctx_bytes := 0, ctx_s := rmd_Initialize\<rparr>"

section \<open>The reference\<close>

text \<open>The permutations of the definition, and the word read by step \<^verbatim>\<open>j\<close> of either line.\<close>

definition rho :: "nat \<Rightarrow> nat" where
  "rho i = [7, 4, 13, 1, 10, 6, 15, 3, 12, 0, 9, 5, 2, 14, 11, 8] ! i"

definition rmd_pi :: "nat \<Rightarrow> nat" where
  "rmd_pi i = (9 * i + 5) mod 16"

definition ref_word1 :: "nat \<Rightarrow> nat" where
  "ref_word1 j = (rho ^^ (j div 16)) (j mod 16)"

definition ref_word2 :: "nat \<Rightarrow> nat" where
  "ref_word2 j = (rho ^^ (j div 16)) (rmd_pi (j mod 16))"

text \<open>The shift depends on the phase and on the word, the same for both lines.\<close>

definition ref_shift :: "nat \<Rightarrow> nat \<Rightarrow> nat" where
  "ref_shift p x =
     [[11, 14, 15, 12, 5, 8, 7, 9, 11, 13, 14, 15, 6, 7, 9, 8],
      [12, 13, 11, 15, 6, 9, 9, 7, 12, 15, 11, 13, 7, 8, 7, 7],
      [13, 15, 14, 11, 7, 7, 6, 8, 13, 14, 13, 12, 5, 5, 6, 9],
      [14, 11, 12, 14, 8, 6, 5, 5, 15, 12, 15, 14, 9, 9, 8, 6],
      [15, 12, 13, 13, 9, 5, 8, 6, 14, 11, 12, 11, 8, 6, 5, 5]] ! p ! x"

definition ref_f :: "nat \<Rightarrow> u32 \<Rightarrow> u32 \<Rightarrow> u32 \<Rightarrow> u32" where
  "ref_f p x y z =
     (if p = 0 then x XOR y XOR z else if p = 1 then (x AND y) OR (NOT x AND z)
      else if p = 2 then (x OR NOT y) XOR z else if p = 3 then (x AND z) OR (y AND NOT z)
      else x XOR (y OR NOT z))"

definition ref_K1 :: "nat \<Rightarrow> u32" where
  "ref_K1 p = [0, 0x5a827999, 0x6ed9eba1, 0x8f1bbcdc, 0xa953fd4e] ! p"

definition ref_K2 :: "nat \<Rightarrow> u32" where
  "ref_K2 p = [0x50a28be6, 0x5c4dd124, 0x6d703ef3, 0x7a6d76e9, 0] ! p"

fun ref_step :: "(u32 \<Rightarrow> u32 \<Rightarrow> u32 \<Rightarrow> u32) \<Rightarrow> u32 \<Rightarrow> u32 \<Rightarrow> nat \<Rightarrow> regs5 \<Rightarrow> regs5" where
  "ref_step f k x r (a, b, c, d, e) = (e, word_rotl r (a + f b c d + x + k) + e, b, word_rotl 10 c, d)"

definition ref_line1 :: "u32 list \<Rightarrow> regs5 \<Rightarrow> nat \<Rightarrow> regs5" where
  "ref_line1 w s j =
     ref_step (ref_f (j div 16)) (ref_K1 (j div 16)) (w ! ref_word1 j) (ref_shift (j div 16) (ref_word1 j)) s"

definition ref_line2 :: "u32 list \<Rightarrow> regs5 \<Rightarrow> nat \<Rightarrow> regs5" where
  "ref_line2 w s j =
     ref_step (ref_f (4 - j div 16)) (ref_K2 (j div 16)) (w ! ref_word2 j) (ref_shift (j div 16) (ref_word2 j)) s"

definition ref_compress :: "regs5 \<Rightarrow> bytes \<Rightarrow> regs5" where
  "ref_compress s block =
     (let w = rmd_block block;
          (a, b, c, d, e) = foldl (ref_line1 w) s [0..<80];
          (a', b', c', d', e') = foldl (ref_line2 w) s [0..<80];
          (h0, h1, h2, h3, h4) = s
      in (h1 + c + d', h2 + d + e', h3 + e + a', h4 + a + b', h0 + b + c'))"

definition ref_pad :: "bytes \<Rightarrow> bytes" where
  "ref_pad m = m @ 0x80 # replicate (pad_zeros 64 8 (length m)) 0 @ WriteLE64 (of_nat (8 * length m))"

definition ref_ripemd160 :: "bytes \<Rightarrow> bytes" where
  "ref_ripemd160 m =
     concat (map WriteLE32 (regs5_list (foldl ref_compress rmd_Initialize (blocks_of 64 (ref_pad m)))))"

section \<open>The compression function is the one of the definition\<close>

lemma rmd_word_tables: "rmd_word1 = map ref_word1 [0..<80]" "rmd_word2 = map ref_word2 [0..<80]"
  by code_simp+

lemma rmd_rot_tables:
  "rmd_rot1 = map (\<lambda>j. ref_shift (j div 16) (ref_word1 j)) [0..<80]"
  "rmd_rot2 = map (\<lambda>j. ref_shift (j div 16) (ref_word2 j)) [0..<80]"
  by code_simp+

lemma rot_amounts: "list_all (\<lambda>r. 0 < r \<and> r < 32) (rmd_rot1 @ rmd_rot2)"
  by code_simp

lemma rmd_f_eq:
  "rmd_f1 = ref_f 0" "rmd_f2 = ref_f 1" "rmd_f3 = ref_f 2" "rmd_f4 = ref_f 3" "rmd_f5 = ref_f 4"
  by (simp_all add: fun_eq_iff rmd_f1_def rmd_f2_def rmd_f3_def rmd_f4_def rmd_f5_def ref_f_def)

lemma nth_phases:
  assumes "j < 80"
  shows "(replicate 16 a @ replicate 16 b @ replicate 16 c @ replicate 16 d @ replicate 16 e) ! j =
    [a, b, c, d, e] ! (j div 16)"
proof -
  consider "j div 16 = 0" "j < 16" | "j div 16 = 1" "16 \<le> j" "j < 32" | "j div 16 = 2" "32 \<le> j" "j < 48"
    | "j div 16 = 3" "48 \<le> j" "j < 64" | "j div 16 = 4" "64 \<le> j" "j < 80"
    using assms by linarith
  thus ?thesis by cases (auto simp: nth_append)
qed

lemma phase_cases:
  assumes "(j :: nat) < 80"
  obtains "j div 16 = 0" | "j div 16 = 1" | "j div 16 = 2" | "j div 16 = 3" | "j div 16 = 4"
  using assms by linarith

lemma calls1_nth:
  "j < 80 \<Longrightarrow> (rmd_calls1 ! j) x r = (ref_f (j div 16), ref_K1 (j div 16), x, r)"
  unfolding rmd_calls1_def nth_phases
  by (erule phase_cases) (simp_all add: R11_def R21_def R31_def R41_def R51_def ref_K1_def rmd_f_eq numeral_3_eq_3)

lemma calls2_nth:
  "j < 80 \<Longrightarrow> (rmd_calls2 ! j) x r = (ref_f (4 - j div 16), ref_K2 (j div 16), x, r)"
  unfolding rmd_calls2_def nth_phases
  by (erule phase_cases) (simp_all add: R12_def R22_def R32_def R42_def R52_def ref_K2_def rmd_f_eq numeral_3_eq_3)

lemma rmd_Round_ref:
  "0 < r \<Longrightarrow> r < 32 \<Longrightarrow> rotate5 (rmd_Round s (f, k, x, r)) = ref_step f k x r s"
  by (cases s rule: regs5_list.cases) (simp add: rol_def rotl_eq rotl_eq [of 10, simplified])

lemma rmd_keys_nth:
  assumes "length calls = 80" "words = map wd [0..<80]" "rots = map rf [0..<80]"
  shows "rmd_keys calls words rots w = map (\<lambda>j. (calls ! j) (w ! wd j) (rf j)) [0..<80]"
  using assms by (intro nth_equalityI) (simp_all add: rmd_keys_def)

lemma rmd_rot_bounds:
  assumes "j < 80"
  shows "0 < ref_shift (j div 16) (ref_word1 j) \<and> ref_shift (j div 16) (ref_word1 j) < 32"
    and "0 < ref_shift (j div 16) (ref_word2 j) \<and> ref_shift (j div 16) (ref_word2 j) < 32"
proof -
  have "\<forall>r \<in> set rmd_rot1 \<union> set rmd_rot2. 0 < r \<and> r < 32"
    using rot_amounts by (auto simp: list_all_iff)
  thus "0 < ref_shift (j div 16) (ref_word1 j) \<and> ref_shift (j div 16) (ref_word1 j) < 32"
    and "0 < ref_shift (j div 16) (ref_word2 j) \<and> ref_shift (j div 16) (ref_word2 j) < 32"
    using assms unfolding rmd_rot_tables by force+
qed

lemma rmd_line1:
  "Rounds5 rmd_Round s (rmd_keys rmd_calls1 rmd_word1 rmd_rot1 w) = foldl (ref_line1 w) s [0..<80]"
proof -
  have "length rmd_calls1 = 80" by (simp add: rmd_calls1_def)
  from rmd_keys_nth [OF this rmd_word_tables(1) rmd_rot_tables(1)]
  have k: "rmd_keys rmd_calls1 rmd_word1 rmd_rot1 w =
      map (\<lambda>j. (rmd_calls1 ! j) (w ! ref_word1 j) (ref_shift (j div 16) (ref_word1 j))) [0..<80]" .
  have "rotate5 (rmd_Round s ((rmd_calls1 ! j) (w ! ref_word1 j) (ref_shift (j div 16) (ref_word1 j)))) =
      ref_line1 w s j" if "j \<in> set [0..<80]" for s j
    using that by (simp add: calls1_nth rmd_Round_ref rmd_rot_bounds ref_line1_def)
  thus ?thesis unfolding k by (subst Rounds5_rotate) (simp, simp only: foldl_map, rule foldl_cong_set)
qed

lemma rmd_line2:
  "Rounds5 rmd_Round s (rmd_keys rmd_calls2 rmd_word2 rmd_rot2 w) = foldl (ref_line2 w) s [0..<80]"
proof -
  have "length rmd_calls2 = 80" by (simp add: rmd_calls2_def)
  from rmd_keys_nth [OF this rmd_word_tables(2) rmd_rot_tables(2)]
  have k: "rmd_keys rmd_calls2 rmd_word2 rmd_rot2 w =
      map (\<lambda>j. (rmd_calls2 ! j) (w ! ref_word2 j) (ref_shift (j div 16) (ref_word2 j))) [0..<80]" .
  have "rotate5 (rmd_Round s ((rmd_calls2 ! j) (w ! ref_word2 j) (ref_shift (j div 16) (ref_word2 j)))) =
      ref_line2 w s j" if "j \<in> set [0..<80]" for s j
    using that by (simp add: calls2_nth rmd_Round_ref rmd_rot_bounds ref_line2_def)
  thus ?thesis unfolding k by (subst Rounds5_rotate) (simp, simp only: foldl_map, rule foldl_cong_set)
qed

lemma ripemd160_Transform_ref: "ripemd160_Transform = ref_compress"
  unfolding fun_eq_iff ripemd160_Transform_def ref_compress_def rmd_line1 rmd_line2 by simp

section \<open>Streaming\<close>

interpretation cripemd: md_stream 64 ripemd160_Transform rmd_Initialize
  by unfold_locales simp_all

lemma CRIPEMD160_Finalize_repr:
  assumes "ctx_repr 64 ripemd160_Transform rmd_Initialize ctx m"
  shows "fst (CRIPEMD160_Finalize ctx) = ref_ripemd160 m"
proof -
  have b: "ctx_bytes ctx = of_nat (length m)" using assms by (simp add: ctx_repr_def)
  show ?thesis
    using cripemd.finalize_state [OF assms, of 8]
    by (simp add: CRIPEMD160_Finalize_def CRIPEMD160_Write_def Let_def ref_ripemd160_def ref_pad_def
        ripemd160_Transform_ref b write_bits_length)
qed

lemma CRIPEMD160_hash:
  assumes "length buf = 64"
  shows "fst (CRIPEMD160_Finalize (fold (\<lambda>d c. CRIPEMD160_Write c d) ds (CRIPEMD160_new buf))) =
    ref_ripemd160 (concat ds)"
  using CRIPEMD160_Finalize_repr [OF cripemd.after_writes [OF assms, of ds]]
  by (simp add: CRIPEMD160_Write_def CRIPEMD160_new_def)

end
