(* ===== verification/Hash_Util.thy ===== *)
theory Hash_Util
  imports Sha256 Sha512 Sha1 Ripemd160
begin

text \<open>
  What the node builds from the hash classes: HMAC and HKDF (\<^verbatim>\<open>crypto/hmac_sha256.cpp\<close>,
  \<^verbatim>\<open>crypto/hmac_sha512.cpp\<close>, \<^verbatim>\<open>crypto/hkdf_sha256_32.cpp\<close>), the 256-bit and 160-bit hashes, the hashing
  streams and the helpers of \<^verbatim>\<open>hash.h\<close> and \<^verbatim>\<open>hash.cpp\<close>. The argument \<^verbatim>\<open>junk\<close> gives the contents of
  the uninitialised buffers of the hash objects that a function creates.
\<close>

section \<open>The contract of a hash class\<close>

text \<open>
  A class with a block of \<^verbatim>\<open>B\<close> bytes and a digest of \<^verbatim>\<open>D\<close> bytes computes \<^verbatim>\<open>H\<close> of everything written,
  for the message lengths that \<^verbatim>\<open>ok\<close> admits.
\<close>

locale hash_class =
  fixes new :: "bytes \<Rightarrow> 'c" and wr :: "'c \<Rightarrow> bytes \<Rightarrow> 'c" and fin :: "'c \<Rightarrow> bytes \<times> 'c"
    and H :: "bytes \<Rightarrow> bytes" and B D :: nat and ok :: "nat \<Rightarrow> bool"
  assumes digest: "length buf = B \<Longrightarrow> ok (length (concat ds)) \<Longrightarrow>
      fst (fin (fold (\<lambda>d c. wr c d) ds (new buf))) = H (concat ds)"
    and digest_length: "length (H m) = D"
    and small_ok: "n \<le> B + D \<Longrightarrow> ok n"
    and digest_fits: "D \<le> B"

lemma length_fips_sha256 [simp]: "length (fips_sha256 m) = 32"
  by (simp add: fips_sha256_def)

interpretation sha256_class: hash_class CSHA256_new CSHA256_Write CSHA256_Finalize fips_sha256 64 32
    "\<lambda>_. True"
  by unfold_locales (simp_all add: CSHA256_hash)

interpretation sha512_class: hash_class CSHA512_new CSHA512_Write CSHA512_Finalize fips_sha512 128 64
    "\<lambda>n. n < 2 ^ 61"
  by unfold_locales (simp_all add: CSHA512_hash)

section \<open>HMAC\<close>

record 'c hmac =
  outer :: 'c
  inner :: 'c

text \<open>The two HMAC constructors and \<^verbatim>\<open>Finalize\<close> functions differ only in the hash class and its sizes.\<close>

definition hmac_new ::
    "(bytes \<Rightarrow> 'c) \<Rightarrow> ('c \<Rightarrow> bytes \<Rightarrow> 'c) \<Rightarrow> ('c \<Rightarrow> bytes \<times> 'c) \<Rightarrow> nat \<Rightarrow> nat \<Rightarrow> (nat \<Rightarrow> bytes) \<Rightarrow> bytes \<Rightarrow> 'c hmac" where
  "hmac_new new wr fin B D junk key =
     (let rkey = (if length key \<le> B then key @ replicate (B - length key) 0
                  else fst (fin (wr (new (junk 2)) key)) @ replicate (B - D) 0);
          rkey = map (\<lambda>b. b XOR 0x5c) rkey;
          outer = wr (new (junk 0)) rkey;
          rkey = map (\<lambda>b. b XOR (0x5c XOR 0x36)) rkey;
          inner = wr (new (junk 1)) rkey
      in \<lparr>outer = outer, inner = inner\<rparr>)"

definition hmac_write :: "('c \<Rightarrow> bytes \<Rightarrow> 'c) \<Rightarrow> 'c hmac \<Rightarrow> bytes \<Rightarrow> 'c hmac" where
  "hmac_write wr h data = h\<lparr>inner := wr (inner h) data\<rparr>"

definition hmac_finalize ::
    "('c \<Rightarrow> bytes \<Rightarrow> 'c) \<Rightarrow> ('c \<Rightarrow> bytes \<times> 'c) \<Rightarrow> 'c hmac \<Rightarrow> bytes \<times> 'c hmac" where
  "hmac_finalize wr fin h =
     (let (temp, inner') = fin (inner h);
          (out, outer') = fin (wr (outer h) temp)
      in (out, \<lparr>outer = outer', inner = inner'\<rparr>))"

definition CHMAC_SHA256_new :: "(nat \<Rightarrow> bytes) \<Rightarrow> bytes \<Rightarrow> CSHA256 hmac" where
  "CHMAC_SHA256_new = hmac_new CSHA256_new CSHA256_Write CSHA256_Finalize 64 32"

definition CHMAC_SHA256_Write :: "CSHA256 hmac \<Rightarrow> bytes \<Rightarrow> CSHA256 hmac" where
  "CHMAC_SHA256_Write = hmac_write CSHA256_Write"

definition CHMAC_SHA256_Finalize :: "CSHA256 hmac \<Rightarrow> bytes \<times> CSHA256 hmac" where
  "CHMAC_SHA256_Finalize = hmac_finalize CSHA256_Write CSHA256_Finalize"

definition CHMAC_SHA512_new :: "(nat \<Rightarrow> bytes) \<Rightarrow> bytes \<Rightarrow> CSHA512 hmac" where
  "CHMAC_SHA512_new = hmac_new CSHA512_new CSHA512_Write CSHA512_Finalize 128 64"

definition CHMAC_SHA512_Write :: "CSHA512 hmac \<Rightarrow> bytes \<Rightarrow> CSHA512 hmac" where
  "CHMAC_SHA512_Write = hmac_write CSHA512_Write"

definition CHMAC_SHA512_Finalize :: "CSHA512 hmac \<Rightarrow> bytes \<times> CSHA512 hmac" where
  "CHMAC_SHA512_Finalize = hmac_finalize CSHA512_Write CSHA512_Finalize"

text \<open>HMAC as RFC 2104 defines it.\<close>

definition rfc_hmac :: "(bytes \<Rightarrow> bytes) \<Rightarrow> nat \<Rightarrow> bytes \<Rightarrow> bytes \<Rightarrow> bytes" where
  "rfc_hmac H B key m =
     (let k = (if length key > B then H key else key);
          k = k @ replicate (B - length k) 0
      in H (map (\<lambda>b. b XOR 0x5c) k @ H (map (\<lambda>b. b XOR 0x36) k @ m)))"

lemma xor_pads: "(b XOR 0x5c) XOR 0x6a = b XOR (0x36 :: u8)"
  by (simp add: xor.assoc)

context hash_class
begin

lemma digest1: "length buf = B \<Longrightarrow> ok (length m) \<Longrightarrow> fst (fin (wr (new buf) m)) = H m"
  using digest [of buf "[m]"] by simp

lemma digest2: "length buf = B \<Longrightarrow> ok (length a + length b) \<Longrightarrow> fst (fin (wr (wr (new buf) a) b)) = H (a @ b)"
  using digest [of buf "[a, b]"] by simp

lemma hmac_rfc:
  assumes "\<And>i. length (junk i) = B" "ok (length key)" "ok (B + length (concat ds))"
  shows "fst (hmac_finalize wr fin (fold (\<lambda>d h. hmac_write wr h d) ds (hmac_new new wr fin B D junk key))) =
    rfc_hmac H B key (concat ds)"
proof -
  define k where "k = (let k = (if length key > B then H key else key) in k @ replicate (B - length k) 0)"
  have lk: "length k = B" using digest_fits by (simp add: k_def Let_def digest_length)
  define ctx where "ctx = hmac_new new wr fin B D junk key"
  have ctx: "outer ctx = wr (new (junk 0)) (map (\<lambda>b. b XOR 0x5c) k)"
    "inner ctx = wr (new (junk 1)) (map (\<lambda>b. b XOR 0x36) k)"
    using digest1 [OF assms(1,2), of 2]
    by (simp_all add: ctx_def hmac_new_def k_def Let_def digest_length o_def xor_pads)
  have w: "outer (fold (\<lambda>d h. hmac_write wr h d) ds h) = outer h \<and>
      inner (fold (\<lambda>d h. hmac_write wr h d) ds h) = fold (\<lambda>d c. wr c d) ds (inner h)" for h
    by (induction ds arbitrary: h) (simp_all add: hmac_write_def)
  have i: "fst (fin (fold (\<lambda>d c. wr c d) ds (inner ctx))) = H (map (\<lambda>b. b XOR 0x36) k @ concat ds)"
    using digest [of "junk 1" "map (\<lambda>b. b XOR 0x36) k # ds"] assms(1,3) by (simp add: ctx lk)
  have "fst (fin (wr (outer ctx) (H (map (\<lambda>b. b XOR 0x36) k @ concat ds)))) =
      H (map (\<lambda>b. b XOR 0x5c) k @ H (map (\<lambda>b. b XOR 0x36) k @ concat ds))"
    using assms(1) by (simp add: ctx digest2 lk digest_length small_ok)
  thus ?thesis
    using i w [of ctx] unfolding ctx_def [symmetric] hmac_finalize_def rfc_hmac_def Let_def
    by (simp add: case_prod_unfold flip: k_def [unfolded Let_def])
qed

end

section \<open>HKDF\<close>

record CHKDF = m_prk :: bytes

definition CHKDF_new :: "(nat \<Rightarrow> bytes) \<Rightarrow> bytes \<Rightarrow> bytes \<Rightarrow> CHKDF" where
  "CHKDF_new junk ikm salt =
     \<lparr>m_prk = fst (CHMAC_SHA256_Finalize (CHMAC_SHA256_Write (CHMAC_SHA256_new junk salt) ikm))\<rparr>"

definition Expand32 :: "(nat \<Rightarrow> bytes) \<Rightarrow> CHKDF \<Rightarrow> bytes \<Rightarrow> bytes result" where
  "Expand32 junk h info =
     rbind (cpp_assert (length info \<le> 128)) (\<lambda>_.
       Inr (fst (CHMAC_SHA256_Finalize (CHMAC_SHA256_Write (CHMAC_SHA256_Write
         (CHMAC_SHA256_new junk (m_prk h)) info) [1]))))"

section \<open>Double hashes and hashing streams\<close>

definition CHash256_Finalize :: "CSHA256 \<Rightarrow> nat \<Rightarrow> (bytes \<times> CSHA256) result" where
  "CHash256_Finalize sha out_size =
     rbind (cpp_assert (out_size = 32)) (\<lambda>_.
       let (buf, sha) = CSHA256_Finalize sha
       in Inr (CSHA256_Finalize (CSHA256_Write (CSHA256_Reset sha) buf)))"

definition CHash256_Write :: "CSHA256 \<Rightarrow> bytes \<Rightarrow> CSHA256" where
  "CHash256_Write sha input = CSHA256_Write sha input"

definition CHash256_Reset :: "CSHA256 \<Rightarrow> CSHA256" where
  "CHash256_Reset sha = CSHA256_Reset sha"

definition CHash160_Finalize :: "(nat \<Rightarrow> bytes) \<Rightarrow> CSHA256 \<Rightarrow> nat \<Rightarrow> (bytes \<times> CSHA256) result" where
  "CHash160_Finalize junk sha out_size =
     rbind (cpp_assert (out_size = 20)) (\<lambda>_.
       let (buf, sha) = CSHA256_Finalize sha
       in Inr (fst (CRIPEMD160_Finalize (CRIPEMD160_Write (CRIPEMD160_new (junk 1)) buf)), sha))"

definition CHash160_Write :: "CSHA256 \<Rightarrow> bytes \<Rightarrow> CSHA256" where
  "CHash160_Write sha input = CSHA256_Write sha input"

definition CHash160_Reset :: "CSHA256 \<Rightarrow> CSHA256" where
  "CHash160_Reset sha = CSHA256_Reset sha"

definition Hash1 :: "(nat \<Rightarrow> bytes) \<Rightarrow> bytes \<Rightarrow> bytes result" where
  "Hash1 junk in1 =
     rbind (CHash256_Finalize (CHash256_Write (CSHA256_new (junk 0)) in1) 32) (\<lambda>(r, _). Inr r)"

definition Hash2 :: "(nat \<Rightarrow> bytes) \<Rightarrow> bytes \<Rightarrow> bytes \<Rightarrow> bytes result" where
  "Hash2 junk in1 in2 =
     rbind (CHash256_Finalize (CHash256_Write (CHash256_Write (CSHA256_new (junk 0)) in1) in2) 32)
       (\<lambda>(r, _). Inr r)"

definition Hash160 :: "(nat \<Rightarrow> bytes) \<Rightarrow> bytes \<Rightarrow> bytes result" where
  "Hash160 junk in1 =
     rbind (CHash160_Finalize junk (CHash160_Write (CSHA256_new (junk 0)) in1) 20) (\<lambda>(r, _). Inr r)"

text \<open>\<^verbatim>\<open>HashWriter\<close> is its \<^verbatim>\<open>CSHA256\<close> context.\<close>

definition HashWriter_write :: "CSHA256 \<Rightarrow> bytes \<Rightarrow> CSHA256" where
  "HashWriter_write ctx src = CSHA256_Write ctx src"

definition GetHash :: "CSHA256 \<Rightarrow> bytes \<times> CSHA256" where
  "GetHash ctx =
     (let (r, ctx) = CSHA256_Finalize ctx
      in CSHA256_Finalize (CSHA256_Write (CSHA256_Reset ctx) r))"

definition GetSHA256 :: "CSHA256 \<Rightarrow> bytes \<times> CSHA256" where
  "GetSHA256 ctx = CSHA256_Finalize ctx"

definition GetCheapHash :: "CSHA256 \<Rightarrow> u64" where
  "GetCheapHash ctx = ReadLE64 (fst (GetHash ctx))"

definition SHA256Uint256 :: "(nat \<Rightarrow> bytes) \<Rightarrow> bytes \<Rightarrow> bytes" where
  "SHA256Uint256 junk input = fst (CSHA256_Finalize (CSHA256_Write (CSHA256_new (junk 0)) (take 32 input)))"

definition RIPEMD160 :: "(nat \<Rightarrow> bytes) \<Rightarrow> bytes \<Rightarrow> bytes" where
  "RIPEMD160 junk data = fst (CRIPEMD160_Finalize (CRIPEMD160_Write (CRIPEMD160_new (junk 0)) data))"

text \<open>Serialising a \<^verbatim>\<open>uint256\<close> into a stream writes its bytes.\<close>

definition TaggedHash :: "(nat \<Rightarrow> bytes) \<Rightarrow> bytes \<Rightarrow> CSHA256" where
  "TaggedHash junk tag =
     (let writer = CSHA256_new (junk 0);
          taghash = fst (CSHA256_Finalize (CSHA256_Write (CSHA256_new (junk 1)) tag))
      in HashWriter_write (HashWriter_write writer taghash) taghash)"

definition BIP32Hash :: "(nat \<Rightarrow> bytes) \<Rightarrow> bytes \<Rightarrow> u32 \<Rightarrow> u8 \<Rightarrow> bytes \<Rightarrow> bytes" where
  "BIP32Hash junk chainCode nChild header data =
     (let num = WriteBE32 nChild
      in fst (CHMAC_SHA512_Finalize (CHMAC_SHA512_Write (CHMAC_SHA512_Write (CHMAC_SHA512_Write
           (CHMAC_SHA512_new junk chainCode) [header]) (take 32 data)) num)))"

section \<open>MurmurHash3\<close>

definition murmur_block :: "u32 \<Rightarrow> u32 \<Rightarrow> u32" where
  "murmur_block h1 k1 =
     (let k1 = k1 * 0xcc9e2d51; k1 = word_rotl 15 k1; k1 = k1 * 0x1b873593;
          h1 = h1 XOR k1; h1 = word_rotl 13 h1
      in h1 * 5 + 0xe6546b64)"

definition murmur_tail :: "u32 \<Rightarrow> bytes \<Rightarrow> u32" where
  "murmur_tail h1 tail_bytes =
     (let n = length tail_bytes;
          k1 = 0;
          k1 = (if n = 3 then k1 XOR push_bit 16 (ucast (tail_bytes ! 2)) else k1);
          k1 = (if n = 3 \<or> n = 2 then k1 XOR push_bit 8 (ucast (tail_bytes ! 1)) else k1)
      in if n = 0 then h1
         else let k1 = k1 XOR ucast (tail_bytes ! 0); k1 = k1 * 0xcc9e2d51; k1 = word_rotl 15 k1;
                  k1 = k1 * 0x1b873593
              in h1 XOR k1)"

definition MurmurHash3 :: "u32 \<Rightarrow> bytes \<Rightarrow> u32" where
  "MurmurHash3 nHashSeed data =
     (let nblocks = length data div 4;
          h1 = foldl (\<lambda>h1 i. murmur_block h1 (ReadLE32 (drop (i * 4) data))) nHashSeed [0..<nblocks];
          h1 = murmur_tail h1 (drop (nblocks * 4) data);
          h1 = h1 XOR of_nat (length data);
          h1 = h1 XOR drop_bit 16 h1;
          h1 = h1 * 0x85ebca6b;
          h1 = h1 XOR drop_bit 13 h1;
          h1 = h1 * 0xc2b2ae35;
          h1 = h1 XOR drop_bit 16 h1
      in h1)"

section \<open>Hashing what is read from and written to another stream\<close>

text \<open>
  The wrapped stream is any state with a \<^verbatim>\<open>read\<close> that returns the requested bytes or throws, and a
  \<^verbatim>\<open>write\<close>.
\<close>

record 's hash_stream =
  hs_ctx :: CSHA256
  m_source :: 's

definition HashVerifier_read ::
    "('s \<Rightarrow> nat \<Rightarrow> (bytes \<times> 's) result) \<Rightarrow> 's hash_stream \<Rightarrow> nat \<Rightarrow> (bytes \<times> 's hash_stream) result" where
  "HashVerifier_read rd hv n =
     rbind (rd (m_source hv) n) (\<lambda>(dst, src).
       Inr (dst, hv\<lparr>m_source := src, hs_ctx := HashWriter_write (hs_ctx hv) dst\<rparr>))"

fun HashVerifier_ignore ::
    "('s \<Rightarrow> nat \<Rightarrow> (bytes \<times> 's) result) \<Rightarrow> 's hash_stream \<Rightarrow> nat \<Rightarrow> 's hash_stream result" where
  "HashVerifier_ignore rd hv num_bytes =
     (if 0 < num_bytes then
        let now = min num_bytes 1024
        in rbind (HashVerifier_read rd hv now) (\<lambda>(_, hv). HashVerifier_ignore rd hv (num_bytes - now))
      else Inr hv)"

declare HashVerifier_ignore.simps [simp del]

definition HashedSourceWriter_write ::
    "('s \<Rightarrow> bytes \<Rightarrow> 's result) \<Rightarrow> 's hash_stream \<Rightarrow> bytes \<Rightarrow> 's hash_stream result" where
  "HashedSourceWriter_write wr hw src =
     rbind (wr (m_source hw) src) (\<lambda>s. Inr (hw\<lparr>m_source := s, hs_ctx := HashWriter_write (hs_ctx hw) src\<rparr>))"

text \<open>What a stream promises of \<^verbatim>\<open>read\<close>: the next bytes of its content, as many as asked for.\<close>

definition reader_ok :: "('s \<Rightarrow> bytes) \<Rightarrow> ('s \<Rightarrow> nat \<Rightarrow> (bytes \<times> 's) result) \<Rightarrow> bool" where
  "reader_ok content rd \<longleftrightarrow>
     (\<forall>s n d s'. rd s n = Inr (d, s') \<longrightarrow> content s = d @ content s' \<and> length d = n)"

section \<open>The hash helpers compute their definitions\<close>

lemma hash_again:
  assumes "ctx_repr 64 sha256_Transform1 sha256_Initialize ctx m"
  shows "fst (CSHA256_Finalize (CSHA256_Write (CSHA256_Reset (snd (CSHA256_Finalize ctx))) x)) = fips_sha256 x"
  using sha256_class.digest1 [OF CSHA256_Finalize_buf [OF assms]] by (simp add: CSHA256_Reset_new)

lemma GetHash_repr:
  assumes "ctx_repr 64 sha256_Transform1 sha256_Initialize ctx m"
  shows "fst (GetHash ctx) = fips_sha256 (fips_sha256 m)"
  using hash_again [OF assms] CSHA256_Finalize_repr [OF assms]
  by (simp add: GetHash_def case_prod_unfold)

lemma CHash256_repr:
  assumes "ctx_repr 64 sha256_Transform1 sha256_Initialize ctx m"
  shows "rbind (CHash256_Finalize ctx 32) (\<lambda>(r, _). Inr r) = Inr (fips_sha256 (fips_sha256 m))"
  using hash_again [OF assms] CSHA256_Finalize_repr [OF assms]
  by (simp add: CHash256_Finalize_def case_prod_unfold)

lemma new_write_repr:
  assumes "length buf = 64"
  shows "ctx_repr 64 sha256_Transform1 sha256_Initialize (CSHA256_Write (CSHA256_new buf) a) a"
    and "ctx_repr 64 sha256_Transform1 sha256_Initialize (CSHA256_Write (CSHA256_Write (CSHA256_new buf) a) b) (a @ b)"
  using CSHA256_writes_repr [OF assms, of "[a]"] CSHA256_writes_repr [OF assms, of "[a, b]"] by simp_all

lemma Hash160_eq:
  assumes "\<And>i. length (junk i) = 64"
  shows "Hash160 junk a = Inr (ref_ripemd160 (fips_sha256 a))"
  using CRIPEMD160_hash [OF assms, of "[fips_sha256 a]" 1] CSHA256_Finalize_repr [OF new_write_repr(1) [OF assms]]
  by (simp add: Hash160_def CHash160_Finalize_def CHash160_Write_def case_prod_unfold)

text \<open>
  The hash helpers compute what they are named for: \<^verbatim>\<open>Hash\<close> of one or two objects and
  \<^verbatim>\<open>HashWriter::GetHash\<close> the double SHA-256 of the concatenated bytes, \<^verbatim>\<open>Hash160\<close> RIPEMD-160 of SHA-256,
  \<^verbatim>\<open>TaggedHash\<close> a writer primed with the tag digest twice, and a \<^verbatim>\<open>Finalize\<close> into a span of the wrong
  size fails its assertion instead of writing.
\<close>

theorem hash_helpers_correct:
  assumes "\<forall>i. length (junk i) = 64"
  shows "Hash1 junk a = Inr (fips_sha256 (fips_sha256 a)) \<and>
    Hash2 junk a b = Inr (fips_sha256 (fips_sha256 (a @ b))) \<and>
    Hash160 junk a = Inr (ref_ripemd160 (fips_sha256 a)) \<and>
    RIPEMD160 junk a = ref_ripemd160 a \<and>
    fst (GetHash (fold (\<lambda>d c. HashWriter_write c d) ds (CSHA256_new (junk 0)))) =
      fips_sha256 (fips_sha256 (concat ds)) \<and>
    fst (GetSHA256 (HashWriter_write (TaggedHash junk tag) msg)) =
      fips_sha256 (fips_sha256 tag @ fips_sha256 tag @ msg) \<and>
    (n \<noteq> 32 \<longrightarrow> CHash256_Finalize ctx n = Inl Assert_failed)"
proof -
  have j: "length (junk i) = 64" for i using assms by simp
  have "fst (GetSHA256 (HashWriter_write (TaggedHash junk tag) msg)) =
      fips_sha256 (fips_sha256 tag @ fips_sha256 tag @ msg)"
    using CSHA256_hash [OF j, of "[fips_sha256 tag, fips_sha256 tag, msg]" 0]
    by (simp add: TaggedHash_def HashWriter_write_def GetSHA256_def Let_def sha256_class.digest1 [OF j])
  moreover have "fst (GetHash (fold (\<lambda>d c. HashWriter_write c d) ds (CSHA256_new (junk 0)))) =
      fips_sha256 (fips_sha256 (concat ds))"
    using GetHash_repr [OF CSHA256_writes_repr [OF j]] by (simp add: HashWriter_write_def)
  ultimately show ?thesis
    using CHash256_repr [OF new_write_repr(1) [OF j]] CHash256_repr [OF new_write_repr(2) [OF j]]
      Hash160_eq [OF j] CRIPEMD160_hash [OF j, of "[a]" 0]
    by (simp add: Hash1_def Hash2_def CHash256_Write_def RIPEMD160_def) (simp add: CHash256_Finalize_def)
qed

theorem hash_helpers_correct_witness:
  "Hash2 (\<lambda>_. replicate 64 0) [1] [2, 3] = Inr (fips_sha256 (fips_sha256 [1, 2, 3])) \<and>
   CHash256_Finalize (CSHA256_new []) 20 = Inl Assert_failed"
  using hash_helpers_correct [of "\<lambda>_. replicate 64 0" "[1]" "[2, 3]" "[]" "[]" "[]" 20 "CSHA256_new []"]
  by simp

text \<open>
  C31: \<^verbatim>\<open>CHMAC_SHA256\<close> and \<^verbatim>\<open>CHMAC_SHA512\<close> compute HMAC of RFC 2104 for keys of every length, with the
  message written in any pieces, and \<^verbatim>\<open>CHKDF_HMAC_SHA256_L32\<close> is HKDF of RFC 5869 for 32 bytes of
  output: extract with the salt as key, expand with the info and the counter byte one, refused by
  the assertion when the info is longer than 128 bytes.
\<close>

theorem hmac_hkdf_correct:
  assumes "\<forall>i. length (junk i) = 64" "\<forall>i. length (junk' i) = 128"
    "length key < 2 ^ 61" "128 + length (concat ds) < 2 ^ 61"
  shows "fst (CHMAC_SHA256_Finalize (fold (\<lambda>d h. CHMAC_SHA256_Write h d) ds (CHMAC_SHA256_new junk key))) =
      rfc_hmac fips_sha256 64 key (concat ds) \<and>
    fst (CHMAC_SHA512_Finalize (fold (\<lambda>d h. CHMAC_SHA512_Write h d) ds (CHMAC_SHA512_new junk' key))) =
      rfc_hmac fips_sha512 128 key (concat ds) \<and>
    Expand32 junk (CHKDF_new junk ikm salt) info =
      (if length info \<le> 128
       then Inr (rfc_hmac fips_sha256 64 (rfc_hmac fips_sha256 64 salt ikm) (info @ [1]))
       else Inl Assert_failed)"
proof -
  have h: "fst (CHMAC_SHA256_Finalize (fold (\<lambda>d h. CHMAC_SHA256_Write h d) es (CHMAC_SHA256_new junk k))) =
      rfc_hmac fips_sha256 64 k (concat es)" for es k
    using sha256_class.hmac_rfc [where junk = junk and key = k and ds = es] assms(1)
    by (simp add: CHMAC_SHA256_Finalize_def CHMAC_SHA256_Write_def CHMAC_SHA256_new_def)
  moreover have "fst (CHMAC_SHA512_Finalize (fold (\<lambda>d h. CHMAC_SHA512_Write h d) ds (CHMAC_SHA512_new junk' key))) =
      rfc_hmac fips_sha512 128 key (concat ds)"
    using sha512_class.hmac_rfc [where junk = junk' and key = key and ds = ds] assms(2-4)
    by (simp add: CHMAC_SHA512_Finalize_def CHMAC_SHA512_Write_def CHMAC_SHA512_new_def)
  ultimately show ?thesis
    using h [of "[ikm]" salt] h [of "[info, [1]]"] by (simp add: CHKDF_new_def Expand32_def)
qed

theorem hmac_hkdf_correct_witness:
  "fst (CHMAC_SHA256_Finalize (CHMAC_SHA256_Write (CHMAC_SHA256_new (\<lambda>_. replicate 64 0) [7]) [1, 2])) =
     rfc_hmac fips_sha256 64 [7] [1, 2] \<and>
   Expand32 (\<lambda>_. replicate 64 0) (CHKDF_new (\<lambda>_. replicate 64 0) [1] [2]) (replicate 129 0) = Inl Assert_failed"
  using hmac_hkdf_correct [of "\<lambda>_. replicate 64 0" "\<lambda>_. replicate 128 0" "[7]" "[[1, 2]]" "[1]" "[2]"
      "replicate 129 0"]
  by simp

text \<open>
  C30: \<^verbatim>\<open>CSHA512\<close>, \<^verbatim>\<open>CSHA1\<close> and \<^verbatim>\<open>CRIPEMD160\<close> compute SHA-512, SHA-1 and RIPEMD-160 of the bytes written,
  however they are cut into \<^verbatim>\<open>Write\<close> calls; for SHA-512 the message is shorter than \<^verbatim>\<open>2^61\<close> bytes,
  because the class writes only the low half of the 128-bit length field.
\<close>

theorem hash_classes_streaming:
  assumes "length buf = 64" "length buf' = 128" "length (concat ds) < 2 ^ 61"
  shows "fst (CSHA512_Finalize (fold (\<lambda>d c. CSHA512_Write c d) ds (CSHA512_new buf'))) = fips_sha512 (concat ds) \<and>
    fst (CSHA1_Finalize (fold (\<lambda>d c. CSHA1_Write c d) ds (CSHA1_new buf))) = fips_sha1 (concat ds) \<and>
    fst (CRIPEMD160_Finalize (fold (\<lambda>d c. CRIPEMD160_Write c d) ds (CRIPEMD160_new buf))) =
      ref_ripemd160 (concat ds)"
  using CSHA512_hash [OF assms(2,3)] CSHA1_hash [OF assms(1)] CRIPEMD160_hash [OF assms(1)] by blast

theorem hash_classes_streaming_witness:
  "fst (CSHA1_Finalize (CSHA1_Write (CSHA1_Write (CSHA1_new (replicate 64 0)) [97]) [98, 99])) =
     fips_sha1 [97, 98, 99] \<and>
   fst (CRIPEMD160_Finalize (CRIPEMD160_Write (CRIPEMD160_Write (CRIPEMD160_new (replicate 64 0)) [97]) [98, 99])) =
     ref_ripemd160 [97, 98, 99]"
  using hash_classes_streaming [of "replicate 64 0" "replicate 128 0" "[[97], [98, 99]]"] by simp

section \<open>A verifier hashes exactly what it consumes\<close>

text \<open>The bytes between a start content and the current one are the ones in the hash.\<close>

definition hv_consumed :: "('s \<Rightarrow> bytes) \<Rightarrow> bytes \<Rightarrow> 's hash_stream \<Rightarrow> bytes \<Rightarrow> bool" where
  "hv_consumed content start hv m \<longleftrightarrow>
     ctx_repr 64 sha256_Transform1 sha256_Initialize (hs_ctx hv) m \<and> start = m @ content (m_source hv)"

lemma HashVerifier_read_consumed:
  assumes "reader_ok content rd" "hv_consumed content start hv m" "HashVerifier_read rd hv n = Inr (d, hv')"
  shows "hv_consumed content start hv' (m @ d) \<and> length d = n"
proof -
  obtain src where r: "rd (m_source hv) n = Inr (d, src)"
    and hv': "hv' = hv\<lparr>m_source := src, hs_ctx := HashWriter_write (hs_ctx hv) d\<rparr>"
    using assms(3) by (auto simp: HashVerifier_read_def)
  have "content (m_source hv) = d @ content src \<and> length d = n"
    using assms(1) r by (simp add: reader_ok_def)
  thus ?thesis
    using assms(2) csha256.write_repr [of "hs_ctx hv" m d]
    by (simp add: hv_consumed_def hv' HashWriter_write_def CSHA256_Write_def)
qed

lemma HashVerifier_ignore_consumed:
  assumes "reader_ok content rd"
  shows "hv_consumed content start hv m \<Longrightarrow> HashVerifier_ignore rd hv n = Inr hv' \<Longrightarrow>
    \<exists>d. length d = n \<and> hv_consumed content start hv' (m @ d)"
proof (induction n arbitrary: hv m rule: less_induct)
  case (less n)
  show ?case
  proof (cases "n = 0")
    case True
    thus ?thesis using less.prems by (auto simp: HashVerifier_ignore.simps)
  next
    case False
    then obtain d hv1 where d: "HashVerifier_read rd hv (min n 1024) = Inr (d, hv1)"
      "HashVerifier_ignore rd hv1 (n - min n 1024) = Inr hv'"
      using less.prems(2) by (subst (asm) HashVerifier_ignore.simps) (auto simp: Let_def)
    note c = HashVerifier_read_consumed [OF assms less.prems(1) d(1)]
    obtain e where "length e = n - min n 1024" "hv_consumed content start hv' ((m @ d) @ e)"
      using less.IH [OF _ conjunct1 [OF c] d(2)] False by auto
    thus ?thesis using c by (intro exI [of _ "d @ e"]) simp
  qed
qed

text \<open>
  A \<^verbatim>\<open>HashVerifier\<close> over any stream that reads its content in order hashes exactly the bytes
  consumed: after a read and an \<^verbatim>\<open>ignore\<close> of any length, which skips in pieces of 1024 bytes, the
  SHA-256 it reports is that of the prefix of the content that is gone.
\<close>

theorem HashVerifier_hashes_consumed:
  assumes "reader_ok content rd" "length buf = 64"
    "HashVerifier_read rd \<lparr>hs_ctx = CSHA256_new buf, m_source = s\<rparr> n = Inr (d, hv)"
    "HashVerifier_ignore rd hv k = Inr hv'"
  shows "\<exists>m. length m = n + k \<and> content s = m @ content (m_source hv') \<and>
    fst (GetSHA256 (hs_ctx hv')) = fips_sha256 m \<and> fst (GetHash (hs_ctx hv')) = fips_sha256 (fips_sha256 m)"
proof -
  have "hv_consumed content (content s) \<lparr>hs_ctx = CSHA256_new buf, m_source = s\<rparr> []"
    using CSHA256_writes_repr [OF assms(2), of "[]"] by (simp add: hv_consumed_def)
  from HashVerifier_read_consumed [OF assms(1) this assms(3)]
  have 1: "hv_consumed content (content s) hv d" "length d = n" by simp_all
  then obtain e where "length e = k" "hv_consumed content (content s) hv' (d @ e)"
    using HashVerifier_ignore_consumed [OF assms(1) 1(1) assms(4)] by blast
  thus ?thesis
    using 1(2) by (intro exI [of _ "d @ e"])
      (simp add: hv_consumed_def GetSHA256_def CSHA256_Finalize_repr GetHash_repr)
qed

text \<open>A stream over a byte list, as the memory readers of the node are.\<close>

definition list_reader :: "bytes \<Rightarrow> nat \<Rightarrow> (bytes \<times> bytes) result" where
  "list_reader s n = (if n \<le> length s then Inr (take n s, drop n s) else Inl (Thrown ''end of data''))"

theorem HashVerifier_hashes_consumed_witness:
  "\<exists>m (hv' :: bytes hash_stream). length m = 1 + 2 \<and> [5, 6, 7, 8] = m @ m_source hv' \<and>
     fst (GetSHA256 (hs_ctx hv')) = fips_sha256 m"
proof -
  let ?hv = "\<lparr>hs_ctx = CSHA256_new (replicate 64 0), m_source = [5, 6, 7, 8]\<rparr>"
  have 1: "reader_ok (\<lambda>s. s) list_reader" by (auto simp: reader_ok_def list_reader_def split: if_splits)
  have 2: "\<exists>hv. HashVerifier_read list_reader ?hv 1 = Inr ([5], hv) \<and> m_source hv = [6, 7, 8]"
    by (simp add: HashVerifier_read_def list_reader_def)
  then obtain hv where hv: "HashVerifier_read list_reader ?hv 1 = Inr ([5], hv)" "m_source hv = [6, 7, 8]"
    by blast
  hence "\<exists>hv'. HashVerifier_ignore list_reader hv 2 = Inr hv'"
    by (simp add: HashVerifier_ignore.simps HashVerifier_read_def list_reader_def)
  then obtain hv' where "HashVerifier_ignore list_reader hv 2 = Inr hv'" by blast
  from HashVerifier_hashes_consumed [OF 1 _ hv(1) this]
  have "\<exists>m. length m = 1 + 2 \<and> [5, 6, 7, 8] = m @ m_source hv' \<and> fst (GetSHA256 (hs_ctx hv')) = fips_sha256 m"
    by (simp only: length_replicate) blast
  thus ?thesis by blast
qed

end
