(* ===== verification/Coins.thy ===== *)
theory Coins
  imports Prelude "HOL-Library.AList"
begin

text \<open>
  The unspent-output cache of \<^verbatim>\<open>coins.h\<close> and \<^verbatim>\<open>coins.cpp\<close>. A \<^verbatim>\<open>CCoinsViewCache\<close> is its map, the block
  hash, the memory counter and the state of the view below it; the map is an association list in
  the order in which it is iterated. Transaction outputs come from code outside the sources, so
  their null test, their script test and their memory use are arguments.
\<close>

section \<open>Coins and cache entries\<close>

type_synonym uint256 = bytes
type_synonym outpoint = "bytes \<times> nat"

record 'o txout_ops =
  out_IsNull :: "'o \<Rightarrow> bool"
  out_null :: 'o
  out_IsUnspendable :: "'o \<Rightarrow> bool"
  out_DynamicUsage :: "'o \<Rightarrow> u64"

text \<open>What the cache relies on: \<^verbatim>\<open>SetNull\<close> makes an output null and frees its script.\<close>

definition txout_ok :: "'o txout_ops \<Rightarrow> bool" where
  "txout_ok T \<longleftrightarrow> out_IsNull T (out_null T) \<and> out_DynamicUsage T (out_null T) = 0"

record 'o Coin =
  coin_out :: 'o
  fCoinBase :: bool
  coin_nHeight :: "31 word"

definition make_Coin :: "'o \<Rightarrow> int \<Rightarrow> bool \<Rightarrow> 'o Coin" where
  "make_Coin outIn nHeightIn fCoinBaseIn =
     \<lparr>coin_out = outIn, fCoinBase = fCoinBaseIn, coin_nHeight = of_int nHeightIn\<rparr>"

definition coinEmpty :: "'o txout_ops \<Rightarrow> 'o Coin" where
  "coinEmpty T = \<lparr>coin_out = out_null T, fCoinBase = False, coin_nHeight = 0\<rparr>"

definition Coin_Clear :: "'o txout_ops \<Rightarrow> 'o Coin \<Rightarrow> 'o Coin" where
  "Coin_Clear T c = c\<lparr>coin_out := out_null T, fCoinBase := False, coin_nHeight := 0\<rparr>"

definition IsSpent :: "'o txout_ops \<Rightarrow> 'o Coin \<Rightarrow> bool" where
  "IsSpent T c = out_IsNull T (coin_out c)"

definition Coin_DynamicMemoryUsage :: "'o txout_ops \<Rightarrow> 'o Coin \<Rightarrow> u64" where
  "Coin_DynamicMemoryUsage T c = out_DynamicUsage T (coin_out c)"

text \<open>The two bits of \<^verbatim>\<open>flags\<close>, as the set of the bits that are on.\<close>

datatype coin_flag = DIRTY | FRESH

record 'o CCoinsCacheEntry =
  coin :: "'o Coin"
  flags :: "coin_flag set"

type_synonym 'o CCoinsMap = "(outpoint \<times> 'o CCoinsCacheEntry) list"

section \<open>Views\<close>

text \<open>
  The virtual functions of \<^verbatim>\<open>CCoinsView\<close> over a state of the view. \<^verbatim>\<open>BatchWrite\<close> also returns what is
  left of the caller's map.
\<close>

record ('b, 'o) coins_view_ops =
  view_GetCoin :: "'b \<Rightarrow> outpoint \<Rightarrow> 'o Coin option \<times> 'b"
  view_GetBestBlock :: "'b \<Rightarrow> uint256 \<times> 'b"
  view_BatchWrite :: "'b \<Rightarrow> 'o CCoinsMap \<Rightarrow> uint256 \<Rightarrow> bool \<Rightarrow> 'o CCoinsMap \<times> 'b \<times> bool result"

text \<open>The default implementations, and a view that passes every call to another one.\<close>

definition CCoinsView_default :: "('b, 'o) coins_view_ops" where
  "CCoinsView_default =
     \<lparr>view_GetCoin = (\<lambda>b k. (None, b)), view_GetBestBlock = (\<lambda>b. (replicate 32 0, b)),
      view_BatchWrite = (\<lambda>b mapCoins h erase. (mapCoins, b, Inr False))\<rparr>"

definition CCoinsViewBacked :: "('b, 'o) coins_view_ops \<Rightarrow> ('b, 'o) coins_view_ops" where
  "CCoinsViewBacked V =
     \<lparr>view_GetCoin = (\<lambda>b k. view_GetCoin V b k), view_GetBestBlock = (\<lambda>b. view_GetBestBlock V b),
      view_BatchWrite = (\<lambda>b mapCoins h erase. view_BatchWrite V b mapCoins h erase)\<rparr>"

record ('b, 'o) CCoinsViewCache =
  base :: 'b
  hashBlock :: uint256
  cacheCoins :: "'o CCoinsMap"
  cachedCoinsUsage :: u64

definition CCoinsViewCache_new :: "'b \<Rightarrow> ('b, 'o) CCoinsViewCache" where
  "CCoinsViewCache_new baseIn =
     \<lparr>base = baseIn, hashBlock = replicate 32 0, cacheCoins = [], cachedCoinsUsage = 0\<rparr>"

section \<open>The cache\<close>

definition FetchCoin ::
    "'o txout_ops \<Rightarrow> ('b, 'o) coins_view_ops \<Rightarrow> ('b, 'o) CCoinsViewCache \<Rightarrow> outpoint \<Rightarrow>
     'o CCoinsCacheEntry option \<times> ('b, 'o) CCoinsViewCache" where
  "FetchCoin T V c k =
     (case map_of (cacheCoins c) k of
        Some e \<Rightarrow> (Some e, c)
      | None \<Rightarrow>
          (case view_GetCoin V (base c) k of
             (None, b) \<Rightarrow> (None, c\<lparr>base := b\<rparr>)
           | (Some tmp, b) \<Rightarrow>
               let ret = \<lparr>coin = tmp, flags = (if IsSpent T tmp then {FRESH} else {})\<rparr>
               in (Some ret, c\<lparr>base := b, cacheCoins := AList.update k ret (cacheCoins c),
                     cachedCoinsUsage := cachedCoinsUsage c + Coin_DynamicMemoryUsage T (coin ret)\<rparr>)))"

definition GetCoin ::
    "'o txout_ops \<Rightarrow> ('b, 'o) coins_view_ops \<Rightarrow> ('b, 'o) CCoinsViewCache \<Rightarrow> outpoint \<Rightarrow>
     'o Coin option \<times> ('b, 'o) CCoinsViewCache" where
  "GetCoin T V c k =
     (case FetchCoin T V c k of
        (Some e, c) \<Rightarrow> ((if \<not> IsSpent T (coin e) then Some (coin e) else None), c)
      | (None, c) \<Rightarrow> (None, c))"

text \<open>The second component is the exception that \<^verbatim>\<open>AddCoin\<close> leaves with, if it does.\<close>

definition AddCoin ::
    "'o txout_ops \<Rightarrow> ('b, 'o) CCoinsViewCache \<Rightarrow> outpoint \<Rightarrow> 'o Coin \<Rightarrow> bool \<Rightarrow>
     ('b, 'o) CCoinsViewCache \<times> unit result" where
  "AddCoin T c k coin_in possible_overwrite =
     (if IsSpent T coin_in then (c, Inl Assert_failed)
      else if out_IsUnspendable T (coin_out coin_in) then (c, Inr ())
      else
        let inserted = (map_of (cacheCoins c) k = None);
            e = (case map_of (cacheCoins c) k of Some e \<Rightarrow> e | None \<Rightarrow> \<lparr>coin = coinEmpty T, flags = {}\<rparr>);
            c = c\<lparr>cacheCoins := AList.update k e (cacheCoins c)\<rparr>;
            c = (if inserted then c
                 else c\<lparr>cachedCoinsUsage := cachedCoinsUsage c - Coin_DynamicMemoryUsage T (coin e)\<rparr>)
        in if \<not> possible_overwrite \<and> \<not> IsSpent T (coin e)
           then (c, Inl (Thrown ''Attempted to overwrite an unspent coin (when possible_overwrite is false)''))
           else
             let fresh = (\<not> possible_overwrite \<and> DIRTY \<notin> flags e);
                 e = \<lparr>coin = coin_in, flags = flags e \<union> {DIRTY} \<union> (if fresh then {FRESH} else {})\<rparr>
             in (c\<lparr>cacheCoins := AList.update k e (cacheCoins c),
                   cachedCoinsUsage := cachedCoinsUsage c + Coin_DynamicMemoryUsage T (coin e)\<rparr>, Inr ()))"

definition EmplaceCoinInternalDANGER ::
    "'o txout_ops \<Rightarrow> ('b, 'o) CCoinsViewCache \<Rightarrow> outpoint \<Rightarrow> 'o Coin \<Rightarrow> ('b, 'o) CCoinsViewCache" where
  "EmplaceCoinInternalDANGER T c k coin_in =
     (let c = c\<lparr>cachedCoinsUsage := cachedCoinsUsage c + Coin_DynamicMemoryUsage T coin_in\<rparr>
      in if map_of (cacheCoins c) k = None
         then c\<lparr>cacheCoins := AList.update k \<lparr>coin = coin_in, flags = {DIRTY}\<rparr> (cacheCoins c)\<rparr>
         else c)"

definition SpendCoin ::
    "'o txout_ops \<Rightarrow> ('b, 'o) coins_view_ops \<Rightarrow> ('b, 'o) CCoinsViewCache \<Rightarrow> outpoint \<Rightarrow>
     (bool \<times> 'o Coin option) \<times> ('b, 'o) CCoinsViewCache" where
  "SpendCoin T V c k =
     (case FetchCoin T V c k of
        (None, c) \<Rightarrow> ((False, None), c)
      | (Some e, c) \<Rightarrow>
          let usage = cachedCoinsUsage c - Coin_DynamicMemoryUsage T (coin e);
              moveout = coin e
          in if FRESH \<in> flags e
             then ((True, Some moveout),
                   c\<lparr>cacheCoins := AList.delete k (cacheCoins c), cachedCoinsUsage := usage\<rparr>)
             else ((True, Some moveout),
                   c\<lparr>cacheCoins := AList.update k
                        \<lparr>coin = Coin_Clear T (coin e), flags = flags e \<union> {DIRTY}\<rparr> (cacheCoins c),
                     cachedCoinsUsage := usage\<rparr>))"

definition AccessCoin ::
    "'o txout_ops \<Rightarrow> ('b, 'o) coins_view_ops \<Rightarrow> ('b, 'o) CCoinsViewCache \<Rightarrow> outpoint \<Rightarrow>
     'o Coin \<times> ('b, 'o) CCoinsViewCache" where
  "AccessCoin T V c k =
     (case FetchCoin T V c k of (None, c) \<Rightarrow> (coinEmpty T, c) | (Some e, c) \<Rightarrow> (coin e, c))"

definition HaveCoin ::
    "'o txout_ops \<Rightarrow> ('b, 'o) coins_view_ops \<Rightarrow> ('b, 'o) CCoinsViewCache \<Rightarrow> outpoint \<Rightarrow>
     bool \<times> ('b, 'o) CCoinsViewCache" where
  "HaveCoin T V c k =
     (case FetchCoin T V c k of (None, c) \<Rightarrow> (False, c) | (Some e, c) \<Rightarrow> (\<not> IsSpent T (coin e), c))"

definition HaveCoinInCache :: "'o txout_ops \<Rightarrow> ('b, 'o) CCoinsViewCache \<Rightarrow> outpoint \<Rightarrow> bool" where
  "HaveCoinInCache T c k =
     (case map_of (cacheCoins c) k of None \<Rightarrow> False | Some e \<Rightarrow> \<not> IsSpent T (coin e))"

definition GetBestBlock ::
    "('b, 'o) coins_view_ops \<Rightarrow> ('b, 'o) CCoinsViewCache \<Rightarrow> uint256 \<times> ('b, 'o) CCoinsViewCache" where
  "GetBestBlock V c =
     (if hashBlock c = replicate 32 0
      then let (h, b) = view_GetBestBlock V (base c) in (h, c\<lparr>base := b, hashBlock := h\<rparr>)
      else (hashBlock c, c))"

definition SetBestBlock :: "('b, 'o) CCoinsViewCache \<Rightarrow> uint256 \<Rightarrow> ('b, 'o) CCoinsViewCache" where
  "SetBestBlock c h = c\<lparr>hashBlock := h\<rparr>"

section \<open>Adding and checking transactions\<close>

record 'o CTransaction =
  tx_GetHash :: bytes
  tx_IsCoinBase :: bool
  tx_prevouts :: "outpoint list"
  tx_vout :: "'o list"

text \<open>The loop over the outputs from index \<^verbatim>\<open>i\<close>; an exception ends it.\<close>

primrec AddCoins_loop ::
    "'o txout_ops \<Rightarrow> ('b, 'o) coins_view_ops \<Rightarrow> 'o CTransaction \<Rightarrow> int \<Rightarrow> bool \<Rightarrow> 'o list \<Rightarrow> nat \<Rightarrow>
     ('b, 'o) CCoinsViewCache \<Rightarrow> ('b, 'o) CCoinsViewCache \<times> unit result" where
  "AddCoins_loop T V tx nHeight check [] i c = (c, Inr ())"
| "AddCoins_loop T V tx nHeight check (o1 # os) i c =
     (let k = (tx_GetHash tx, i);
          (ow, c) = (if check then HaveCoin T V c k else (tx_IsCoinBase tx, c))
      in case AddCoin T c k (make_Coin o1 nHeight (tx_IsCoinBase tx)) ow of
           (c, Inl x) \<Rightarrow> (c, Inl x)
         | (c, Inr _) \<Rightarrow> AddCoins_loop T V tx nHeight check os (Suc i) c)"

definition AddCoins ::
    "'o txout_ops \<Rightarrow> ('b, 'o) coins_view_ops \<Rightarrow> ('b, 'o) CCoinsViewCache \<Rightarrow> 'o CTransaction \<Rightarrow> int \<Rightarrow> bool \<Rightarrow>
     ('b, 'o) CCoinsViewCache \<times> unit result" where
  "AddCoins T V c tx nHeight check = AddCoins_loop T V tx nHeight check (tx_vout tx) 0 c"

primrec HaveInputs_loop ::
    "'o txout_ops \<Rightarrow> ('b, 'o) coins_view_ops \<Rightarrow> outpoint list \<Rightarrow> ('b, 'o) CCoinsViewCache \<Rightarrow>
     bool \<times> ('b, 'o) CCoinsViewCache" where
  "HaveInputs_loop T V [] c = (True, c)"
| "HaveInputs_loop T V (k # ks) c =
     (let (h, c) = HaveCoin T V c k in if h then HaveInputs_loop T V ks c else (False, c))"

definition HaveInputs ::
    "'o txout_ops \<Rightarrow> ('b, 'o) coins_view_ops \<Rightarrow> ('b, 'o) CCoinsViewCache \<Rightarrow> 'o CTransaction \<Rightarrow>
     bool \<times> ('b, 'o) CCoinsViewCache" where
  "HaveInputs T V c tx =
     (if \<not> tx_IsCoinBase tx then HaveInputs_loop T V (tx_prevouts tx) c else (True, c))"

text \<open>\<^verbatim>\<open>max_outputs\<close> is \<^verbatim>\<open>MAX_OUTPUTS_PER_BLOCK\<close>, computed from the serialised size of an output.\<close>

function AccessByTxid_loop ::
    "nat \<Rightarrow> 'o txout_ops \<Rightarrow> ('b, 'o) coins_view_ops \<Rightarrow> bytes \<Rightarrow> nat \<Rightarrow> ('b, 'o) CCoinsViewCache \<Rightarrow>
     'o Coin \<times> ('b, 'o) CCoinsViewCache" where
  "AccessByTxid_loop max_outputs T V txid n c =
     (if n < max_outputs then
        let (alternate, c) = AccessCoin T V c (txid, n)
        in if \<not> IsSpent T alternate then (alternate, c)
           else AccessByTxid_loop max_outputs T V txid (Suc n) c
      else (coinEmpty T, c))"

  by pat_completeness auto
termination
  by (relation "measure (\<lambda>(max_outputs, T, V, txid, n, c). max_outputs - n)") auto

declare AccessByTxid_loop.simps [simp del]

definition AccessByTxid ::
    "nat \<Rightarrow> 'o txout_ops \<Rightarrow> ('b, 'o) coins_view_ops \<Rightarrow> ('b, 'o) CCoinsViewCache \<Rightarrow> bytes \<Rightarrow>
     'o Coin \<times> ('b, 'o) CCoinsViewCache" where
  "AccessByTxid max_outputs T V c txid = AccessByTxid_loop max_outputs T V txid 0 c"

section \<open>Writing to the view below\<close>

text \<open>One dirty entry of the child written into this cache.\<close>

definition BatchWrite_entry ::
    "'o txout_ops \<Rightarrow> ('b, 'o) CCoinsViewCache \<Rightarrow> outpoint \<Rightarrow> 'o CCoinsCacheEntry \<Rightarrow>
     ('b, 'o) CCoinsViewCache \<times> unit result" where
  "BatchWrite_entry T c k it =
     (if DIRTY \<notin> flags it then (c, Inr ())
      else case map_of (cacheCoins c) k of
        None \<Rightarrow>
          if \<not> (FRESH \<in> flags it \<and> IsSpent T (coin it))
          then let entry = \<lparr>coin = coin it, flags = {DIRTY} \<union> (if FRESH \<in> flags it then {FRESH} else {})\<rparr>
               in (c\<lparr>cacheCoins := AList.update k entry (cacheCoins c),
                     cachedCoinsUsage := cachedCoinsUsage c + Coin_DynamicMemoryUsage T (coin entry)\<rparr>, Inr ())
          else (c, Inr ())
      | Some itUs \<Rightarrow>
          if FRESH \<in> flags it \<and> \<not> IsSpent T (coin itUs)
          then (c, Inl (Thrown ''FRESH flag misapplied to coin that exists in parent cache''))
          else if FRESH \<in> flags itUs \<and> IsSpent T (coin it)
          then (c\<lparr>cacheCoins := AList.delete k (cacheCoins c),
                  cachedCoinsUsage := cachedCoinsUsage c - Coin_DynamicMemoryUsage T (coin itUs)\<rparr>, Inr ())
          else (c\<lparr>cacheCoins := AList.update k \<lparr>coin = coin it, flags = flags itUs \<union> {DIRTY}\<rparr> (cacheCoins c),
                  cachedCoinsUsage := cachedCoinsUsage c - Coin_DynamicMemoryUsage T (coin itUs) +
                    Coin_DynamicMemoryUsage T (coin it)\<rparr>, Inr ()))"

text \<open>The loop returns what is left of the child's map when it ends or throws.\<close>

primrec BatchWrite_loop ::
    "'o txout_ops \<Rightarrow> bool \<Rightarrow> 'o CCoinsMap \<Rightarrow> ('b, 'o) CCoinsViewCache \<Rightarrow>
     'o CCoinsMap \<times> ('b, 'o) CCoinsViewCache \<times> unit result" where
  "BatchWrite_loop T erase [] c = ([], c, Inr ())"
| "BatchWrite_loop T erase (x # xs) c =
     (case BatchWrite_entry T c (fst x) (snd x) of
        (c, Inl err) \<Rightarrow> (x # xs, c, Inl err)
      | (c, Inr _) \<Rightarrow>
          (case BatchWrite_loop T erase xs c of
             (rest, c, r) \<Rightarrow> ((if erase then rest else x # rest), c, r)))"

definition BatchWrite ::
    "'o txout_ops \<Rightarrow> ('b, 'o) CCoinsViewCache \<Rightarrow> 'o CCoinsMap \<Rightarrow> uint256 \<Rightarrow> bool \<Rightarrow>
     'o CCoinsMap \<times> ('b, 'o) CCoinsViewCache \<times> bool result" where
  "BatchWrite T c mapCoins hashBlockIn erase =
     (case BatchWrite_loop T erase mapCoins c of
        (rest, c, Inl err) \<Rightarrow> (rest, c, Inl err)
      | (rest, c, Inr _) \<Rightarrow> (rest, c\<lparr>hashBlock := hashBlockIn\<rparr>, Inr True))"

definition Flush ::
    "('b, 'o) coins_view_ops \<Rightarrow> ('b, 'o) CCoinsViewCache \<Rightarrow> ('b, 'o) CCoinsViewCache \<times> bool result" where
  "Flush V c =
     (case view_BatchWrite V (base c) (cacheCoins c) (hashBlock c) True of
        (rest, b, Inl err) \<Rightarrow> (c\<lparr>base := b, cacheCoins := rest\<rparr>, Inl err)
      | (rest, b, Inr fOk) \<Rightarrow>
          let c = c\<lparr>base := b, cacheCoins := rest\<rparr>
          in if fOk \<and> rest \<noteq> [] then (c, Inl (Thrown ''Not all cached coins were erased''))
             else (c\<lparr>cachedCoinsUsage := 0\<rparr>, Inr fOk))"

text \<open>The loop of \<^verbatim>\<open>Sync\<close>: spent entries are dropped, the others lose their flags.\<close>

primrec Sync_loop :: "'o txout_ops \<Rightarrow> 'o CCoinsMap \<Rightarrow> u64 \<Rightarrow> 'o CCoinsMap \<times> u64" where
  "Sync_loop T [] usage = ([], usage)"
| "Sync_loop T (x # xs) usage =
     (if IsSpent T (coin (snd x)) then Sync_loop T xs (usage - Coin_DynamicMemoryUsage T (coin (snd x)))
      else case Sync_loop T xs usage of (ys, u) \<Rightarrow> ((fst x, (snd x)\<lparr>flags := {}\<rparr>) # ys, u))"

definition Sync ::
    "'o txout_ops \<Rightarrow> ('b, 'o) coins_view_ops \<Rightarrow> ('b, 'o) CCoinsViewCache \<Rightarrow>
     ('b, 'o) CCoinsViewCache \<times> bool result" where
  "Sync T V c =
     (case view_BatchWrite V (base c) (cacheCoins c) (hashBlock c) False of
        (rest, b, Inl err) \<Rightarrow> (c\<lparr>base := b, cacheCoins := rest\<rparr>, Inl err)
      | (rest, b, Inr fOk) \<Rightarrow>
          (case Sync_loop T rest (cachedCoinsUsage c) of
             (m, u) \<Rightarrow> (c\<lparr>base := b, cacheCoins := m, cachedCoinsUsage := u\<rparr>, Inr fOk)))"

definition Uncache ::
    "'o txout_ops \<Rightarrow> ('b, 'o) CCoinsViewCache \<Rightarrow> outpoint \<Rightarrow> ('b, 'o) CCoinsViewCache" where
  "Uncache T c k =
     (case map_of (cacheCoins c) k of
        None \<Rightarrow> c
      | Some e \<Rightarrow>
          if flags e = {}
          then c\<lparr>cacheCoins := AList.delete k (cacheCoins c),
                 cachedCoinsUsage := cachedCoinsUsage c - Coin_DynamicMemoryUsage T (coin e)\<rparr>
          else c)"

definition GetCacheSize :: "('b, 'o) CCoinsViewCache \<Rightarrow> nat" where
  "GetCacheSize c = length (cacheCoins c)"

definition entry_attr :: "'o txout_ops \<Rightarrow> 'o CCoinsCacheEntry \<Rightarrow> nat" where
  "entry_attr T e =
     (if DIRTY \<in> flags e then 1 else 0) + (if FRESH \<in> flags e then 2 else 0) +
     (if IsSpent T (coin e) then 4 else 0)"

primrec SanityCheck_loop :: "'o txout_ops \<Rightarrow> 'o CCoinsMap \<Rightarrow> u64 \<Rightarrow> u64 result" where
  "SanityCheck_loop T [] recomputed_usage = Inr recomputed_usage"
| "SanityCheck_loop T (x # xs) recomputed_usage =
     (let attr = entry_attr T (snd x)
      in rbind (cpp_assert (attr \<noteq> 2 \<and> attr \<noteq> 4 \<and> attr \<noteq> 7)) (\<lambda>_.
           SanityCheck_loop T xs (recomputed_usage + Coin_DynamicMemoryUsage T (coin (snd x)))))"

definition SanityCheck :: "'o txout_ops \<Rightarrow> ('b, 'o) CCoinsViewCache \<Rightarrow> unit result" where
  "SanityCheck T c =
     rbind (SanityCheck_loop T (cacheCoins c) 0) (\<lambda>recomputed_usage.
       cpp_assert (recomputed_usage = cachedCoinsUsage c))"

text \<open>A cache seen through the interface of a view.\<close>

definition cache_view ::
    "'o txout_ops \<Rightarrow> ('b, 'o) coins_view_ops \<Rightarrow> (('b, 'o) CCoinsViewCache, 'o) coins_view_ops" where
  "cache_view T V =
     \<lparr>view_GetCoin = GetCoin T V, view_GetBestBlock = GetBestBlock V, view_BatchWrite = BatchWrite T\<rparr>"

end
