(* ===== verification/Coins_View.thy ===== *)
theory Coins_View
  imports Coins
begin

text \<open>
  What a view of the unspent outputs promises, as a locale, and that a cache on top of a view is such
  a view again: every operation of the cache acts on the represented set of unspent coins as its name
  says, and keeps the invariant behind \<^verbatim>\<open>SanityCheck\<close>.
\<close>

section \<open>Represented coins\<close>

definition null_hash :: uint256 where
  "null_hash = replicate 32 0"

definition entry_value :: "'o txout_ops \<Rightarrow> 'o CCoinsCacheEntry \<Rightarrow> 'o Coin option" where
  "entry_value T e = (if IsSpent T (coin e) then None else Some (coin e))"

text \<open>A map may be written to a view with coins \<^verbatim>\<open>U\<close> when no coin it calls fresh is unspent there.\<close>

definition entries_ok :: "(outpoint \<Rightarrow> 'o Coin option) \<Rightarrow> 'o CCoinsMap \<Rightarrow> bool" where
  "entries_ok U es \<longleftrightarrow> distinct (map fst es) \<and>
     (\<forall>k e. map_of es k = Some e \<longrightarrow> DIRTY \<in> flags e \<longrightarrow> FRESH \<in> flags e \<longrightarrow> U k = None)"

definition apply_entries ::
    "'o txout_ops \<Rightarrow> 'o CCoinsMap \<Rightarrow> (outpoint \<Rightarrow> 'o Coin option) \<Rightarrow> outpoint \<Rightarrow> 'o Coin option" where
  "apply_entries T es U k =
     (case map_of es k of None \<Rightarrow> U k | Some e \<Rightarrow> if DIRTY \<in> flags e then entry_value T e else U k)"

locale coins_view =
  fixes T :: "'o txout_ops" and V :: "('b, 'o) coins_view_ops"
    and utxo :: "'b \<Rightarrow> outpoint \<Rightarrow> 'o Coin option" and ok :: "'b \<Rightarrow> bool"
  assumes get: "ok b \<Longrightarrow> view_GetCoin V b k = (r, b') \<Longrightarrow> r = utxo b k \<and> utxo b' = utxo b \<and> ok b'"
    and unspent: "ok b \<Longrightarrow> utxo b k = Some c \<Longrightarrow> \<not> IsSpent T c"
    and batch: "ok b \<Longrightarrow> entries_ok (utxo b) es \<Longrightarrow> h \<noteq> null_hash \<Longrightarrow>
      \<exists>b'. view_BatchWrite V b es h er = ((if er then [] else es), b', Inr True) \<and>
        utxo b' = apply_entries T es (utxo b) \<and> ok b'"
    and best: "ok b \<Longrightarrow> view_GetBestBlock V b = (h, b') \<Longrightarrow> utxo b' = utxo b \<and> ok b'"

section \<open>The invariant of a cache\<close>

definition map_usage :: "'o txout_ops \<Rightarrow> 'o CCoinsMap \<Rightarrow> u64" where
  "map_usage T m = (\<Sum>x\<leftarrow>m. Coin_DynamicMemoryUsage T (coin (snd x)))"

definition old_usage :: "'o txout_ops \<Rightarrow> 'o CCoinsMap \<Rightarrow> outpoint \<Rightarrow> u64" where
  "old_usage T m k = (case map_of m k of None \<Rightarrow> 0 | Some e \<Rightarrow> Coin_DynamicMemoryUsage T (coin e))"

lemma update_update [simp]: "AList.update k v (AList.update k v' m) = AList.update k v m"
  by (induction m) auto

lemma map_usage_update:
  "map_usage T (AList.update k e m) = map_usage T m - old_usage T m k + Coin_DynamicMemoryUsage T (coin e)"
  by (induction m) (auto simp: map_usage_def old_usage_def)

lemma old_usage_absent: "k \<notin> fst ` set m \<Longrightarrow> old_usage T m k = 0 \<and> AList.delete k m = m"
  by (auto simp: old_usage_def map_of_eq_None_iff [THEN iffD2] delete_idem)

lemma map_usage_delete:
  "distinct (map fst m) \<Longrightarrow> map_usage T (AList.delete k m) = map_usage T m - old_usage T m k"
proof (induction m)
  case (Cons x m)
  show ?case
  proof (cases "fst x = k")
    case True
    hence "k \<notin> fst ` set m" using Cons.prems by auto
    from old_usage_absent [OF this] show ?thesis
      using True by (cases x) (simp add: map_usage_def old_usage_def)
  next
    case False
    thus ?thesis using Cons by (cases x) (simp add: map_usage_def old_usage_def)
  qed
qed (simp add: map_usage_def old_usage_def)

definition entry_ok :: "'o txout_ops \<Rightarrow> (outpoint \<Rightarrow> 'o Coin option) \<Rightarrow> outpoint \<Rightarrow> 'o CCoinsCacheEntry \<Rightarrow> bool" where
  "entry_ok T U k e \<longleftrightarrow>
     (FRESH \<in> flags e \<longrightarrow> U k = None) \<and>
     (DIRTY \<notin> flags e \<longrightarrow> entry_value T e = U k \<and> (IsSpent T (coin e) \<longrightarrow> FRESH \<in> flags e)) \<and>
     \<not> (IsSpent T (coin e) \<and> FRESH \<in> flags e \<and> DIRTY \<in> flags e)"

definition cache_ok ::
    "'o txout_ops \<Rightarrow> ('b \<Rightarrow> outpoint \<Rightarrow> 'o Coin option) \<Rightarrow> ('b \<Rightarrow> bool) \<Rightarrow> ('b, 'o) CCoinsViewCache \<Rightarrow> bool" where
  "cache_ok T utxo ok c \<longleftrightarrow> ok (base c) \<and> distinct (map fst (cacheCoins c)) \<and>
     (\<forall>k e. map_of (cacheCoins c) k = Some e \<longrightarrow> entry_ok T (utxo (base c)) k e) \<and>
     cachedCoinsUsage c = map_usage T (cacheCoins c)"

definition cache_utxo ::
    "'o txout_ops \<Rightarrow> ('b \<Rightarrow> outpoint \<Rightarrow> 'o Coin option) \<Rightarrow> ('b, 'o) CCoinsViewCache \<Rightarrow> outpoint \<Rightarrow> 'o Coin option" where
  "cache_utxo T utxo c k =
     (case map_of (cacheCoins c) k of None \<Rightarrow> utxo (base c) k | Some e \<Rightarrow> entry_value T e)"

lemma cache_ok_entry: "cache_ok T utxo ok c \<Longrightarrow> map_of (cacheCoins c) k = Some e \<Longrightarrow> entry_ok T (utxo (base c)) k e"
  unfolding cache_ok_def by blast

text \<open>Replacing and removing one entry.\<close>

lemma cache_put:
  assumes "cache_ok T utxo ok c" "entry_ok T (utxo (base c)) k e"
    "u = cachedCoinsUsage c - old_usage T (cacheCoins c) k + Coin_DynamicMemoryUsage T (coin e)"
  shows "cache_ok T utxo ok (c\<lparr>cacheCoins := AList.update k e (cacheCoins c), cachedCoinsUsage := u\<rparr>) \<and>
    cache_utxo T utxo (c\<lparr>cacheCoins := AList.update k e (cacheCoins c), cachedCoinsUsage := u\<rparr>) =
      (cache_utxo T utxo c)(k := entry_value T e)"
  using assms by (auto simp: cache_ok_def cache_utxo_def map_usage_update update_conv' distinct_update fun_eq_iff
      cong: option.case_cong)

lemma cache_drop:
  assumes "cache_ok T utxo ok c" "u = cachedCoinsUsage c - old_usage T (cacheCoins c) k"
  shows "cache_ok T utxo ok (c\<lparr>cacheCoins := AList.delete k (cacheCoins c), cachedCoinsUsage := u\<rparr>) \<and>
    cache_utxo T utxo (c\<lparr>cacheCoins := AList.delete k (cacheCoins c), cachedCoinsUsage := u\<rparr>) =
      (cache_utxo T utxo c)(k := utxo (base c) k)"
  using assms
  by (auto simp: cache_ok_def cache_utxo_def map_usage_delete delete_conv' distinct_delete fun_eq_iff
      split: if_splits cong: option.case_cong)

lemma IsSpent_Clear [simp]: "txout_ok T \<Longrightarrow> IsSpent T (Coin_Clear T c)"
  "txout_ok T \<Longrightarrow> Coin_DynamicMemoryUsage T (Coin_Clear T c) = 0"
  "txout_ok T \<Longrightarrow> IsSpent T (coinEmpty T)" "txout_ok T \<Longrightarrow> Coin_DynamicMemoryUsage T (coinEmpty T) = 0"
  by (simp_all add: txout_ok_def IsSpent_def Coin_Clear_def Coin_DynamicMemoryUsage_def coinEmpty_def)

text \<open>The coins after adding the spendable outputs of a transaction from index \<^verbatim>\<open>i\<close>.\<close>

primrec add_outputs ::
    "'o txout_ops \<Rightarrow> bytes \<Rightarrow> bool \<Rightarrow> int \<Rightarrow> 'o list \<Rightarrow> nat \<Rightarrow> (outpoint \<Rightarrow> 'o Coin option) \<Rightarrow> outpoint \<Rightarrow> 'o Coin option" where
  "add_outputs T txid cb h [] i U = U"
| "add_outputs T txid cb h (x # xs) i U =
     add_outputs T txid cb h xs (Suc i)
       (if out_IsUnspendable T x then U else U((txid, i) \<mapsto> make_Coin x h cb))"

section \<open>The operations on a cache over a view\<close>

context coins_view
begin

abbreviation "cinv \<equiv> cache_ok T utxo ok"
abbreviation "cview \<equiv> cache_utxo T utxo"

lemma FetchCoin_spec:
  assumes "cinv c" "FetchCoin T V c k = (r, c')"
  shows "cinv c' \<and> cview c' = cview c \<and> map_of (cacheCoins c') k = r \<and> utxo (base c') = utxo (base c) \<and>
    cview c k = (case r of None \<Rightarrow> None | Some e \<Rightarrow> entry_value T e)"
proof (cases "map_of (cacheCoins c) k")
  case (Some e)
  thus ?thesis using assms by (auto simp: FetchCoin_def cache_utxo_def split: option.splits)
next
  case None
  obtain g b where g: "view_GetCoin V (base c) k = (g, b)" by fastforce
  have b: "g = utxo (base c) k" "utxo b = utxo (base c)" "ok b"
    using get [OF _ g] assms(1) by (simp_all add: cache_ok_def)
  have c1: "cinv (c\<lparr>base := b\<rparr>)" "cview (c\<lparr>base := b\<rparr>) = cview c"
    using assms(1) b by (auto simp: cache_ok_def cache_utxo_def cong: option.case_cong)
  show ?thesis
  proof (cases g)
    case None': None
    thus ?thesis using assms(2) None g b c1 by (auto simp: FetchCoin_def cache_utxo_def)
  next
    case (Some tmp)
    have ns: "\<not> IsSpent T tmp" using unspent [of "base c" k tmp] b Some assms(1) by (simp add: cache_ok_def)
    let ?e = "\<lparr>coin = tmp, flags = {}\<rparr>"
    have "entry_ok T (utxo (base (c\<lparr>base := b\<rparr>))) k ?e"
      using ns b Some by (simp add: entry_ok_def entry_value_def)
    note put = cache_put [OF c1(1) this refl]
    have "FetchCoin T V c k = (Some ?e, c\<lparr>base := b, cacheCoins := AList.update k ?e (cacheCoins c),
        cachedCoinsUsage := cachedCoinsUsage c + Coin_DynamicMemoryUsage T tmp\<rparr>)"
      using None g Some ns by (simp add: FetchCoin_def Let_def)
    hence "r = Some ?e" and "c' = c\<lparr>base := b, cacheCoins := AList.update k ?e (cacheCoins c),
        cachedCoinsUsage := cachedCoinsUsage c + Coin_DynamicMemoryUsage T tmp\<rparr>"
      using assms(2) by simp_all
    moreover have "cview c k = Some tmp" using None Some b by (simp add: cache_utxo_def)
    ultimately show ?thesis
      using put c1 None ns b by (auto simp: old_usage_def update_conv' entry_value_def fun_eq_iff)
  qed
qed

lemma GetCoin_spec:
  assumes "cinv c" "GetCoin T V c k = (r, c')"
  shows "r = cview c k \<and> cview c' = cview c \<and> cinv c'"
proof -
  obtain e c1 where f: "FetchCoin T V c k = (e, c1)" by fastforce
  from FetchCoin_spec [OF assms(1) f] assms(2) f show ?thesis
    by (auto simp: GetCoin_def entry_value_def split: option.splits)
qed

lemma HaveCoin_spec:
  assumes "cinv c" "HaveCoin T V c k = (r, c')"
  shows "r = (cview c k \<noteq> None) \<and> cview c' = cview c \<and> cinv c' \<and> utxo (base c') = utxo (base c)"
proof -
  obtain e c1 where f: "FetchCoin T V c k = (e, c1)" by fastforce
  from FetchCoin_spec [OF assms(1) f] assms(2) f show ?thesis
    by (auto simp: HaveCoin_def entry_value_def split: option.splits)
qed

lemma AddCoin_spec:
  assumes "cinv c" "\<not> IsSpent T x" "ow \<or> cview c k = None" and T_ok: "txout_ok T"
  shows "\<exists>c'. AddCoin T c k x ow = (c', Inr ()) \<and> cinv c' \<and> base c' = base c \<and>
    cview c' = (if out_IsUnspendable T (coin_out x) then cview c else (cview c)(k \<mapsto> x))"
proof (cases "out_IsUnspendable T (coin_out x)")
  case True
  thus ?thesis using assms by (simp add: AddCoin_def)
next
  case False
  define e where "e = (case map_of (cacheCoins c) k of Some e \<Rightarrow> e | None \<Rightarrow> \<lparr>coin = coinEmpty T, flags = {}\<rparr>)"
  let ?e = "\<lparr>coin = x, flags = flags e \<union> {DIRTY} \<union> (if \<not> ow \<and> DIRTY \<notin> flags e then {FRESH} else {})\<rparr>"
  let ?u = "cachedCoinsUsage c - old_usage T (cacheCoins c) k + Coin_DynamicMemoryUsage T x"
  have "\<not> IsSpent T (coin e) \<Longrightarrow> ow"
    using assms(3) T_ok by (auto simp: e_def cache_utxo_def entry_value_def split: option.splits)
  hence a: "AddCoin T c k x ow =
      (c\<lparr>cacheCoins := AList.update k ?e (AList.update k e (cacheCoins c)), cachedCoinsUsage := ?u\<rparr>, Inr ())"
    using assms(2) False
    by (auto simp: AddCoin_def Let_def old_usage_def e_def split: option.splits)
  have "FRESH \<in> flags e \<Longrightarrow> utxo (base c) k = None" "\<not> ow \<Longrightarrow> DIRTY \<notin> flags e \<Longrightarrow> utxo (base c) k = None"
    using assms(3) cache_ok_entry [OF assms(1), of k]
    by (auto simp: e_def entry_ok_def cache_utxo_def split: option.splits)
  hence "entry_ok T (utxo (base c)) k ?e"
    using assms(2) by (auto simp: entry_ok_def)
  from cache_put [OF assms(1) this refl] a False assms(2) show ?thesis
    by (simp add: update_update entry_value_def)
qed

lemma SpendCoin_spec:
  assumes "cinv c" "SpendCoin T V c k = ((r, m), c')" and T_ok: "txout_ok T"
  shows "cinv c' \<and> cview c' = (cview c)(k := None) \<and> (cview c k \<noteq> None \<longrightarrow> r \<and> m = cview c k)"
proof -
  obtain e c1 where f: "FetchCoin T V c k = (e, c1)" by fastforce
  note F = FetchCoin_spec [OF assms(1) f]
  show ?thesis
  proof (cases e)
    case None
    thus ?thesis using F f assms(2) by (auto simp: SpendCoin_def fun_eq_iff)
  next
    case (Some x)
    have x: "entry_ok T (utxo (base c1)) k x" and ou: "old_usage T (cacheCoins c1) k = Coin_DynamicMemoryUsage T (coin x)"
      using F Some cache_ok_entry [of T utxo ok c1 k x] by (simp_all add: old_usage_def)
    show ?thesis
    proof (cases "FRESH \<in> flags x")
      case True
      hence "utxo (base c1) k = None" using x by (simp add: entry_ok_def)
      with cache_drop [of T utxo ok c1, OF _ refl, of k] show ?thesis
        using F f assms(2) Some True by (auto simp: SpendCoin_def Let_def ou entry_value_def split: if_splits)
    next
      case False
      let ?y = "\<lparr>coin = Coin_Clear T (coin x), flags = flags x \<union> {DIRTY}\<rparr>"
      have "entry_ok T (utxo (base c1)) k ?y" "entry_value T ?y = None"
        using False T_ok by (simp_all add: entry_ok_def entry_value_def)
      with cache_put [of T utxo ok c1 k ?y, OF _ _ refl] show ?thesis
        using F f assms(2) Some False T_ok by (auto simp: SpendCoin_def Let_def ou entry_value_def split: if_splits)
    qed
  qed
qed

lemma Uncache_spec:
  assumes "cinv c"
  shows "cinv (Uncache T c k) \<and> cview (Uncache T c k) = cview c"
proof (cases "map_of (cacheCoins c) k")
  case (Some e)
  note x = cache_ok_entry [OF assms Some]
  show ?thesis
  proof (cases "flags e = {}")
    case True
    hence "utxo (base c) k = cview c k" using x Some by (simp add: entry_ok_def cache_utxo_def)
    thus ?thesis
      using cache_drop [OF assms refl, of k] Some True by (simp add: Uncache_def old_usage_def)
  qed (use assms Some in \<open>simp add: Uncache_def\<close>)
qed (use assms in \<open>simp add: Uncache_def\<close>)

lemma BatchWrite_entry_spec:
  assumes "cinv c" "DIRTY \<in> flags it \<Longrightarrow> FRESH \<in> flags it \<Longrightarrow> cview c k = None"
  shows "\<exists>c'. BatchWrite_entry T c k it = (c', Inr ()) \<and> cinv c' \<and> base c' = base c \<and>
    cview c' = (if DIRTY \<in> flags it then (cview c)(k := entry_value T it) else cview c)"
proof (cases "DIRTY \<in> flags it")
  case False
  thus ?thesis using assms(1) by (simp add: BatchWrite_entry_def)
next
  case D: True
  show ?thesis
  proof (cases "map_of (cacheCoins c) k")
    case None
    hence vk: "cview c k = utxo (base c) k" by (simp add: cache_utxo_def)
    show ?thesis
    proof (cases "FRESH \<in> flags it \<and> IsSpent T (coin it)")
      case True
      thus ?thesis
        using assms D None by (auto simp: BatchWrite_entry_def entry_value_def fun_eq_iff)
    next
      case False
      let ?e = "\<lparr>coin = coin it, flags = {DIRTY} \<union> (if FRESH \<in> flags it then {FRESH} else {})\<rparr>"
      have "entry_ok T (utxo (base c)) k ?e" using False assms(2) D vk by (auto simp: entry_ok_def)
      from cache_put [OF assms(1) this refl] show ?thesis
        using None D False by (simp add: BatchWrite_entry_def Let_def old_usage_def entry_value_def)
    qed
  next
    case (Some us)
    note x = cache_ok_entry [OF assms(1) Some]
    have nf: "\<not> (FRESH \<in> flags it \<and> \<not> IsSpent T (coin us))"
      using assms(2) D Some by (auto simp: cache_utxo_def entry_value_def split: if_splits)
    show ?thesis
    proof (cases "FRESH \<in> flags us \<and> IsSpent T (coin it)")
      case True
      hence "utxo (base c) k = entry_value T it" using x by (simp add: entry_ok_def entry_value_def)
      with cache_drop [OF assms(1) refl, of k] show ?thesis
        using Some D nf True by (simp add: BatchWrite_entry_def old_usage_def)
    next
      case False
      let ?e = "\<lparr>coin = coin it, flags = flags us \<union> {DIRTY}\<rparr>"
      have "entry_ok T (utxo (base c)) k ?e" using False x by (auto simp: entry_ok_def)
      from cache_put [OF assms(1) this refl] show ?thesis
        using Some D nf False by (auto simp: BatchWrite_entry_def old_usage_def entry_value_def)
    qed
  qed
qed

lemma BatchWrite_loop_spec:
  "cinv c \<Longrightarrow> entries_ok (cview c) es \<Longrightarrow>
    \<exists>c'. BatchWrite_loop T er es c = ((if er then [] else es), c', Inr ()) \<and> cinv c' \<and> base c' = base c \<and>
      cview c' = apply_entries T es (cview c)"
proof (induction es arbitrary: c)
  case Nil
  thus ?case by (simp add: apply_entries_def fun_eq_iff)
next
  case (Cons x es)
  obtain k it where x: "x = (k, it)" by (cases x)
  have "map_of (x # es) k = Some it" by (simp add: x)
  hence "DIRTY \<in> flags it \<Longrightarrow> FRESH \<in> flags it \<Longrightarrow> cview c k = None"
    using Cons.prems(2) unfolding entries_ok_def by blast
  from BatchWrite_entry_spec [OF Cons.prems(1) this] obtain c1 where
    c1: "BatchWrite_entry T c k it = (c1, Inr ())" "cinv c1" "base c1 = base c"
      "cview c1 = (if DIRTY \<in> flags it then (cview c)(k := entry_value T it) else cview c)" by blast
  have nk: "k \<notin> fst ` set es" "map_of es k = None"
    using Cons.prems(2) by (auto simp: entries_ok_def x map_of_eq_None_iff)
  have "cview c1 j = None"
    if "map_of es j = Some e" "DIRTY \<in> flags e" "FRESH \<in> flags e" for j e
  proof -
    have "j \<noteq> k" using that(1) nk(2) by auto
    hence "map_of (x # es) j = Some e" using that(1) by (simp add: x)
    hence "cview c j = None" using Cons.prems(2) that(2,3) unfolding entries_ok_def by blast
    thus ?thesis using c1(4) \<open>j \<noteq> k\<close> by simp
  qed
  moreover have "distinct (map fst es)" using Cons.prems(2) by (simp add: entries_ok_def)
  ultimately have "entries_ok (cview c1) es" unfolding entries_ok_def by blast
  from Cons.IH [OF c1(2) this] obtain c' where
    c': "BatchWrite_loop T er es c1 = ((if er then [] else es), c', Inr ())" "cinv c'" "base c' = base c1"
      "cview c' = apply_entries T es (cview c1)" by blast
  have "apply_entries T es (cview c1) = apply_entries T (x # es) (cview c)"
    using c1(4) nk(2) by (auto simp: fun_eq_iff apply_entries_def x split: option.splits)
  thus ?case using c1 c' by (simp add: x)
qed

lemma cache_entries_ok: "cinv c \<Longrightarrow> entries_ok (utxo (base c)) (cacheCoins c)"
  unfolding entries_ok_def using cache_ok_entry [of T utxo ok c] by (auto simp: cache_ok_def entry_ok_def)

lemma apply_cache: "cinv c \<Longrightarrow> apply_entries T (cacheCoins c) (utxo (base c)) = cview c"
  using cache_ok_entry [of T utxo ok c]
  by (auto simp: fun_eq_iff apply_entries_def cache_utxo_def entry_ok_def split: option.splits)

lemma Flush_spec:
  assumes "cinv c" "hashBlock c \<noteq> null_hash"
  shows "\<exists>c'. Flush V c = (c', Inr True) \<and> cacheCoins c' = [] \<and> cachedCoinsUsage c' = 0 \<and>
    utxo (base c') = cview c \<and> cview c' = cview c \<and> cinv c'"
proof -
  have "ok (base c)" using assms(1) by (simp add: cache_ok_def)
  from batch [OF this cache_entries_ok [OF assms(1)] assms(2), of True] obtain b where
    b: "view_BatchWrite V (base c) (cacheCoins c) (hashBlock c) True = ([], b, Inr True)"
      "utxo b = cview c" "ok b"
    by (auto simp: apply_cache [OF assms(1)])
  let ?c = "c\<lparr>base := b, cacheCoins := [], cachedCoinsUsage := 0\<rparr>"
  have "cview ?c = cview c" by (simp add: fun_eq_iff cache_utxo_def) (simp add: b cache_utxo_def)
  thus ?thesis
    using b by (intro exI [of _ ?c]) (simp add: Flush_def cache_ok_def map_usage_def)
qed

lemma Sync_loop_eq:
  "Sync_loop T m u =
    (map (\<lambda>(k, e). (k, e\<lparr>flags := {}\<rparr>)) (filter (\<lambda>(k, e). \<not> IsSpent T (coin e)) m),
     u - map_usage T (filter (\<lambda>(k, e). IsSpent T (coin e)) m))"
  by (induction m arbitrary: u) (auto simp: map_usage_def)

lemma map_usage_partition:
  "map_usage T m = map_usage T (filter (\<lambda>(k, e). IsSpent T (coin e)) m) +
    map_usage T (map (\<lambda>(k, e). (k, e\<lparr>flags := {}\<rparr>)) (filter (\<lambda>(k, e). \<not> IsSpent T (coin e)) m))"
  by (induction m) (auto simp: map_usage_def)

lemma map_of_synced:
  "distinct (map fst m) \<Longrightarrow>
    map_of (map (\<lambda>(k, e). (k, e\<lparr>flags := {}\<rparr>)) (filter (\<lambda>(k, e). \<not> IsSpent T (coin e)) m)) k =
    (case map_of m k of Some e \<Rightarrow> if IsSpent T (coin e) then None else Some (e\<lparr>flags := {}\<rparr>) | None \<Rightarrow> None)"
proof (induction m)
  case (Cons x m)
  obtain k' e where x: "x = (k', e)" by (cases x)
  have "map_of m k' = None" using Cons.prems by (auto simp: x map_of_eq_None_iff)
  thus ?case using Cons by (auto simp: x)
qed simp

lemma distinct_synced:
  "distinct (map fst m) \<Longrightarrow>
    distinct (map fst (map (\<lambda>(k, e). (k, e\<lparr>flags := {}\<rparr>)) (filter (\<lambda>(k, e). \<not> IsSpent T (coin e)) m)))"
  by (induction m) (auto simp: case_prod_unfold)

lemma Sync_spec:
  assumes "cinv c" "hashBlock c \<noteq> null_hash"
  shows "\<exists>c'. Sync T V c = (c', Inr True) \<and> utxo (base c') = cview c \<and> cview c' = cview c \<and> cinv c' \<and>
    (\<forall>k e. map_of (cacheCoins c') k = Some e \<longrightarrow> flags e = {} \<and> \<not> IsSpent T (coin e))"
proof -
  have "ok (base c)" and d: "distinct (map fst (cacheCoins c))" using assms(1) by (simp_all add: cache_ok_def)
  from batch [OF this(1) cache_entries_ok [OF assms(1)] assms(2), of False] obtain b where
    b: "view_BatchWrite V (base c) (cacheCoins c) (hashBlock c) False = (cacheCoins c, b, Inr True)"
      "utxo b = cview c" "ok b"
    by (auto simp: apply_cache [OF assms(1)])
  define m where "m = map (\<lambda>(k, e). (k, e\<lparr>flags := {}\<rparr>)) (filter (\<lambda>(k, e). \<not> IsSpent T (coin e)) (cacheCoins c))"
  let ?c = "c\<lparr>base := b, cacheCoins := m, cachedCoinsUsage := map_usage T m\<rparr>"
  have s: "Sync T V c = (?c, Inr True)"
    using b(1) assms(1) map_usage_partition [of "cacheCoins c"]
    by (simp add: Sync_def Sync_loop_eq cache_ok_def m_def [symmetric])
  have mo: "map_of m k = (case map_of (cacheCoins c) k of
      Some e \<Rightarrow> if IsSpent T (coin e) then None else Some (e\<lparr>flags := {}\<rparr>) | None \<Rightarrow> None)" for k
    unfolding m_def by (rule map_of_synced [OF d])
  have e: "flags e = {} \<and> \<not> IsSpent T (coin e) \<and> cview c k = Some (coin e)" if "map_of m k = Some e" for k e
    using that by (auto simp: mo cache_utxo_def entry_value_def split: option.splits if_splits)
  hence "entry_ok T (utxo b) k e" if "map_of m k = Some e" for k e
    using that by (simp add: entry_ok_def entry_value_def b(2))
  moreover have "distinct (map fst m)" unfolding m_def by (rule distinct_synced [OF d])
  ultimately have "cinv ?c" using b(3) unfolding cache_ok_def by simp
  moreover have "cview ?c k = cview c k" for k
    using e [of k] by (cases "map_of m k") (simp_all add: cache_utxo_def [of T utxo ?c] b(2) entry_value_def)
  hence "cview ?c = cview c" by blast
  ultimately show ?thesis
    using s e b(2) by (intro exI [of _ ?c] conjI) simp_all
qed

lemma SanityCheck_loop_ok:
  "(\<And>x. x \<in> set m \<Longrightarrow> entry_attr T (snd x) \<noteq> 2 \<and> entry_attr T (snd x) \<noteq> 4 \<and> entry_attr T (snd x) \<noteq> 7) \<Longrightarrow>
    SanityCheck_loop T m u = Inr (u + map_usage T m)"
  by (induction m arbitrary: u) (auto simp: map_usage_def Let_def add.assoc)

lemma SanityCheck_usage:
  assumes "cinv c"
  shows "SanityCheck_loop T (cacheCoins c) 0 = Inr (cachedCoinsUsage c)"
proof -
  have "entry_attr T (snd x) \<noteq> 2 \<and> entry_attr T (snd x) \<noteq> 4 \<and> entry_attr T (snd x) \<noteq> 7"
    if "x \<in> set (cacheCoins c)" for x
  proof -
    have "map_of (cacheCoins c) (fst x) = Some (snd x)"
      using that assms by (simp add: cache_ok_def)
    from cache_ok_entry [OF assms this] show ?thesis
      by (auto simp: entry_ok_def entry_attr_def entry_value_def split: if_splits)
  qed
  thus ?thesis using SanityCheck_loop_ok [of "cacheCoins c" 0] assms by (simp add: cache_ok_def)
qed

lemma SanityCheck_spec: "cinv c \<Longrightarrow> SanityCheck T c = Inr ()"
  using SanityCheck_usage [of c] by (simp add: SanityCheck_def)

text \<open>A cache over a view is a view of the coins it represents, so caches can be stacked.\<close>

lemma cache_is_view: "coins_view T (cache_view T V) (cache_utxo T utxo) (cache_ok T utxo ok)"
proof
  fix c k r c'
  assume "cinv c" "view_GetCoin (cache_view T V) c k = (r, c')"
  thus "r = cview c k \<and> cview c' = cview c \<and> cinv c'" by (simp add: cache_view_def GetCoin_spec)
next
  fix c k x
  assume "cinv c" "cview c k = Some x"
  thus "\<not> IsSpent T x"
    using unspent [of "base c" k x] by (auto simp: cache_utxo_def cache_ok_def entry_value_def split: option.splits if_splits)
next
  fix c es and h :: uint256 and er
  assume "cinv c" "entries_ok (cview c) es"
  from BatchWrite_loop_spec [OF this, of er] obtain c' where
    "BatchWrite_loop T er es c = ((if er then [] else es), c', Inr ())" "cinv c'"
    "cview c' = apply_entries T es (cview c)" by blast
  thus "\<exists>b'. view_BatchWrite (cache_view T V) c es h er = ((if er then [] else es), b', Inr True) \<and>
      cview b' = apply_entries T es (cview c) \<and> cinv b'"
    by (intro exI [of _ "c'\<lparr>hashBlock := h\<rparr>"])
      (auto simp: cache_view_def BatchWrite_def cache_ok_def cache_utxo_def fun_eq_iff cong: option.case_cong)
next
  fix c h c'
  assume c: "cinv c" and g: "view_GetBestBlock (cache_view T V) c = (h, c')"
  obtain h1 b where b: "view_GetBestBlock V (base c) = (h1, b)" by fastforce
  have "utxo b = utxo (base c) \<and> ok b" using best [OF _ b] c by (simp add: cache_ok_def)
  moreover have "c' = c \<or> c' = c\<lparr>base := b, hashBlock := h1\<rparr>"
    using g b by (auto simp: cache_view_def GetBestBlock_def split: if_splits)
  ultimately show "cview c' = cview c \<and> cinv c'"
    using c by (auto simp: cache_ok_def cache_utxo_def cong: option.case_cong)
qed

section \<open>Transactions\<close>

lemma AddCoins_loop_checked:
  "txout_ok T \<Longrightarrow> cinv c \<Longrightarrow> (\<And>x. x \<in> set xs \<Longrightarrow> \<not> out_IsNull T x) \<Longrightarrow>
    \<exists>c'. AddCoins_loop T V tx h True xs i c = (c', Inr ()) \<and> cinv c' \<and>
      cview c' = add_outputs T (tx_GetHash tx) (tx_IsCoinBase tx) h xs i (cview c)"
proof (induction xs arbitrary: i c)
  case (Cons x xs)
  obtain ow c1 where hc: "HaveCoin T V c (tx_GetHash tx, i) = (ow, c1)" by fastforce
  note H = HaveCoin_spec [OF Cons.prems(2) hc]
  have ns: "\<not> IsSpent T (make_Coin x h (tx_IsCoinBase tx))"
    using Cons.prems(3) by (simp add: IsSpent_def make_Coin_def)
  have "ow \<or> cview c1 (tx_GetHash tx, i) = None" using H by auto
  from AddCoin_spec [OF _ ns this Cons.prems(1)] H obtain c2 where
    c2: "AddCoin T c1 (tx_GetHash tx, i) (make_Coin x h (tx_IsCoinBase tx)) ow = (c2, Inr ())" "cinv c2"
      "cview c2 = (if out_IsUnspendable T x then cview c
        else (cview c)((tx_GetHash tx, i) \<mapsto> make_Coin x h (tx_IsCoinBase tx)))"
    by (auto simp: make_Coin_def)
  from Cons.IH [OF Cons.prems(1) c2(2)] Cons.prems(3) obtain c3 where
    "AddCoins_loop T V tx h True xs (Suc i) c2 = (c3, Inr ())" "cinv c3"
    "cview c3 = add_outputs T (tx_GetHash tx) (tx_IsCoinBase tx) h xs (Suc i) (cview c2)"
    by (meson list.set_intros(2))
  thus ?case using hc c2 by simp
qed simp

lemma HaveInputs_loop_spec:
  "cinv c \<Longrightarrow> HaveInputs_loop T V ks c = (r, c') \<Longrightarrow>
    r = (\<forall>k \<in> set ks. cview c k \<noteq> None) \<and> cinv c' \<and> cview c' = cview c"
proof (induction ks arbitrary: c)
  case (Cons k ks)
  obtain h c1 where hc: "HaveCoin T V c k = (h, c1)" by fastforce
  note H = HaveCoin_spec [OF Cons.prems(1) hc]
  show ?case
  proof (cases h)
    case True
    thus ?thesis using Cons.IH [of c1] Cons.prems(2) H hc by auto
  next
    case False
    thus ?thesis using Cons.prems(2) H hc by auto
  qed
qed simp

end

end
