(* ===== verification/Coins_DB.thy ===== *)
theory Coins_DB
  imports Coins_View
begin

text \<open>
  The coins database of \<^verbatim>\<open>txdb.cpp\<close>, which is the bottom of the view stack. The store keeps decoded
  records; a write batch is applied as a whole, as LevelDB does. The size estimate of a batch is an
  argument, and so is the decision of the crash simulation after every partial batch.
\<close>

section \<open>The store\<close>

record 'o coins_db =
  db_coin :: "outpoint \<Rightarrow> 'o Coin option"
  db_best_block :: "uint256 option"
  db_head_blocks :: "uint256 list option"

datatype 'o db_op =
    Erase_best | Write_best uint256 | Erase_heads | Write_heads "uint256 list"
  | Erase_coin outpoint | Write_coin outpoint "'o Coin"

fun apply_op :: "'o db_op \<Rightarrow> 'o coins_db \<Rightarrow> 'o coins_db" where
  "apply_op Erase_best db = db\<lparr>db_best_block := None\<rparr>"
| "apply_op (Write_best h) db = db\<lparr>db_best_block := Some h\<rparr>"
| "apply_op Erase_heads db = db\<lparr>db_head_blocks := None\<rparr>"
| "apply_op (Write_heads hs) db = db\<lparr>db_head_blocks := Some hs\<rparr>"
| "apply_op (Erase_coin k) db = db\<lparr>db_coin := (db_coin db)(k := None)\<rparr>"
| "apply_op (Write_coin k c) db = db\<lparr>db_coin := (db_coin db)(k \<mapsto> c)\<rparr>"

definition WriteBatch :: "'o coins_db \<Rightarrow> 'o db_op list \<Rightarrow> 'o coins_db" where
  "WriteBatch db batch = fold apply_op batch db"

section \<open>The database view\<close>

definition DB_GetCoin :: "'o coins_db \<Rightarrow> outpoint \<Rightarrow> 'o Coin option \<times> 'o coins_db" where
  "DB_GetCoin db k = (db_coin db k, db)"

definition DB_HaveCoin :: "'o coins_db \<Rightarrow> outpoint \<Rightarrow> bool" where
  "DB_HaveCoin db k = (db_coin db k \<noteq> None)"

definition DB_GetBestBlock :: "'o coins_db \<Rightarrow> uint256" where
  "DB_GetBestBlock db = (case db_best_block db of None \<Rightarrow> replicate 32 0 | Some h \<Rightarrow> h)"

definition DB_GetHeadBlocks :: "'o coins_db \<Rightarrow> uint256 list" where
  "DB_GetHeadBlocks db = (case db_head_blocks db of None \<Rightarrow> [] | Some hs \<Rightarrow> hs)"

definition entry_op :: "'o txout_ops \<Rightarrow> outpoint \<times> 'o CCoinsCacheEntry \<Rightarrow> 'o db_op list" where
  "entry_op T x =
     (if DIRTY \<in> flags (snd x)
      then (if IsSpent T (coin (snd x)) then [Erase_coin (fst x)] else [Write_coin (fst x) (coin (snd x))])
      else [])"

text \<open>
  The loop over the map; \<^verbatim>\<open>n\<close> counts the partial batches written. The last component tells whether the
  simulated crash ended the process.
\<close>

primrec DB_BatchWrite_loop ::
    "'o txout_ops \<Rightarrow> ('o db_op list \<Rightarrow> nat) \<Rightarrow> nat \<Rightarrow> (nat \<Rightarrow> bool) \<Rightarrow> bool \<Rightarrow> 'o CCoinsMap \<Rightarrow> 'o db_op list \<Rightarrow> nat \<Rightarrow>
     'o coins_db \<Rightarrow> 'o CCoinsMap \<times> 'o db_op list \<times> 'o coins_db \<times> bool" where
  "DB_BatchWrite_loop T SizeEstimate limit crash erase [] batch n db = ([], batch, db, False)"
| "DB_BatchWrite_loop T SizeEstimate limit crash erase (x # xs) batch n db =
     (let batch = batch @ entry_op T x
      in if SizeEstimate batch > limit then
           let db = WriteBatch db batch
           in if crash n then ((if erase then xs else x # xs), [], db, True)
              else case DB_BatchWrite_loop T SizeEstimate limit crash erase xs [] (Suc n) db of
                     (rest, r) \<Rightarrow> ((if erase then rest else x # rest), r)
         else case DB_BatchWrite_loop T SizeEstimate limit crash erase xs batch n db of
                (rest, r) \<Rightarrow> ((if erase then rest else x # rest), r))"

text \<open>The process may end inside; otherwise the call returns or fails an assertion.\<close>

datatype 'o db_outcome = DB_exit "'o coins_db" | DB_return "'o CCoinsMap" "'o coins_db" "bool result"

definition DB_BatchWrite ::
    "'o txout_ops \<Rightarrow> ('o db_op list \<Rightarrow> nat) \<Rightarrow> nat \<Rightarrow> (nat \<Rightarrow> bool) \<Rightarrow> 'o coins_db \<Rightarrow> 'o CCoinsMap \<Rightarrow> uint256 \<Rightarrow> bool \<Rightarrow>
     'o db_outcome" where
  "DB_BatchWrite T SizeEstimate limit crash db mapCoins hash erase =
     (if hash = replicate 32 0 then DB_return mapCoins db (Inl Assert_failed)
      else
        let old_tip = DB_GetBestBlock db;
            old_heads = DB_GetHeadBlocks db
        in if old_tip = replicate 32 0 \<and> length old_heads = 2 \<and> old_heads ! 0 \<noteq> hash
           then DB_return mapCoins db (Inl Assert_failed)
           else
             let old_tip = (if old_tip = replicate 32 0 \<and> length old_heads = 2 then old_heads ! 1 else old_tip);
                 batch = [Erase_best, Write_heads [hash, old_tip]]
             in case DB_BatchWrite_loop T SizeEstimate limit crash erase mapCoins batch 0 db of
                  (rest, batch, db, exited) \<Rightarrow>
                    if exited then DB_exit db
                    else DB_return rest (WriteBatch db (batch @ [Erase_heads, Write_best hash])) (Inr True))"

definition CCoinsViewDB ::
    "'o txout_ops \<Rightarrow> ('o db_op list \<Rightarrow> nat) \<Rightarrow> nat \<Rightarrow> ('o coins_db, 'o) coins_view_ops" where
  "CCoinsViewDB T SizeEstimate limit =
     \<lparr>view_GetCoin = DB_GetCoin, view_GetBestBlock = (\<lambda>db. (DB_GetBestBlock db, db)),
      view_BatchWrite = (\<lambda>db m h er.
        case DB_BatchWrite T SizeEstimate limit (\<lambda>_. False) db m h er of
          DB_return rest db r \<Rightarrow> (rest, db, r)
        | DB_exit db \<Rightarrow> (m, db, Inl Assert_failed))\<rparr>"

section \<open>Batches\<close>

lemma WriteBatch_append: "WriteBatch db (a @ b) = WriteBatch (WriteBatch db a) b"
  by (simp add: WriteBatch_def)

text \<open>The coins that a prefix of the map has produced, whatever was written and whatever waits.\<close>

lemma WriteBatch_entry:
  "db_coin (WriteBatch db (entry_op T x)) =
     (if DIRTY \<in> flags (snd x) then (db_coin db)(fst x := entry_value T (snd x)) else db_coin db) \<and>
   db_best_block (WriteBatch db (entry_op T x)) = db_best_block db \<and>
   db_head_blocks (WriteBatch db (entry_op T x)) = db_head_blocks db"
  by (simp add: WriteBatch_def entry_op_def entry_value_def)

lemma apply_entries_Cons:
  assumes "k \<notin> fst ` set es"
  shows "apply_entries T ((k, e) # es) U =
    apply_entries T es (if DIRTY \<in> flags e then U(k := entry_value T e) else U)"
proof -
  have "map_of es k = None" using assms by (simp add: map_of_eq_None_iff)
  thus ?thesis by (auto simp: fun_eq_iff apply_entries_def split: option.splits)
qed

lemma DB_loop_done:
  "distinct (map fst es) \<Longrightarrow> (\<And>i. \<not> crash i) \<Longrightarrow>
    \<exists>batch' db'. DB_BatchWrite_loop T est lim crash er es batch n db = ((if er then [] else es), batch', db', False) \<and>
      db_coin (WriteBatch db' batch') = apply_entries T es (db_coin (WriteBatch db batch)) \<and>
      db_best_block (WriteBatch db' batch') = db_best_block (WriteBatch db batch) \<and>
      db_head_blocks (WriteBatch db' batch') = db_head_blocks (WriteBatch db batch)"
proof (induction es arbitrary: batch n db)
  case Nil
  thus ?case by (simp add: apply_entries_def fun_eq_iff)
next
  case (Cons x es)
  obtain k e where x: "x = (k, e)" by (cases x)
  have k: "k \<notin> fst ` set es" "distinct (map fst es)" using Cons.prems(1) by (auto simp: x)
  let ?b = "batch @ entry_op T x"
  note W = WriteBatch_entry [of "WriteBatch db batch" T x]
  have "apply_entries T es (db_coin (WriteBatch db ?b)) = apply_entries T (x # es) (db_coin (WriteBatch db batch))"
    using W by (simp add: WriteBatch_append x apply_entries_Cons [OF k(1)])
  moreover have "WriteBatch (WriteBatch db ?b) [] = WriteBatch db ?b" by (simp add: WriteBatch_def)
  ultimately show ?case
    using Cons.IH [OF k(2) Cons.prems(2), of ?b n db] Cons.IH [OF k(2) Cons.prems(2), of "[]" "Suc n" "WriteBatch db ?b"]
      W Cons.prems(2)
    by (fastforce simp: Let_def WriteBatch_append)
qed

definition db_ok :: "'o txout_ops \<Rightarrow> 'o coins_db \<Rightarrow> bool" where
  "db_ok T db \<longleftrightarrow> (\<forall>k c. db_coin db k = Some c \<longrightarrow> \<not> IsSpent T c) \<and> db_head_blocks db = None"

lemma coins_db_unspent: "db_ok T db \<Longrightarrow> db_coin db k = Some c \<Longrightarrow> \<not> IsSpent T c"
  unfolding db_ok_def by blast

text \<open>A batch write may start from a consistent store or resume an interrupted write to the same block.\<close>

definition may_write :: "'o coins_db \<Rightarrow> uint256 \<Rightarrow> bool" where
  "may_write db h \<longleftrightarrow> h \<noteq> null_hash \<and>
     (DB_GetBestBlock db \<noteq> null_hash \<or> length (DB_GetHeadBlocks db) \<noteq> 2 \<or> DB_GetHeadBlocks db ! 0 = h)"

lemma DB_BatchWrite_done:
  assumes "distinct (map fst es)" "may_write db h" "\<And>i. \<not> crash i"
  shows "\<exists>db'. DB_BatchWrite T est lim crash db es h er = DB_return (if er then [] else es) db' (Inr True) \<and>
    db_coin db' = apply_entries T es (db_coin db) \<and> db_best_block db' = Some h \<and> db_head_blocks db' = None"
proof -
  define tip where "tip = (if DB_GetBestBlock db = replicate 32 0 \<and> length (DB_GetHeadBlocks db) = 2
    then DB_GetHeadBlocks db ! 1 else DB_GetBestBlock db)"
  let ?b = "[Erase_best, Write_heads [h, tip]]"
  from DB_loop_done [where crash = crash and T = T and est = est and lim = lim and er = er and batch = ?b and n = 0 and db = db,
      OF assms(1,3)] obtain b db' where
    l: "DB_BatchWrite_loop T est lim crash er es ?b 0 db = ((if er then [] else es), b, db', False)"
      "db_coin (WriteBatch db' b) = apply_entries T es (db_coin (WriteBatch db ?b))" by blast
  have "db_coin (WriteBatch db ?b) = db_coin db" by (simp add: WriteBatch_def)
  moreover have "DB_BatchWrite T est lim crash db es h er =
      DB_return (if er then [] else es) (WriteBatch (WriteBatch db' b) [Erase_heads, Write_best h]) (Inr True)"
    using assms(2) l(1)
    by (auto simp: DB_BatchWrite_def may_write_def null_hash_def Let_def tip_def [symmetric] WriteBatch_append)
  ultimately show ?thesis using l(2) by (simp add: WriteBatch_def)
qed

text \<open>The database keeps the contract of a view.\<close>

interpretation coins_database: coins_view T "CCoinsViewDB T est lim" db_coin "db_ok T"
  for T :: "'o txout_ops" and est lim
proof
  fix db es and h :: uint256 and er
  assume db: "db_ok T db" and es: "entries_ok (db_coin db) es" and h: "h \<noteq> null_hash"
  have "may_write db h" using db h by (simp add: may_write_def db_ok_def DB_GetHeadBlocks_def)
  moreover have "distinct (map fst es)" using es by (simp add: entries_ok_def)
  ultimately obtain db' where
    d: "DB_BatchWrite T est lim (\<lambda>_. False) db es h er = DB_return (if er then [] else es) db' (Inr True)"
      "db_coin db' = apply_entries T es (db_coin db)" "db_head_blocks db' = None"
    using DB_BatchWrite_done [of es db h "\<lambda>_. False" T est lim er] by auto
  have "\<not> IsSpent T c" if "apply_entries T es (db_coin db) k = Some c" for k c
    using that coins_db_unspent [OF db]
    by (simp add: apply_entries_def entry_value_def split: option.splits if_splits)
  thus "\<exists>b'. view_BatchWrite (CCoinsViewDB T est lim) db es h er = ((if er then [] else es), b', Inr True) \<and>
      db_coin b' = apply_entries T es (db_coin db) \<and> db_ok T b'"
    using d by (intro exI [of _ db']) (simp add: CCoinsViewDB_def db_ok_def)
qed (auto simp: CCoinsViewDB_def DB_GetCoin_def db_ok_def)

text \<open>A cache over the database, the view the chain state uses, keeps it as well.\<close>

interpretation coins_tip: coins_view T "cache_view T (CCoinsViewDB T est lim)" "cache_utxo T db_coin"
    "cache_ok T db_coin (db_ok T)"
  for T :: "'o txout_ops" and est lim
  by (rule coins_database.cache_is_view)

section \<open>Interrupted writes\<close>

lemma DB_loop_exit:
  "distinct (map fst es) \<Longrightarrow> DB_BatchWrite_loop T est lim crash er es batch n db = (rest, b, db', True) \<Longrightarrow>
    (db_coin db' k = db_coin (WriteBatch db batch) k \<or>
     db_coin db' k = apply_entries T es (db_coin (WriteBatch db batch)) k) \<and>
    db_best_block db' = db_best_block (WriteBatch db batch) \<and>
    db_head_blocks db' = db_head_blocks (WriteBatch db batch)"
proof (induction es arbitrary: batch n db rest)
  case (Cons x es)
  obtain j e where x: "x = (j, e)" by (cases x)
  have j: "j \<notin> fst ` set es" "distinct (map fst es)" using Cons.prems(1) by (auto simp: x)
  let ?U = "db_coin (WriteBatch db batch)" and ?b = "batch @ entry_op T x"
  let ?W = "WriteBatch db ?b"
  note W = WriteBatch_entry [of "WriteBatch db batch" T x]
  have all: "apply_entries T es (db_coin ?W) = apply_entries T (x # es) ?U"
    using W by (simp add: WriteBatch_append x apply_entries_Cons [OF j(1)])
  have "map_of es j = None" using j(1) by (simp add: map_of_eq_None_iff)
  hence "apply_entries T es (db_coin ?W) j = db_coin ?W j" by (simp add: apply_entries_def)
  moreover have "db_coin ?W k = ?U k" if "k \<noteq> j" using W that by (simp add: x WriteBatch_append)
  ultimately have one: "db_coin ?W k = ?U k \<or> db_coin ?W k = apply_entries T (x # es) ?U k"
    unfolding all by metis
  have hb: "db_best_block ?W = db_best_block (WriteBatch db batch)" "db_head_blocks ?W = db_head_blocks (WriteBatch db batch)"
    using W by (simp_all add: WriteBatch_append)
  have nil: "WriteBatch w [] = w" for w :: "'a coins_db" by (simp add: WriteBatch_def)
  from Cons.prems(2) consider "db' = ?W"
    | r where "DB_BatchWrite_loop T est lim crash er es [] (Suc n) ?W = (r, b, db', True)"
    | r where "DB_BatchWrite_loop T est lim crash er es ?b n db = (r, b, db', True)"
    by (auto simp: Let_def split: if_splits prod.splits)
  thus ?case
  proof cases
    case 1
    thus ?thesis using one hb by simp
  next
    case 2
    from Cons.IH [OF j(2) this] one show ?thesis unfolding nil all hb by auto
  next
    case 3
    from Cons.IH [OF j(2) this] one show ?thesis unfolding all hb by auto
  qed
qed simp

text \<open>The block the store is moving away from, which survives interruptions.\<close>

definition origin_tip :: "'o coins_db \<Rightarrow> uint256" where
  "origin_tip db = (if DB_GetBestBlock db = null_hash \<and> length (DB_GetHeadBlocks db) = 2
     then DB_GetHeadBlocks db ! 1 else DB_GetBestBlock db)"

lemma DB_exit_state:
  assumes "distinct (map fst es)" "DB_BatchWrite T est lim crash db es h er = DB_exit db'"
  shows "(db_coin db' k = db_coin db k \<or> db_coin db' k = apply_entries T es (db_coin db) k) \<and>
    db_best_block db' = None \<and> db_head_blocks db' = Some [h, origin_tip db] \<and> h \<noteq> null_hash"
proof -
  let ?b = "[Erase_best, Write_heads [h, origin_tip db]]"
  obtain rest b where l: "DB_BatchWrite_loop T est lim crash er es ?b 0 db = (rest, b, db', True)"
    and h: "h \<noteq> null_hash"
    using assms(2) unfolding DB_BatchWrite_def Let_def null_hash_def [symmetric] origin_tip_def [symmetric]
    by (auto split: if_splits prod.splits)
  from DB_loop_exit [OF assms(1) l, of k] h show ?thesis by (simp add: WriteBatch_def)
qed

lemma interrupted_may_write:
  "db_best_block db = None \<Longrightarrow> db_head_blocks db = Some [h, t] \<Longrightarrow> h \<noteq> null_hash \<Longrightarrow> may_write db h"
  by (simp add: may_write_def DB_GetHeadBlocks_def)

lemma apply_entries_again:
  assumes "\<And>k. V k = U k \<or> V k = apply_entries T es U k"
  shows "apply_entries T es V = apply_entries T es U"
proof
  fix k
  show "apply_entries T es V k = apply_entries T es U k"
    using assms [of k] by (auto simp: apply_entries_def split: option.splits if_splits)
qed

text \<open>
  Attempts to write the same entries for the same block, each ended by a crash; the map may be iterated
  in another order every time.
\<close>

inductive interrupted_writes ::
    "'o txout_ops \<Rightarrow> ('o db_op list \<Rightarrow> nat) \<Rightarrow> nat \<Rightarrow> 'o CCoinsMap \<Rightarrow> uint256 \<Rightarrow> 'o coins_db \<Rightarrow> 'o coins_db \<Rightarrow> bool"
  for T est lim m h where
  no_attempt: "interrupted_writes T est lim m h db db"
| attempt: "distinct (map fst m') \<Longrightarrow> map_of m' = map_of m \<Longrightarrow>
    DB_BatchWrite T est lim crash db m' h er = DB_exit db1 \<Longrightarrow> interrupted_writes T est lim m h db1 db2 \<Longrightarrow>
    interrupted_writes T est lim m h db db2"

lemma interrupted_writes_state:
  "interrupted_writes T est lim m h db db' \<Longrightarrow> may_write db h \<Longrightarrow>
    may_write db' h \<and> apply_entries T m (db_coin db') = apply_entries T m (db_coin db)"
proof (induction rule: interrupted_writes.induct)
  case (attempt m' crash db er db1 db2)
  note E = DB_exit_state [OF attempt.hyps(1,3)]
  have "apply_entries T m' = apply_entries T m" using attempt.hyps(2) by (simp add: fun_eq_iff apply_entries_def)
  hence "apply_entries T m (db_coin db1) = apply_entries T m (db_coin db)"
    using E by (intro apply_entries_again) simp
  moreover have "may_write db1 h" using E by (intro interrupted_may_write) auto
  ultimately show ?case using attempt.IH by simp
qed simp

section \<open>Example stores\<close>

text \<open>Outputs as a value and a script, as in the transaction format: null is the value -1.\<close>

definition sample_outputs :: "(int \<times> bytes) txout_ops" where
  "sample_outputs =
     \<lparr>out_IsNull = (\<lambda>x. fst x = -1), out_null = (-1, []),
      out_IsUnspendable = (\<lambda>x. (snd x \<noteq> [] \<and> hd (snd x) = 0x6a) \<or> length (snd x) > 10000),
      out_DynamicUsage = (\<lambda>x. of_nat (length (snd x)))\<rparr>"

definition sample_coin :: "int \<Rightarrow> (int \<times> bytes) Coin" where
  "sample_coin v = make_Coin (v, [0x51, 0x52]) 7 False"

definition sample_hash :: "nat \<Rightarrow> uint256" where
  "sample_hash n = of_nat n # replicate 31 0"

definition sample_db :: "(int \<times> bytes) coins_db" where
  "sample_db = \<lparr>db_coin = [(sample_hash 1, 0) \<mapsto> sample_coin 50], db_best_block = Some (sample_hash 9), db_head_blocks = None\<rparr>"

definition sample_map :: "(int \<times> bytes) CCoinsMap" where
  "sample_map =
     [((sample_hash 1, 0), \<lparr>coin = coinEmpty sample_outputs, flags = {DIRTY}\<rparr>),
      ((sample_hash 2, 0), \<lparr>coin = sample_coin 30, flags = {DIRTY, FRESH}\<rparr>),
      ((sample_hash 2, 1), \<lparr>coin = sample_coin 20, flags = {DIRTY, FRESH}\<rparr>)]"

lemma null_hash_Cons: "null_hash = 0 # replicate 31 0"
  by (simp add: null_hash_def numeral_eq_Suc)

lemma sample_simps:
  "sample_hash (Suc 0) \<noteq> null_hash" "sample_hash 8 \<noteq> null_hash" "sample_hash 9 \<noteq> null_hash"
  "sample_hash 2 \<noteq> sample_hash (Suc 0)" "txout_ok sample_outputs" "db_ok sample_outputs sample_db"
  "\<not> IsSpent sample_outputs (sample_coin 50)" "\<not> IsSpent sample_outputs (sample_coin 30)" "\<not> IsSpent sample_outputs (sample_coin 20)"
  "IsSpent sample_outputs (coinEmpty sample_outputs)" "distinct (map fst sample_map)"
  by (simp_all add: sample_hash_def null_hash_Cons txout_ok_def db_ok_def sample_outputs_def sample_db_def sample_coin_def
      make_Coin_def IsSpent_def coinEmpty_def sample_map_def)

text \<open>
  C10: when the process ends between two partial batches of \<^verbatim>\<open>BatchWrite\<close>, the store has no best block, its
  head blocks are the target and the block it came from, and every coin has its value from before or
  after the whole write; so the interruption is always visible.
\<close>

theorem DB_interrupted_write_visible:
  assumes "distinct (map fst mapCoins)"
    "DB_BatchWrite T est lim crash db mapCoins h er = DB_exit db'"
  shows "DB_GetBestBlock db' = null_hash \<and> DB_GetHeadBlocks db' = [h, origin_tip db] \<and> h \<noteq> null_hash \<and>
    (\<forall>k. db_coin db' k = db_coin db k \<or> db_coin db' k = apply_entries T mapCoins (db_coin db) k)"
  using DB_exit_state [OF assms] by (simp add: DB_GetBestBlock_def DB_GetHeadBlocks_def null_hash_def)

theorem DB_interrupted_write_visible_witness:
  "\<exists>db'. DB_BatchWrite sample_outputs length 2 (\<lambda>n. n = 0) sample_db sample_map (sample_hash 8) True = DB_exit db' \<and>
    DB_GetBestBlock db' = null_hash \<and> DB_GetHeadBlocks db' = [sample_hash 8, origin_tip sample_db]"
proof -
  obtain db' where d: "DB_BatchWrite sample_outputs length 2 (\<lambda>n. n = 0) sample_db sample_map (sample_hash 8) True = DB_exit db'"
    using sample_simps
    by (simp add: DB_BatchWrite_def sample_map_def entry_op_def null_hash_def DB_GetHeadBlocks_def sample_db_def Let_def)
  from DB_interrupted_write_visible [OF sample_simps(11) d] d show ?thesis by simp
qed

text \<open>
  C8: after any number of interrupted attempts to write the same map for the same block, an attempt that is
  not interrupted returns success and leaves exactly the coins and the best block of one complete
  write to the original store, with no head blocks left.
\<close>

theorem DB_write_recovers:
  assumes "distinct (map fst mapCoins)" "may_write db h"
    "interrupted_writes T est lim mapCoins h db db'"
  shows "\<exists>db''. DB_BatchWrite T est lim (\<lambda>_. False) db' mapCoins h er =
      DB_return (if er then [] else mapCoins) db'' (Inr True) \<and>
    db_coin db'' = apply_entries T mapCoins (db_coin db) \<and>
    DB_GetBestBlock db'' = h \<and> DB_GetHeadBlocks db'' = []"
proof -
  note S = interrupted_writes_state [OF assms(3,2)]
  from DB_BatchWrite_done [OF assms(1), of db' h "\<lambda>_. False" T est lim er] S show ?thesis
    by (auto simp: DB_GetBestBlock_def DB_GetHeadBlocks_def)
qed

theorem DB_write_recovers_witness:
  "\<exists>db' db''. DB_BatchWrite sample_outputs length 2 (\<lambda>n. n = 0) sample_db sample_map (sample_hash 8) True = DB_exit db' \<and>
    DB_BatchWrite sample_outputs length 2 (\<lambda>_. False) db' sample_map (sample_hash 8) True = DB_return [] db'' (Inr True) \<and>
    db_coin db'' = apply_entries sample_outputs sample_map (db_coin sample_db)"
proof -
  obtain db' where d: "DB_BatchWrite sample_outputs length 2 (\<lambda>n. n = 0) sample_db sample_map (sample_hash 8) True = DB_exit db'"
    using sample_simps
    by (simp add: DB_BatchWrite_def sample_map_def entry_op_def null_hash_def DB_GetHeadBlocks_def sample_db_def Let_def)
  have "may_write sample_db (sample_hash 8)"
    using sample_simps by (simp add: may_write_def DB_GetHeadBlocks_def sample_db_def)
  moreover have "interrupted_writes sample_outputs length 2 sample_map (sample_hash 8) sample_db db'"
    by (rule attempt [OF sample_simps(11) refl d no_attempt])
  ultimately show ?thesis
    using DB_write_recovers [OF sample_simps(11), of sample_db "sample_hash 8" sample_outputs length 2 db' True] d by auto
qed

end
