(* ===== verification/Coins_Run.thy ===== *)
theory Coins_Run
  imports Coins_DB
begin

text \<open>
  Sequences of calls on a cache, with what each call returns, against the same calls on a plain set of
  unspent coins. The lemmas are proved for a cache over any view, and used for the cache over the
  database and for a further cache on top of that one.
\<close>

section \<open>Calls\<close>

datatype 'o coins_call =
    Call_GetCoin outpoint | Call_HaveCoin outpoint | Call_AddCoin outpoint "'o Coin" bool
  | Call_SpendCoin outpoint | Call_Uncache outpoint | Call_SetBestBlock uint256
  | Call_AddCoins "'o CTransaction" int | Call_HaveInputs "'o CTransaction"
  | Call_Flush | Call_Sync | Call_SanityCheck

datatype 'o coins_answer = Found "'o Coin option" | Answer bool | Done

definition unspent_only :: "'o txout_ops \<Rightarrow> 'o Coin option \<Rightarrow> 'o Coin option" where
  "unspent_only T m = (case m of None \<Rightarrow> None | Some x \<Rightarrow> if IsSpent T x then None else Some x)"

fun run_call ::
    "'o txout_ops \<Rightarrow> ('b, 'o) coins_view_ops \<Rightarrow> 'o coins_call \<Rightarrow> ('b, 'o) CCoinsViewCache \<Rightarrow>
     ('b, 'o) CCoinsViewCache \<times> 'o coins_answer result" where
  "run_call T V (Call_GetCoin k) c = (let (r, c) = GetCoin T V c k in (c, Inr (Found r)))"
| "run_call T V (Call_HaveCoin k) c = (let (r, c) = HaveCoin T V c k in (c, Inr (Answer r)))"
| "run_call T V (Call_AddCoin k x ow) c = (let (c, r) = AddCoin T c k x ow in (c, map_sum id (\<lambda>_. Done) r))"
| "run_call T V (Call_SpendCoin k) c =
     (let ((r, m), c) = SpendCoin T V c k in (c, Inr (Found (unspent_only T m))))"
| "run_call T V (Call_Uncache k) c = (Uncache T c k, Inr Done)"
| "run_call T V (Call_SetBestBlock h) c = (SetBestBlock c h, Inr Done)"
| "run_call T V (Call_AddCoins tx h) c = (let (c, r) = AddCoins T V c tx h True in (c, map_sum id (\<lambda>_. Done) r))"
| "run_call T V (Call_HaveInputs tx) c = (let (r, c) = HaveInputs T V c tx in (c, Inr (Answer r)))"
| "run_call T V Call_Flush c = (let (c, r) = Flush V c in (c, map_sum id Answer r))"
| "run_call T V Call_Sync c = (let (c, r) = Sync T V c in (c, map_sum id Answer r))"
| "run_call T V Call_SanityCheck c = (c, map_sum id (\<lambda>_. Done) (SanityCheck T c))"

primrec run_calls ::
    "'o txout_ops \<Rightarrow> ('b, 'o) coins_view_ops \<Rightarrow> 'o coins_call list \<Rightarrow> ('b, 'o) CCoinsViewCache \<Rightarrow>
     ('b, 'o) CCoinsViewCache \<times> 'o coins_answer list result" where
  "run_calls T V [] c = (c, Inr [])"
| "run_calls T V (a # as) c =
     (case run_call T V a c of
        (c, Inl e) \<Rightarrow> (c, Inl e)
      | (c, Inr x) \<Rightarrow> (case run_calls T V as c of (c, r) \<Rightarrow> (c, map_sum id ((#) x) r)))"

section \<open>The same calls on a set of coins\<close>

type_synonym 'o coins_set = "(outpoint \<Rightarrow> 'o Coin option) \<times> uint256"

fun set_call :: "'o txout_ops \<Rightarrow> 'o coins_call \<Rightarrow> 'o coins_set \<Rightarrow> 'o coins_set \<times> 'o coins_answer" where
  "set_call T (Call_GetCoin k) (U, h) = ((U, h), Found (U k))"
| "set_call T (Call_HaveCoin k) (U, h) = ((U, h), Answer (U k \<noteq> None))"
| "set_call T (Call_AddCoin k x ow) (U, h) =
     ((if out_IsUnspendable T (coin_out x) then U else U(k \<mapsto> x), h), Done)"
| "set_call T (Call_SpendCoin k) (U, h) = ((U(k := None), h), Found (U k))"
| "set_call T (Call_Uncache k) (U, h) = ((U, h), Done)"
| "set_call T (Call_SetBestBlock h') (U, h) = ((U, h'), Done)"
| "set_call T (Call_AddCoins tx n) (U, h) =
     ((add_outputs T (tx_GetHash tx) (tx_IsCoinBase tx) n (tx_vout tx) 0 U, h), Done)"
| "set_call T (Call_HaveInputs tx) (U, h) =
     ((U, h), Answer (tx_IsCoinBase tx \<or> list_all (\<lambda>k. U k \<noteq> None) (tx_prevouts tx)))"
| "set_call T Call_Flush (U, h) = ((U, h), Answer True)"
| "set_call T Call_Sync (U, h) = ((U, h), Answer True)"
| "set_call T Call_SanityCheck (U, h) = ((U, h), Done)"

text \<open>
  A call is allowed when an added coin is unspent and replaces an unspent one only where the caller says
  so, when a transaction has no null output, and when the best block is set before writing.
\<close>

fun call_allowed :: "'o txout_ops \<Rightarrow> 'o coins_call \<Rightarrow> 'o coins_set \<Rightarrow> bool" where
  "call_allowed T (Call_AddCoin k x ow) (U, h) \<longleftrightarrow> \<not> IsSpent T x \<and> (ow \<or> U k = None)"
| "call_allowed T (Call_AddCoins tx n) (U, h) \<longleftrightarrow> list_all (\<lambda>x. \<not> out_IsNull T x) (tx_vout tx)"
| "call_allowed T Call_Flush (U, h) \<longleftrightarrow> h \<noteq> null_hash"
| "call_allowed T Call_Sync (U, h) \<longleftrightarrow> h \<noteq> null_hash"
| "call_allowed T _ (U, h) \<longleftrightarrow> True"

primrec set_calls :: "'o txout_ops \<Rightarrow> 'o coins_call list \<Rightarrow> 'o coins_set \<Rightarrow> 'o coins_set \<times> 'o coins_answer list" where
  "set_calls T [] s = (s, [])"
| "set_calls T (a # as) s = (let (s, x) = set_call T a s; (s, xs) = set_calls T as s in (s, x # xs))"

primrec calls_allowed :: "'o txout_ops \<Rightarrow> 'o coins_call list \<Rightarrow> 'o coins_set \<Rightarrow> bool" where
  "calls_allowed T [] s = True"
| "calls_allowed T (a # as) s \<longleftrightarrow> call_allowed T a s \<and> calls_allowed T as (fst (set_call T a s))"

section \<open>The best block is only set by its operations\<close>

lemma FetchCoin_hashBlock: "hashBlock (snd (FetchCoin T V c k)) = hashBlock c"
  by (auto simp: FetchCoin_def Let_def split: option.splits prod.splits)

lemma fetch_hashBlock: "FetchCoin T V c k = (r, c') \<Longrightarrow> hashBlock c' = hashBlock c"
  using FetchCoin_hashBlock [of T V c k] by simp

lemma read_hashBlock:
  "GetCoin T V c k = (r, c') \<Longrightarrow> hashBlock c' = hashBlock c"
  "HaveCoin T V c k = (b, c') \<Longrightarrow> hashBlock c' = hashBlock c"
  "SpendCoin T V c k = (s, c') \<Longrightarrow> hashBlock c' = hashBlock c"
  by (auto simp: GetCoin_def HaveCoin_def SpendCoin_def Let_def split: prod.splits option.splits if_splits
      dest: fetch_hashBlock)

lemma write_hashBlock:
  "hashBlock (fst (AddCoin T c k x ow)) = hashBlock c" "hashBlock (Uncache T c k) = hashBlock c"
  "hashBlock (fst (Flush V c)) = hashBlock c" "hashBlock (fst (Sync T V c)) = hashBlock c"
  by (auto simp: AddCoin_def Uncache_def Flush_def Sync_def Let_def split: prod.splits option.splits sum.splits)

lemma AddCoins_loop_hashBlock: "hashBlock (fst (AddCoins_loop T V tx h ch xs i c)) = hashBlock c"
proof (induction xs arbitrary: i c)
  case (Cons x xs)
  obtain ow c1 where o: "(if ch then HaveCoin T V c (tx_GetHash tx, i) else (tx_IsCoinBase tx, c)) = (ow, c1)" by fastforce
  obtain c2 r where a: "AddCoin T c1 (tx_GetHash tx, i) (make_Coin x h (tx_IsCoinBase tx)) ow = (c2, r)" by fastforce
  have "hashBlock c1 = hashBlock c" using o by (auto dest: read_hashBlock split: if_splits)
  moreover have "hashBlock c2 = hashBlock c1"
    using write_hashBlock(1) [of T c1 "(tx_GetHash tx, i)" "make_Coin x h (tx_IsCoinBase tx)" ow] a by simp
  ultimately show ?case using o a Cons.IH by (simp add: Let_def split: sum.splits)
qed simp

lemma HaveInputs_loop_hashBlock: "HaveInputs_loop T V ks c = (r, c') \<Longrightarrow> hashBlock c' = hashBlock c"
  by (induction ks arbitrary: c) (auto dest: read_hashBlock split: prod.splits if_splits)

section \<open>Refinement\<close>

context coins_view
begin

abbreviation "represents c \<equiv> (cview c, hashBlock c)"

lemma SpendCoin_moved:
  assumes "cinv c" "SpendCoin T V c k = ((r, m), c')"
  shows "unspent_only T m = cview c k"
proof -
  obtain e c1 where f: "FetchCoin T V c k = (e, c1)" by fastforce
  from FetchCoin_spec [OF assms(1) f] assms(2) f show ?thesis
    by (auto simp: SpendCoin_def Let_def unspent_only_def entry_value_def split: option.splits if_splits)
qed

lemma run_call_reads:
  assumes "cinv c" "a \<in> {Call_GetCoin k, Call_HaveCoin k, Call_Uncache k, Call_HaveInputs tx, Call_SanityCheck}"
  shows "\<exists>c'. run_call T V a c = (c', Inr (snd (set_call T a (represents c)))) \<and> cinv c' \<and>
    represents c' = fst (set_call T a (represents c))"
proof -
  obtain r c1 where g: "GetCoin T V c k = (r, c1)" by fastforce
  obtain b c2 where h: "HaveCoin T V c k = (b, c2)" by fastforce
  obtain i c3 where l: "HaveInputs_loop T V (tx_prevouts tx) c = (i, c3)" by fastforce
  from assms(2) consider "a = Call_GetCoin k" | "a = Call_HaveCoin k" | "a = Call_Uncache k"
    | "a = Call_HaveInputs tx" | "a = Call_SanityCheck" by blast
  thus ?thesis
  proof cases
    case 1
    thus ?thesis using g GetCoin_spec [OF assms(1) g] read_hashBlock(1) [OF g] by simp
  next
    case 2
    thus ?thesis using h HaveCoin_spec [OF assms(1) h] read_hashBlock(2) [OF h] by simp
  next
    case 3
    thus ?thesis using Uncache_spec [OF assms(1)] by (simp add: write_hashBlock)
  next
    case 4
    thus ?thesis
      using l HaveInputs_loop_spec [OF assms(1) l] HaveInputs_loop_hashBlock [OF l] assms(1)
      by (auto simp: HaveInputs_def list_all_iff)
  next
    case 5
    thus ?thesis using SanityCheck_spec [OF assms(1)] assms(1) by simp
  qed
qed

lemma run_call_writes:
  assumes "txout_ok T" "cinv c" "call_allowed T a (represents c)"
    "a \<in> {Call_AddCoin k x ow, Call_SpendCoin k, Call_AddCoins tx n, Call_SetBestBlock h}"
  shows "\<exists>c'. run_call T V a c = (c', Inr (snd (set_call T a (represents c)))) \<and> cinv c' \<and>
    represents c' = fst (set_call T a (represents c))"
proof -
  obtain r m c1 where s: "SpendCoin T V c k = ((r, m), c1)" by (metis prod.exhaust)
  from assms(4) consider "a = Call_AddCoin k x ow" | "a = Call_SpendCoin k" | "a = Call_AddCoins tx n"
    | "a = Call_SetBestBlock h" by blast
  thus ?thesis
  proof cases
    case 1
    with AddCoin_spec [OF assms(2) _ _ assms(1), of x ow k] assms(3) obtain c' where
      "AddCoin T c k x ow = (c', Inr ())" "cinv c'"
      "cview c' = (if out_IsUnspendable T (coin_out x) then cview c else (cview c)(k \<mapsto> x))" by auto
    thus ?thesis using 1 write_hashBlock(1) [of T c k x ow] by simp
  next
    case 2
    thus ?thesis
      using s SpendCoin_spec [OF assms(2) s assms(1)] SpendCoin_moved [OF assms(2) s] read_hashBlock(3) [OF s] by simp
  next
    case 3
    have "\<And>y. y \<in> set (tx_vout tx) \<Longrightarrow> \<not> out_IsNull T y" using 3 assms(3) by (simp add: list_all_iff)
    from AddCoins_loop_checked [OF assms(1,2), of "tx_vout tx" tx n 0, OF this] obtain c' where
      "AddCoins T V c tx n True = (c', Inr ())" "cinv c'"
      "cview c' = add_outputs T (tx_GetHash tx) (tx_IsCoinBase tx) n (tx_vout tx) 0 (cview c)"
      by (auto simp: AddCoins_def)
    thus ?thesis
      using 3 AddCoins_loop_hashBlock [of T V tx n True "tx_vout tx" 0 c] by (simp add: AddCoins_def)
  next
    case 4
    thus ?thesis using assms(2)
      by (auto simp: SetBestBlock_def cache_ok_def cache_utxo_def fun_eq_iff cong: option.case_cong)
  qed
qed

lemma run_call_flushes:
  assumes "cinv c" "call_allowed T a (represents c)" "a = Call_Flush \<or> a = Call_Sync"
  shows "\<exists>c'. run_call T V a c = (c', Inr (snd (set_call T a (represents c)))) \<and> cinv c' \<and>
    represents c' = fst (set_call T a (represents c))"
  using assms(3)
proof
  assume a: "a = Call_Flush"
  with Flush_spec [OF assms(1)] assms(2) obtain c' where
    "Flush V c = (c', Inr True)" "cview c' = cview c" "cinv c'" by auto
  thus ?thesis using a write_hashBlock(3) [of V c] by simp
next
  assume a: "a = Call_Sync"
  with Sync_spec [OF assms(1)] assms(2) obtain c' where
    "Sync T V c = (c', Inr True)" "cview c' = cview c" "cinv c'" by auto
  thus ?thesis using a write_hashBlock(4) [of T V c] by simp
qed

lemma run_call_refines:
  assumes "txout_ok T" "cinv c" "call_allowed T a (represents c)"
  shows "\<exists>c'. run_call T V a c = (c', Inr (snd (set_call T a (represents c)))) \<and> cinv c' \<and>
    represents c' = fst (set_call T a (represents c))"
proof (cases a)
  case (Call_AddCoin k x ow)
  thus ?thesis using run_call_writes [OF assms, of k x ow] by blast
next
  case (Call_AddCoins tx n)
  thus ?thesis using run_call_writes [OF assms, of _ _ _ tx n] by blast
qed (use run_call_reads [OF assms(2)] run_call_writes [OF assms] run_call_flushes [OF assms(2,3)] in blast)+

lemma run_calls_refine:
  assumes "txout_ok T"
  shows "cinv c \<Longrightarrow> calls_allowed T as (represents c) \<Longrightarrow>
    \<exists>c'. run_calls T V as c = (c', Inr (snd (set_calls T as (represents c)))) \<and> cinv c' \<and>
      represents c' = fst (set_calls T as (represents c))"
proof (induction as arbitrary: c)
  case (Cons a as)
  have "call_allowed T a (represents c)" using Cons.prems(2) by simp
  from run_call_refines [OF assms Cons.prems(1) this] obtain c1 where
    c1: "run_call T V a c = (c1, Inr (snd (set_call T a (represents c))))" "cinv c1"
      "represents c1 = fst (set_call T a (represents c))" by blast
  from Cons.prems(2) have "calls_allowed T as (represents c1)" using c1(3) by simp
  from Cons.IH [OF c1(2) this] c1 show ?case
    by (fastforce simp: case_prod_unfold Let_def)
qed simp

end

section \<open>The chain state's views\<close>

lemma new_cache_ok [simp]:
  "ok b \<Longrightarrow> cache_ok T utxo ok (CCoinsViewCache_new b)" "cache_utxo T utxo (CCoinsViewCache_new b) = utxo b"
  "hashBlock (CCoinsViewCache_new b) = null_hash" "base (CCoinsViewCache_new b) = b"
  by (auto simp: CCoinsViewCache_new_def cache_ok_def cache_utxo_def map_usage_def null_hash_def fun_eq_iff)

lemma base_written: "base (c\<lparr>base := b, cacheCoins := m, cachedCoinsUsage := u\<rparr>) = b"
  by (cases c) simp

lemma Flush_to_cache: "Flush (cache_view T V) c = (c', Inr r) \<Longrightarrow> hashBlock (base c') = hashBlock c"
  by (auto simp: Flush_def cache_view_def BatchWrite_def Let_def base_written split: prod.splits sum.splits if_splits)

lemma Flush_to_db:
  "Flush (CCoinsViewDB T est lim) c = (c', Inr r) \<Longrightarrow>
    db_best_block (base c') = Some (hashBlock c) \<and> db_head_blocks (base c') = None"
  by (auto simp: Flush_def CCoinsViewDB_def DB_BatchWrite_def Let_def WriteBatch_append
      split: prod.splits sum.splits if_splits db_outcome.splits) (simp_all add: WriteBatch_def)


definition sample_calls :: "(int \<times> bytes) coins_call list" where
  "sample_calls =
     [Call_HaveCoin (sample_hash 1, 0), Call_SpendCoin (sample_hash 1, 0),
      Call_AddCoin (sample_hash 2, 0) (sample_coin 30) False, Call_SetBestBlock (sample_hash 8), Call_Sync,
      Call_GetCoin (sample_hash 2, 0), Call_Flush, Call_HaveCoin (sample_hash 1, 0)]"

lemma sample_calls_allowed: "calls_allowed sample_outputs sample_calls (db_coin sample_db, null_hash)"
  using sample_simps by (simp add: sample_calls_def sample_db_def)

lemma sample_calls_result:
  "set_calls sample_outputs sample_calls (db_coin sample_db, null_hash) =
    (([(sample_hash 2, 0) \<mapsto> sample_coin 30], sample_hash 8),
     [Answer True, Found (Some (sample_coin 50)), Done, Done, Answer True, Found (Some (sample_coin 30)), Answer True, Answer False])"
  using sample_simps by (simp add: sample_calls_def sample_db_def sample_outputs_def sample_coin_def make_Coin_def)


text \<open>
  C9: changes made in a temporary cache on top of the chain state's cache reach the database: flushing
  the temporary cache and then the one below succeeds, and leaves in the database exactly the set of
  coins the calls describe, with the best block the temporary cache had.
\<close>

theorem stacked_caches_flush:
  assumes "txout_ok T" "db_ok T db" "calls_allowed T as (db_coin db, null_hash)"
    "set_calls T as (db_coin db, null_hash) = ((U, h), answers)" "h \<noteq> null_hash"
  shows "\<exists>child child' tip.
    run_calls T (cache_view T (CCoinsViewDB T est lim)) as (CCoinsViewCache_new (CCoinsViewCache_new db)) =
      (child, Inr answers) \<and>
    Flush (cache_view T (CCoinsViewDB T est lim)) child = (child', Inr True) \<and>
    Flush (CCoinsViewDB T est lim) (base child') = (tip, Inr True) \<and>
    db_coin (base tip) = U \<and> DB_GetBestBlock (base tip) = h \<and> DB_GetHeadBlocks (base tip) = []"
proof -
  from coins_tip.run_calls_refine [OF assms(1), of "CCoinsViewCache_new (CCoinsViewCache_new db)" as est lim] assms
  obtain child where child:
    "run_calls T (cache_view T (CCoinsViewDB T est lim)) as (CCoinsViewCache_new (CCoinsViewCache_new db)) = (child, Inr answers)"
    "cache_ok T (cache_utxo T db_coin) (cache_ok T db_coin (db_ok T)) child"
    "cache_utxo T (cache_utxo T db_coin) child = U" "hashBlock child = h" by auto
  from coins_tip.Flush_spec [OF child(2), of est lim] assms(5) child(4) obtain child' where child':
    "Flush (cache_view T (CCoinsViewDB T est lim)) child = (child', Inr True)"
    "cache_utxo T db_coin (base child') = U" "cache_ok T db_coin (db_ok T) (base child')"
    by (auto simp: child(3) cache_ok_def [of T "cache_utxo T db_coin"])
  have h: "hashBlock (base child') = h" using Flush_to_cache [OF child'(1)] child(4) by simp
  from coins_database.Flush_spec [OF child'(3), of est lim] assms(5) h obtain tip where tip:
    "Flush (CCoinsViewDB T est lim) (base child') = (tip, Inr True)" "db_coin (base tip) = U"
    by (auto simp: child'(2))
  with Flush_to_db [OF tip(1)] h child(1) child'(1) show ?thesis
    by (auto simp: DB_GetBestBlock_def DB_GetHeadBlocks_def)
qed

theorem stacked_caches_flush_witness:
  "\<exists>child child' tip.
    run_calls sample_outputs (cache_view sample_outputs (CCoinsViewDB sample_outputs length 2)) sample_calls
      (CCoinsViewCache_new (CCoinsViewCache_new sample_db)) =
      (child, Inr [Answer True, Found (Some (sample_coin 50)), Done, Done, Answer True, Found (Some (sample_coin 30)), Answer True, Answer False]) \<and>
    Flush (cache_view sample_outputs (CCoinsViewDB sample_outputs length 2)) child = (child', Inr True) \<and>
    Flush (CCoinsViewDB sample_outputs length 2) (base child') = (tip, Inr True) \<and>
    db_coin (base tip) = [(sample_hash 2, 0) \<mapsto> sample_coin 30]"
  using stacked_caches_flush [OF sample_simps(5,6) sample_calls_allowed sample_calls_result sample_simps(2), of length 2]
  by blast

text \<open>A view that passes every call on keeps the contract of the one it passes them to.\<close>

lemma CCoinsViewBacked_id: "CCoinsViewBacked V = V"
  by (simp add: CCoinsViewBacked_def)

interpretation coins_backed: coins_view T "CCoinsViewBacked (CCoinsViewDB T est lim)" db_coin "db_ok T"
  for T :: "'o txout_ops" and est lim
  unfolding CCoinsViewBacked_id by (rule coins_database.coins_view_axioms)

section \<open>Exceptions\<close>

text \<open>
  C32: adding a coin over an unspent one without permission throws and leaves the map alone, but the
  memory counter has already been lowered by the old coin's size; unless that size is zero, the
  counter is then wrong and \<^verbatim>\<open>SanityCheck\<close> fails.
\<close>

theorem AddCoin_throw_breaks_usage:
  assumes "cache_ok T db_coin (db_ok T) c" "map_of (cacheCoins c) k = Some e" "\<not> IsSpent T (coin e)"
    "\<not> IsSpent T x" "\<not> out_IsUnspendable T (coin_out x)"
  shows "\<exists>c'. AddCoin T c k x False =
      (c', Inl (Thrown ''Attempted to overwrite an unspent coin (when possible_overwrite is false)'')) \<and>
    map_of (cacheCoins c') = map_of (cacheCoins c) \<and>
    (Coin_DynamicMemoryUsage T (coin e) \<noteq> 0 \<longrightarrow> SanityCheck T c' = Inl Assert_failed)"
proof -
  let ?c = "c\<lparr>cacheCoins := AList.update k e (cacheCoins c),
    cachedCoinsUsage := cachedCoinsUsage c - Coin_DynamicMemoryUsage T (coin e)\<rparr>"
  have u: "AList.update k e (cacheCoins c) = cacheCoins c"
    using assms(2) by (simp add: update_triv)
  have "SanityCheck_loop T (cacheCoins c) 0 = Inr (cachedCoinsUsage c)"
    using coins_database.SanityCheck_usage [OF assms(1)] .
  hence "Coin_DynamicMemoryUsage T (coin e) \<noteq> 0 \<longrightarrow> SanityCheck T ?c = Inl Assert_failed"
    by (simp add: SanityCheck_def u cpp_assert_def)
  moreover have "AddCoin T c k x False =
      (?c, Inl (Thrown ''Attempted to overwrite an unspent coin (when possible_overwrite is false)''))"
    using assms by (simp add: AddCoin_def Let_def)
  ultimately show ?thesis by (auto simp: u)
qed

definition sample_cache :: "((int \<times> bytes) coins_db, int \<times> bytes) CCoinsViewCache" where
  "sample_cache = \<lparr>base = sample_db, hashBlock = null_hash,
     cacheCoins = [((sample_hash 1, 0), \<lparr>coin = sample_coin 50, flags = {}\<rparr>)], cachedCoinsUsage = 2\<rparr>"

theorem AddCoin_throw_breaks_usage_witness:
  "\<exists>c'. AddCoin sample_outputs sample_cache (sample_hash 1, 0) (sample_coin 30) False =
      (c', Inl (Thrown ''Attempted to overwrite an unspent coin (when possible_overwrite is false)'')) \<and>
    SanityCheck sample_outputs c' = Inl Assert_failed"
proof -
  let ?e = "\<lparr>coin = sample_coin 50, flags = {}\<rparr>"
  have "cache_ok sample_outputs db_coin (db_ok sample_outputs) sample_cache"
    using sample_simps(6,7)
    by (simp add: cache_ok_def sample_cache_def entry_ok_def entry_value_def sample_db_def map_usage_def
        Coin_DynamicMemoryUsage_def sample_outputs_def sample_coin_def make_Coin_def IsSpent_def)
  moreover have "map_of (cacheCoins sample_cache) (sample_hash 1, 0) = Some ?e" by (simp add: sample_cache_def)
  moreover have "\<not> out_IsUnspendable sample_outputs (coin_out (sample_coin 30))"
    "Coin_DynamicMemoryUsage sample_outputs (coin ?e) \<noteq> 0"
    by (simp_all add: sample_outputs_def sample_coin_def make_Coin_def Coin_DynamicMemoryUsage_def)
  ultimately show ?thesis
    using AddCoin_throw_breaks_usage [of sample_outputs sample_cache "(sample_hash 1, 0)" ?e "sample_coin 30"]
      sample_simps(7,8) by auto
qed

end
