(* ===== verification/Version_Bits.thy ===== *)
theory Version_Bits
  imports Block_Index Consensus_Params
begin

text \<open>
  The deployment state machine of \<^verbatim>\<open>versionbits.h\<close> and \<^verbatim>\<open>versionbits.cpp\<close>. The virtual functions of the
  abstract checker are a record; the cache is a map from block index pointers to states. The walk
  over the periods is a partial function, since it ends only because heights go down.
\<close>

section \<open>States and checkers\<close>

datatype ThresholdState = DEFINED | STARTED | LOCKED_IN | ACTIVE | FAILED

type_synonym ThresholdConditionCache = "addr option \<rightharpoonup> ThresholdState"

record BIP9Stats =
  period :: int
  threshold :: int
  elapsed :: int
  stat_count :: int
  possible :: bool

record threshold_checker =
  Condition :: "CBlockIndex \<Rightarrow> Params \<Rightarrow> bool"
  BeginTime :: "Params \<Rightarrow> int"
  EndTime :: "Params \<Rightarrow> int"
  MinActivationHeight :: "Params \<Rightarrow> int"
  Period :: "Params \<Rightarrow> int"
  Threshold :: "Params \<Rightarrow> int"

section \<open>The state for a block\<close>

text \<open>The block whose period decides, from the parent of the block in question.\<close>

definition period_parent :: "threshold_checker \<Rightarrow> block_store \<Rightarrow> Params \<Rightarrow> addr option \<Rightarrow> addr option result" where
  "period_parent C st params pindexPrev =
     (case pindexPrev of
        None \<Rightarrow> Inr None
      | Some a \<Rightarrow>
          rbind (deref st a) (\<lambda>b.
          rbind (cpp_mod (nHeight b + 1) (Period C params)) (\<lambda>m. GetAncestor st a (nHeight b - m))))"

text \<open>Walking back to a known state; the last argument is the stack \<^verbatim>\<open>vToCompute\<close>, its back first.\<close>

partial_function (option) state_walk ::
  "threshold_checker \<Rightarrow> block_store \<Rightarrow> Params \<Rightarrow> addr option \<Rightarrow> ThresholdConditionCache \<Rightarrow> addr list \<Rightarrow>
   (addr option \<times> ThresholdConditionCache \<times> addr list) result option" where
  "state_walk C st params pindexPrev cache vToCompute =
     (if cache pindexPrev \<noteq> None then Some (Inr (pindexPrev, cache, vToCompute))
      else case pindexPrev of
        None \<Rightarrow> Some (Inr (None, cache(None \<mapsto> DEFINED), vToCompute))
      | Some a \<Rightarrow>
          (case GetMedianTimePast st a of
             Inl e \<Rightarrow> Some (Inl e)
           | Inr mtp \<Rightarrow>
               if mtp < BeginTime C params then Some (Inr (Some a, cache(Some a \<mapsto> DEFINED), vToCompute))
               else (case rbind (deref st a) (\<lambda>b. GetAncestor st a (nHeight b - Period C params)) of
                       Inl e \<Rightarrow> Some (Inl e)
                     | Inr q \<Rightarrow> state_walk C st params q cache (a # vToCompute))))"

primrec count_loop ::
  "threshold_checker \<Rightarrow> block_store \<Rightarrow> Params \<Rightarrow> nat \<Rightarrow> addr option \<Rightarrow> int \<Rightarrow> int result" where
  "count_loop C st params 0 pindexCount count1 = Inr count1"
| "count_loop C st params (Suc n) pindexCount count1 =
     (case pindexCount of
        None \<Rightarrow> Inl Null_deref
      | Some a \<Rightarrow>
          rbind (deref st a) (\<lambda>b.
            count_loop C st params n (pprev b) (if Condition C b params then count1 + 1 else count1)))"

definition stateNext ::
  "threshold_checker \<Rightarrow> block_store \<Rightarrow> Params \<Rightarrow> ThresholdState \<Rightarrow> addr \<Rightarrow> ThresholdState result" where
  "stateNext C st params state pindexPrev =
     (case state of
        DEFINED \<Rightarrow>
          rbind (GetMedianTimePast st pindexPrev) (\<lambda>mtp.
            Inr (if mtp \<ge> BeginTime C params then STARTED else state))
      | STARTED \<Rightarrow>
          rbind (count_loop C st params (nat (Period C params)) (Some pindexPrev) 0) (\<lambda>count1.
            if count1 \<ge> Threshold C params then Inr LOCKED_IN
            else rbind (GetMedianTimePast st pindexPrev) (\<lambda>mtp.
              Inr (if mtp \<ge> EndTime C params then FAILED else state)))
      | LOCKED_IN \<Rightarrow>
          rbind (deref st pindexPrev) (\<lambda>b.
            Inr (if nHeight b + 1 \<ge> MinActivationHeight C params then ACTIVE else state))
      | FAILED \<Rightarrow> Inr state
      | ACTIVE \<Rightarrow> Inr state)"

primrec state_forward ::
  "threshold_checker \<Rightarrow> block_store \<Rightarrow> Params \<Rightarrow> addr list \<Rightarrow> ThresholdState \<Rightarrow> ThresholdConditionCache \<Rightarrow>
   (ThresholdState \<times> ThresholdConditionCache) result" where
  "state_forward C st params [] state cache = Inr (state, cache)"
| "state_forward C st params (a # as) state cache =
     rbind (stateNext C st params state a) (\<lambda>state.
       state_forward C st params as state (cache(Some a \<mapsto> state)))"

definition GetStateFor ::
  "threshold_checker \<Rightarrow> block_store \<Rightarrow> addr option \<Rightarrow> Params \<Rightarrow> ThresholdConditionCache \<Rightarrow>
   (ThresholdState \<times> ThresholdConditionCache) result option" where
  "GetStateFor C st pindexPrev params cache =
     (if BeginTime C params = ALWAYS_ACTIVE then Some (Inr (ACTIVE, cache))
      else if BeginTime C params = NEVER_ACTIVE then Some (Inr (FAILED, cache))
      else case period_parent C st params pindexPrev of
             Inl e \<Rightarrow> Some (Inl e)
           | Inr p \<Rightarrow>
               (case state_walk C st params p cache [] of
                  None \<Rightarrow> None
                | Some (Inl e) \<Rightarrow> Some (Inl e)
                | Some (Inr (q, cache, vToCompute)) \<Rightarrow>
                    Some (case cache q of
                            None \<Rightarrow> Inl Assert_failed
                          | Some state \<Rightarrow> state_forward C st params vToCompute state cache)))"

section \<open>Statistics\<close>

text \<open>The loop of the statistics, by the blocks that are left in the period.\<close>

primrec stats_loop ::
  "threshold_checker \<Rightarrow> block_store \<Rightarrow> Params \<Rightarrow> nat \<Rightarrow> addr option \<Rightarrow> int \<Rightarrow> int \<Rightarrow> bool list option \<Rightarrow>
   (int \<times> int \<times> bool list option) result" where
  "stats_loop C st params 0 currentIndex elapsed' count1 signalling = Inr (elapsed', count1, signalling)"
| "stats_loop C st params (Suc blocks_in_period) currentIndex elapsed' count1 signalling =
     (case currentIndex of
        None \<Rightarrow> Inl Null_deref
      | Some a \<Rightarrow>
          rbind (deref st a) (\<lambda>b.
            if Condition C b params
            then stats_loop C st params blocks_in_period (pprev b) (elapsed' + 1) (count1 + 1)
                   (map_option (\<lambda>v. v[blocks_in_period := True]) signalling)
            else stats_loop C st params blocks_in_period (pprev b) (elapsed' + 1) count1 signalling))"

definition GetStateStatisticsFor ::
  "threshold_checker \<Rightarrow> block_store \<Rightarrow> addr option \<Rightarrow> Params \<Rightarrow> bool list option \<Rightarrow>
   (BIP9Stats \<times> bool list option) result" where
  "GetStateStatisticsFor C st pindex params signalling =
     (case pindex of
        None \<Rightarrow> Inr (\<lparr>period = Period C params, threshold = Threshold C params, elapsed = 0, stat_count = 0,
                  possible = False\<rparr>, signalling)
      | Some a \<Rightarrow>
          rbind (deref st a) (\<lambda>b.
          rbind (cpp_mod (nHeight b) (Period C params)) (\<lambda>m.
            let blocks_in_period = nat (1 + m);
                signalling = map_option (\<lambda>_. replicate blocks_in_period False) signalling
            in rbind (stats_loop C st params blocks_in_period (Some a) 0 0 signalling)
                 (\<lambda>(elapsed', count1, signalling).
                   Inr (\<lparr>period = Period C params, threshold = Threshold C params, elapsed = elapsed',
                     stat_count = count1,
                     possible = (Period C params - Threshold C params \<ge> elapsed' - count1)\<rparr>, signalling)))))"

section \<open>The height since which a state holds\<close>

partial_function (option) since_loop ::
  "threshold_checker \<Rightarrow> block_store \<Rightarrow> Params \<Rightarrow> ThresholdState \<Rightarrow> addr \<Rightarrow> addr option \<Rightarrow> ThresholdConditionCache \<Rightarrow>
   (int \<times> ThresholdConditionCache) result option" where
  "since_loop C st params initialState pindexPrev previousPeriodParent cache =
     (case previousPeriodParent of
        None \<Rightarrow> Some (rbind (deref st pindexPrev) (\<lambda>b. Inr (nHeight b + 1, cache)))
      | Some q \<Rightarrow>
          (case GetStateFor C st (Some q) params cache of
             None \<Rightarrow> None
           | Some (Inl e) \<Rightarrow> Some (Inl e)
           | Some (Inr (state, cache)) \<Rightarrow>
               if state = initialState
               then (case rbind (deref st q) (\<lambda>qb. GetAncestor st q (nHeight qb - Period C params)) of
                       Inl e \<Rightarrow> Some (Inl e)
                     | Inr r \<Rightarrow> since_loop C st params initialState q r cache)
               else Some (rbind (deref st pindexPrev) (\<lambda>b. Inr (nHeight b + 1, cache)))))"

definition GetStateSinceHeightFor ::
  "threshold_checker \<Rightarrow> block_store \<Rightarrow> addr option \<Rightarrow> Params \<Rightarrow> ThresholdConditionCache \<Rightarrow>
   (int \<times> ThresholdConditionCache) result option" where
  "GetStateSinceHeightFor C st pindexPrev params cache =
     (if BeginTime C params = ALWAYS_ACTIVE \<or> BeginTime C params = NEVER_ACTIVE then Some (Inr (0, cache))
      else case GetStateFor C st pindexPrev params cache of
             None \<Rightarrow> None
           | Some (Inl e) \<Rightarrow> Some (Inl e)
           | Some (Inr (initialState, cache)) \<Rightarrow>
               if initialState = DEFINED then Some (Inr (0, cache))
               else
                 (case rbind (case pindexPrev of None \<Rightarrow> Inl Null_deref | Some a \<Rightarrow> Inr (Some a)) (period_parent C st params) of
                    Inl e \<Rightarrow> Some (Inl e)
                  | Inr None \<Rightarrow> Some (Inl Assert_failed)
                  | Inr (Some p) \<Rightarrow>
                      (case rbind (deref st p) (\<lambda>b. GetAncestor st p (nHeight b - Period C params)) of
                         Inl e \<Rightarrow> Some (Inl e)
                       | Inr r \<Rightarrow> since_loop C st params initialState p r cache)))"

section \<open>The versionbits checker and its caches\<close>

definition VERSIONBITS_TOP_BITS :: u32 where "VERSIONBITS_TOP_BITS = 0x20000000"
definition VERSIONBITS_TOP_MASK :: u32 where "VERSIONBITS_TOP_MASK = 0xE0000000"

definition checker_Mask :: "DeploymentPos \<Rightarrow> Params \<Rightarrow> u32" where
  "checker_Mask pos params = push_bit (bit_pos (vDeployments params pos)) 1"

definition VersionBitsConditionChecker :: "DeploymentPos \<Rightarrow> threshold_checker" where
  "VersionBitsConditionChecker pos =
     \<lparr>Condition = (\<lambda>b params. nVersion b AND VERSIONBITS_TOP_MASK = VERSIONBITS_TOP_BITS \<and>
                               nVersion b AND checker_Mask pos params \<noteq> 0),
      BeginTime = (\<lambda>params. nStartTime (vDeployments params pos)),
      EndTime = (\<lambda>params. nTimeout (vDeployments params pos)),
      MinActivationHeight = (\<lambda>params. min_activation_height (vDeployments params pos)),
      Period = (\<lambda>params. sint (nMinerConfirmationWindow params)),
      Threshold = (\<lambda>params. sint (nRuleChangeActivationThreshold params))\<rparr>"

type_synonym VersionBitsCache = "DeploymentPos \<Rightarrow> ThresholdConditionCache"

definition deployments :: "DeploymentPos list" where
  "deployments = [DEPLOYMENT_TESTDUMMY, DEPLOYMENT_TAPROOT]"

definition vb_State ::
  "block_store \<Rightarrow> VersionBitsCache \<Rightarrow> addr option \<Rightarrow> Params \<Rightarrow> DeploymentPos \<Rightarrow>
   (ThresholdState \<times> VersionBitsCache) result option" where
  "vb_State st m_caches pindexPrev params pos =
     map_option (map_sum id (\<lambda>(s, c). (s, m_caches(pos := c))))
       (GetStateFor (VersionBitsConditionChecker pos) st pindexPrev params (m_caches pos))"

definition vb_Statistics ::
  "block_store \<Rightarrow> addr option \<Rightarrow> Params \<Rightarrow> DeploymentPos \<Rightarrow> bool list option \<Rightarrow>
   (BIP9Stats \<times> bool list option) result" where
  "vb_Statistics st pindex params pos signalling_blocks =
     GetStateStatisticsFor (VersionBitsConditionChecker pos) st pindex params signalling_blocks"

definition vb_StateSinceHeight ::
  "block_store \<Rightarrow> VersionBitsCache \<Rightarrow> addr option \<Rightarrow> Params \<Rightarrow> DeploymentPos \<Rightarrow>
   (int \<times> VersionBitsCache) result option" where
  "vb_StateSinceHeight st m_caches pindexPrev params pos =
     map_option (map_sum id (\<lambda>(n, c). (n, m_caches(pos := c))))
       (GetStateSinceHeightFor (VersionBitsConditionChecker pos) st pindexPrev params (m_caches pos))"

definition vb_Mask :: "Params \<Rightarrow> DeploymentPos \<Rightarrow> u32" where
  "vb_Mask params pos = checker_Mask pos params"

primrec version_loop ::
  "block_store \<Rightarrow> addr option \<Rightarrow> Params \<Rightarrow> DeploymentPos list \<Rightarrow> u32 \<Rightarrow> VersionBitsCache \<Rightarrow>
   (u32 \<times> VersionBitsCache) result option" where
  "version_loop st pindexPrev params [] v m_caches = Some (Inr (v, m_caches))"
| "version_loop st pindexPrev params (pos # ps) v m_caches =
     (case vb_State st m_caches pindexPrev params pos of
        None \<Rightarrow> None
      | Some (Inl e) \<Rightarrow> Some (Inl e)
      | Some (Inr (state, m_caches)) \<Rightarrow>
          version_loop st pindexPrev params ps
            (if state = LOCKED_IN \<or> state = STARTED then v OR vb_Mask params pos else v) m_caches)"

definition ComputeBlockVersion ::
  "block_store \<Rightarrow> VersionBitsCache \<Rightarrow> addr option \<Rightarrow> Params \<Rightarrow> (u32 \<times> VersionBitsCache) result option" where
  "ComputeBlockVersion st m_caches pindexPrev params =
     version_loop st pindexPrev params deployments VERSIONBITS_TOP_BITS m_caches"

definition vb_Clear :: "VersionBitsCache \<Rightarrow> VersionBitsCache" where
  "vb_Clear m_caches = (\<lambda>pos. Map.empty)"

end
