(* ===== verification/Deployment_States.thy ===== *)
theory Deployment_States
  imports Version_Bits
begin

text \<open>
  The states a deployment goes through on a branch, period by period and without a cache, and the
  proof that the cached computation of \<^verbatim>\<open>versionbits.cpp\<close> returns them.
\<close>

section \<open>The states of a branch\<close>

definition mtp_of :: "block_store \<Rightarrow> addr \<Rightarrow> int" where
  "mtp_of st a = median_upper (recent_times st 11 (Some a))"

text \<open>Block times are at least the median time past of the parent, as header validation requires.\<close>

definition times_ok :: "block_store \<Rightarrow> bool" where
  "times_ok st \<longleftrightarrow> (\<forall>a b p. st a = Some b \<longrightarrow> pprev b = Some p \<longrightarrow> mtp_of st p \<le> GetBlockTime b)"

definition deployment_ok :: "threshold_checker \<Rightarrow> block_store \<Rightarrow> Params \<Rightarrow> bool" where
  "deployment_ok C st params \<longleftrightarrow> wf_index st \<and> times_ok st \<and> 0 < Period C params \<and>
     BeginTime C params \<noteq> ALWAYS_ACTIVE \<and> BeginTime C params \<noteq> NEVER_ACTIVE"

primrec signals :: "threshold_checker \<Rightarrow> block_store \<Rightarrow> Params \<Rightarrow> nat \<Rightarrow> addr option \<Rightarrow> int" where
  "signals C st params 0 p = 0"
| "signals C st params (Suc n) p =
     (case p of None \<Rightarrow> 0
      | Some a \<Rightarrow> (case st a of None \<Rightarrow> 0
                   | Some b \<Rightarrow> (if Condition C b params then 1 else 0) + signals C st params n (pprev b)))"

definition bip9_next ::
  "threshold_checker \<Rightarrow> block_store \<Rightarrow> Params \<Rightarrow> ThresholdState \<Rightarrow> addr \<Rightarrow> int \<Rightarrow> ThresholdState" where
  "bip9_next C st params s a h =
     (case s of
        DEFINED \<Rightarrow> if BeginTime C params \<le> mtp_of st a then STARTED else DEFINED
      | STARTED \<Rightarrow>
          if Threshold C params \<le> signals C st params (nat (Period C params)) (Some a) then LOCKED_IN
          else if EndTime C params \<le> mtp_of st a then FAILED else STARTED
      | LOCKED_IN \<Rightarrow> if MinActivationHeight C params \<le> h + 1 then ACTIVE else LOCKED_IN
      | ACTIVE \<Rightarrow> ACTIVE
      | FAILED \<Rightarrow> FAILED)"

text \<open>The state after \<^verbatim>\<open>n\<close> full periods, the last of which ends with the given block.\<close>

primrec period_state ::
  "threshold_checker \<Rightarrow> block_store \<Rightarrow> Params \<Rightarrow> nat \<Rightarrow> addr option \<Rightarrow> ThresholdState" where
  "period_state C st params 0 p = DEFINED"
| "period_state C st params (Suc n) p =
     (case p of None \<Rightarrow> DEFINED
      | Some a \<Rightarrow> bip9_next C st params
          (period_state C st params n (ancestor st a (int n * Period C params - 1))) a
          (int (Suc n) * Period C params - 1))"

text \<open>The state for the block after \<^verbatim>\<open>p\<close>: that of the last full period on its branch.\<close>

definition branch_state ::
  "threshold_checker \<Rightarrow> block_store \<Rightarrow> Params \<Rightarrow> addr option \<Rightarrow> ThresholdState" where
  "branch_state C st params p =
     (case p of None \<Rightarrow> DEFINED
      | Some a \<Rightarrow>
          (case st a of None \<Rightarrow> DEFINED
           | Some b \<Rightarrow>
               let n = nat ((nHeight b + 1) div Period C params)
               in period_state C st params n (ancestor st a (int n * Period C params - 1))))"

definition at_period :: "threshold_checker \<Rightarrow> block_store \<Rightarrow> Params \<Rightarrow> nat \<Rightarrow> addr option \<Rightarrow> bool" where
  "at_period C st params n p \<longleftrightarrow>
     (case p of None \<Rightarrow> n = 0
      | Some a \<Rightarrow> (case st a of None \<Rightarrow> False | Some b \<Rightarrow> nHeight b + 1 = int n * Period C params))"

text \<open>A cache whose keys end periods and whose values are the states there.\<close>

definition cache_right :: "threshold_checker \<Rightarrow> block_store \<Rightarrow> Params \<Rightarrow> ThresholdConditionCache \<Rightarrow> bool" where
  "cache_right C st params cache \<longleftrightarrow>
     (\<forall>p s. cache p = Some s \<longrightarrow> (\<exists>n. at_period C st params n p \<and> s = period_state C st params n p))"

lemma cache_right_empty [simp]: "cache_right C st params Map.empty"
  by (simp add: cache_right_def)

lemma deployment_okD:
  assumes "deployment_ok C st params"
  shows "wf_index st" "times_ok st" "0 < Period C params"
    "BeginTime C params \<noteq> ALWAYS_ACTIVE" "BeginTime C params \<noteq> NEVER_ACTIVE"
  using assms by (simp_all add: deployment_ok_def)

section \<open>One period\<close>

lemma count_loop_signals:
  "wf_index st \<Longrightarrow> st a = Some b \<Longrightarrow> int n \<le> nHeight b + 1 \<Longrightarrow>
    count_loop C st params n (Some a) c = Inr (c + signals C st params n (Some a))"
proof (induction n arbitrary: a b c)
  case (Suc n)
  from wf_index_linked [OF Suc.prems(1,2)] show ?case
  proof (cases rule: linked_cases)
    case root
    hence "n = 0" using Suc.prems(3) by simp
    thus ?thesis using Suc.prems(2) by (simp add: deref_def)
  next
    case (child p pb)
    thus ?thesis using Suc.prems Suc.IH [OF Suc.prems(1) child(2)] by (simp add: deref_def)
  qed
qed simp

lemma mtp_eq: "wf_index st \<Longrightarrow> st a = Some b \<Longrightarrow> GetMedianTimePast st a = Inr (mtp_of st a)"
  by (simp add: GetMedianTimePast_eq mtp_of_def)

lemma stateNext_eq:
  assumes "deployment_ok C st params" "st a = Some b" "Period C params \<le> nHeight b + 1"
  shows "stateNext C st params s a = Inr (bip9_next C st params s a (nHeight b))"
proof -
  note ok = deployment_okD [OF assms(1)]
  have "int (nat (Period C params)) \<le> nHeight b + 1" using ok(3) assms(3) by simp
  note c = count_loop_signals [OF ok(1) assms(2) this]
  show ?thesis
    by (cases s) (simp_all add: stateNext_def bip9_next_def mtp_eq [OF ok(1) assms(2)] c deref_def assms(2))
qed

lemma mtp_parent:
  assumes "wf_index st" "times_ok st" "st a = Some b" "pprev b = Some p"
  shows "mtp_of st p \<le> mtp_of st a"
proof -
  from wf_index_linked [OF assms(1,3)] assms(4) obtain pb where pb: "st p = Some pb"
    by (auto elim: linked_cases)
  let ?ts = "recent_times st 11 (Some p)"
  have child: "recent_times st 11 (Some a) = GetBlockTime b # take 10 ?ts"
    using assms(3,4) take_recent_times [of 10 st 11 "Some p"] by (simp add: eval_nat_numeral)
  have "?ts \<noteq> []" by (simp add: eval_nat_numeral pb)
  moreover have "length ?ts \<le> Suc 10" using length_recent_times [of st 11 "Some p"] by simp
  moreover have "median_upper ?ts \<le> GetBlockTime b"
    using assms(2-4) unfolding times_ok_def mtp_of_def by blast
  ultimately show ?thesis unfolding mtp_of_def child by (intro median_upper_push)
qed

lemma mtp_walk:
  "wf_index st \<Longrightarrow> times_ok st \<Longrightarrow> walk_back st n a = Some q \<Longrightarrow> mtp_of st q \<le> mtp_of st a"
proof (induction n arbitrary: a)
  case (Suc n)
  then obtain b p where b: "st a = Some b" "pprev b = Some p" "walk_back st n p = Some q"
    by (auto split: option.splits)
  show ?case using Suc.IH [OF Suc.prems(1,2) b(3)] mtp_parent [OF Suc.prems(1,2) b(1,2)] by simp
qed simp

lemma mtp_ancestor:
  "wf_index st \<Longrightarrow> times_ok st \<Longrightarrow> ancestor st a h = Some q \<Longrightarrow> mtp_of st q \<le> mtp_of st a"
  by (auto simp: ancestor_def split: option.splits if_splits dest: mtp_walk)

section \<open>Moving by periods\<close>

lemma at_period_unique:
  assumes "0 < Period C params" "at_period C st params n p" "at_period C st params m p"
  shows "n = m"
  using assms by (auto simp: at_period_def split: option.splits)

lemma at_period_Some:
  assumes "deployment_ok C st params" "at_period C st params n (Some a)"
  obtains b m where "st a = Some b" "n = Suc m" "nHeight b = int m * Period C params + Period C params - 1"
    "Period C params \<le> nHeight b + 1"
proof -
  note ok = deployment_okD [OF assms(1)]
  from assms(2) obtain b where b: "st a = Some b" "nHeight b + 1 = int n * Period C params"
    by (auto simp: at_period_def split: option.splits)
  have "0 \<le> nHeight b" using wf_index_linked [OF ok(1) b(1)] by (rule linked_nonneg)
  hence "n \<noteq> 0" using b(2) by (cases "n = 0") simp_all
  then obtain m where m: "n = Suc m" by (cases n) auto
  have "0 \<le> int m * Period C params" using ok(3) by simp
  thus ?thesis using b m that by (simp add: distrib_right)
qed

lemma previous_period:
  assumes "deployment_ok C st params" "at_period C st params (Suc m) (Some a)" "st a = Some b"
  shows "at_period C st params m (ancestor st a (nHeight b - Period C params))"
    and "nHeight b - Period C params = int m * Period C params - 1"
proof -
  note ok = deployment_okD [OF assms(1)]
  show h: "nHeight b - Period C params = int m * Period C params - 1"
    using assms(2,3) by (simp add: at_period_def distrib_right)
  show "at_period C st params m (ancestor st a (nHeight b - Period C params))"
  proof (cases m)
    case 0
    thus ?thesis using h assms(3) by (simp add: ancestor_def at_period_def)
  next
    case (Suc k)
    hence "int m * Period C params = int k * Period C params + Period C params" by (simp add: distrib_right)
    moreover have "0 \<le> int k * Period C params" using ok(3) by simp
    ultimately have "0 \<le> nHeight b - Period C params" using h ok(3) by linarith
    then obtain q qb where "ancestor st a (nHeight b - Period C params) = Some q" "st q = Some qb"
      "nHeight qb = nHeight b - Period C params"
      using ancestor_Some [OF ok(1) assms(3), of "nHeight b - Period C params"] ok(3) by auto
    thus ?thesis using h by (simp add: at_period_def)
  qed
qed

lemma period_state_step:
  assumes "deployment_ok C st params" "at_period C st params (Suc m) (Some a)" "st a = Some b"
  shows "period_state C st params (Suc m) (Some a) =
    bip9_next C st params (period_state C st params m (ancestor st a (nHeight b - Period C params))) a (nHeight b)"
proof -
  have "int (Suc m) * Period C params - 1 = nHeight b" using assms(2,3) by (simp add: at_period_def)
  thus ?thesis unfolding previous_period(2) [OF assms] by (simp only: period_state.simps option.case)
qed

text \<open>Why the walk may stop at a block before the start time.\<close>

lemma before_start:
  "deployment_ok C st params \<Longrightarrow> at_period C st params n (Some a) \<Longrightarrow> mtp_of st a < BeginTime C params \<Longrightarrow>
    period_state C st params n (Some a) = DEFINED"
proof (induction n arbitrary: a)
  case (Suc m)
  obtain b where b: "st a = Some b" using Suc.prems(2) by (auto simp: at_period_def split: option.splits)
  note ok = deployment_okD [OF Suc.prems(1)] and P = previous_period(1) [OF Suc.prems(1,2) b]
  have "period_state C st params m (ancestor st a (nHeight b - Period C params)) = DEFINED"
  proof (cases "ancestor st a (nHeight b - Period C params)")
    case None
    thus ?thesis using P by (simp add: at_period_def)
  next
    case (Some q)
    have "mtp_of st q < BeginTime C params"
      using mtp_ancestor [OF ok(1,2) Some] Suc.prems(3) by simp
    thus ?thesis using Suc.IH [OF Suc.prems(1), of q] P Some by simp
  qed
  thus ?case using period_state_step [OF Suc.prems(1,2) b] Suc.prems(3) by (simp add: bip9_next_def)
qed simp

section \<open>The cached computation\<close>

lemma cache_right_put:
  "cache_right C st params c \<Longrightarrow> at_period C st params n p \<Longrightarrow> s = period_state C st params n p \<Longrightarrow>
    cache_right C st params (c(p \<mapsto> s))"
  by (auto simp: cache_right_def)

lemma cache_rightD:
  assumes "deployment_ok C st params" "cache_right C st params c" "at_period C st params n p" "c p = Some s"
  shows "s = period_state C st params n p"
proof -
  from assms(2,4) obtain m where "at_period C st params m p" "s = period_state C st params m p"
    unfolding cache_right_def by blast
  thus ?thesis using at_period_unique [OF deployment_okD(3) [OF assms(1)] assms(3)] by simp
qed

lemma state_forward_append:
  "state_forward C st params (as @ bs) s c =
    rbind (state_forward C st params as s c) (\<lambda>(s, c). state_forward C st params bs s c)"
  by (induction as arbitrary: s c) (auto simp: rbind_assoc)

text \<open>What the walk hands to the forward loop: from the state it found, the loop computes the state wanted.\<close>

definition computes ::
  "threshold_checker \<Rightarrow> block_store \<Rightarrow> Params \<Rightarrow> addr list \<Rightarrow> ThresholdState \<Rightarrow> ThresholdState \<Rightarrow> bool" where
  "computes C st params ds s s' \<longleftrightarrow>
     (\<forall>c. cache_right C st params c \<longrightarrow>
       (\<exists>c'. state_forward C st params ds s c = Inr (s', c') \<and> cache_right C st params c'))"

lemma computes_Nil [simp]: "computes C st params [] s s"
  by (simp add: computes_def)

lemma computes_snoc:
  assumes "deployment_ok C st params" "at_period C st params (Suc m) (Some a)" "st a = Some b"
    "computes C st params ds s (period_state C st params m (ancestor st a (nHeight b - Period C params)))"
  shows "computes C st params (ds @ [a]) s (period_state C st params (Suc m) (Some a))"
  unfolding computes_def
proof (intro allI impI)
  fix c
  assume "cache_right C st params c"
  let ?r = "period_state C st params m (ancestor st a (nHeight b - Period C params))"
  from assms(4) \<open>cache_right C st params c\<close> obtain c' where
    c': "state_forward C st params ds s c = Inr (?r, c')" "cache_right C st params c'"
    unfolding computes_def by blast
  obtain b' where "st a = Some b'" "Period C params \<le> nHeight b' + 1"
    by (rule at_period_Some [OF assms(1,2)])
  hence "Period C params \<le> nHeight b + 1" using assms(3) by simp
  from stateNext_eq [OF assms(1,3) this, of ?r]
  have "stateNext C st params ?r a = Inr (period_state C st params (Suc m) (Some a))"
    unfolding period_state_step [OF assms(1-3)] .
  hence "state_forward C st params (ds @ [a]) s c = Inr (period_state C st params (Suc m) (Some a),
      c'(Some a \<mapsto> period_state C st params (Suc m) (Some a)))"
    by (simp add: state_forward_append c'(1) del: period_state.simps)
  with cache_right_put [OF c'(2) assms(2) refl]
  show "\<exists>c'. state_forward C st params (ds @ [a]) s c = Inr (period_state C st params (Suc m) (Some a), c') \<and>
      cache_right C st params c'"
    by blast
qed

lemma state_walk_spec:
  "deployment_ok C st params \<Longrightarrow> cache_right C st params c \<Longrightarrow> at_period C st params n p \<Longrightarrow>
    \<exists>q c' ds s. state_walk C st params p c todo = Some (Inr (q, c', ds @ todo)) \<and> cache_right C st params c' \<and>
      c' q = Some s \<and> computes C st params ds s (period_state C st params n p)"
proof (induction n arbitrary: p todo)
  case (0 p)
  hence p: "p = None"
    using at_period_Some [OF 0(1), of 0] by (cases p) auto
  show ?case
  proof (cases "c None")
    case None
    hence "state_walk C st params p c todo = Some (Inr (None, c(None \<mapsto> DEFINED), [] @ todo))"
      by (subst state_walk.simps) (simp add: p)
    thus ?thesis using cache_right_put [OF 0(2,3), of DEFINED] p by (fastforce intro: computes_Nil)
  next
    case (Some s)
    hence "state_walk C st params p c todo = Some (Inr (None, c, [] @ todo))"
      by (subst state_walk.simps) (simp add: p)
    moreover have "s = DEFINED" using cache_rightD [OF 0] p Some by simp
    ultimately show ?thesis using Some 0(2) by (fastforce intro: computes_Nil)
  qed
next
  case (Suc m p)
  then obtain a where p: "p = Some a" by (cases p) (auto simp: at_period_def)
  note at = Suc.prems(3) [unfolded p]
  from at_period_Some [OF Suc.prems(1) at] obtain b where b: "st a = Some b" by blast
  note ok = deployment_okD [OF Suc.prems(1)]
  show ?case
  proof (cases "c p")
    case (Some s)
    hence "state_walk C st params p c todo = Some (Inr (p, c, [] @ todo))"
      by (subst state_walk.simps) (simp add: p)
    moreover have "s = period_state C st params (Suc m) p" using cache_rightD [OF Suc.prems Some] .
    ultimately show ?thesis using Some Suc.prems(2) by (fastforce intro: computes_Nil)
  next
    case None
    show ?thesis
    proof (cases "mtp_of st a < BeginTime C params")
      case True
      hence "state_walk C st params p c todo = Some (Inr (p, c(p \<mapsto> DEFINED), [] @ todo))"
        using None by (subst state_walk.simps) (simp add: p mtp_eq [OF ok(1) b])
      moreover have d: "period_state C st params (Suc m) p = DEFINED"
        unfolding p by (rule before_start [OF Suc.prems(1) at True])
      moreover have "cache_right C st params (c(p \<mapsto> DEFINED))"
        using cache_right_put [OF Suc.prems(2,3) d [symmetric]] .
      moreover have "computes C st params [] DEFINED (period_state C st params (Suc m) p)"
        unfolding d by (rule computes_Nil)
      ultimately show ?thesis by fastforce
    next
      case False
      let ?q = "ancestor st a (nHeight b - Period C params)"
      have w: "state_walk C st params p c todo = state_walk C st params ?q c (a # todo)"
        using None False
        by (subst state_walk.simps) (simp add: p mtp_eq [OF ok(1) b] deref_def b GetAncestor_ancestor [OF ok(1) b])
      have "at_period C st params m ?q" by (rule previous_period(1) [OF Suc.prems(1) at b])
      from Suc.IH [OF Suc.prems(1,2) this, of "a # todo"] obtain q c' ds s where
        i: "state_walk C st params ?q c (a # todo) = Some (Inr (q, c', ds @ a # todo))"
          "cache_right C st params c'" "c' q = Some s" "computes C st params ds s (period_state C st params m ?q)"
        by blast
      have "computes C st params (ds @ [a]) s (period_state C st params (Suc m) p)"
        unfolding p by (rule computes_snoc [OF Suc.prems(1) at b i(4)])
      moreover have "state_walk C st params p c todo = Some (Inr (q, c', (ds @ [a]) @ todo))" using w i(1) by simp
      ultimately show ?thesis using i(2,3) by blast
    qed
  qed
qed

lemma period_parent_spec:
  assumes "deployment_ok C st params" "case p of None \<Rightarrow> True | Some a \<Rightarrow> st a \<noteq> None"
  shows "\<exists>n q. period_parent C st params p = Inr q \<and> at_period C st params n q \<and>
    branch_state C st params p = period_state C st params n q \<and>
    (\<forall>a b. p = Some a \<longrightarrow> st a = Some b \<longrightarrow>
      int n = (nHeight b + 1) div Period C params \<and> q = ancestor st a (int n * Period C params - 1))"
proof (cases p)
  case None
  thus ?thesis by (auto simp: period_parent_def at_period_def branch_state_def intro: exI [of _ 0])
next
  case (Some a)
  note ok = deployment_okD [OF assms(1)]
  let ?P = "Period C params"
  obtain b where b: "st a = Some b" using assms(2) Some by auto
  have h: "0 \<le> nHeight b" using wf_index_linked [OF ok(1) b] by (rule linked_nonneg)
  define n where "n = nat ((nHeight b + 1) div ?P)"
  have n: "int n = (nHeight b + 1) div ?P" using h ok(3) by (simp add: n_def pos_imp_zdiv_nonneg_iff)
  have m: "nHeight b - (nHeight b + 1) mod ?P = int n * ?P - 1"
    using div_mult_mod_eq [of "nHeight b + 1" ?P] unfolding n by linarith
  let ?q = "ancestor st a (int n * ?P - 1)"
  have "at_period C st params n ?q"
  proof (cases "n = 0")
    case True
    thus ?thesis using b by (simp add: ancestor_def at_period_def)
  next
    case False
    hence "1 * ?P \<le> int n * ?P" using ok(3) by (intro mult_right_mono) auto
    hence "0 \<le> int n * ?P - 1" using ok(3) by simp
    moreover have "int n * ?P - 1 \<le> nHeight b" using m pos_mod_sign [OF ok(3), of "nHeight b + 1"] by linarith
    ultimately obtain q qb where "?q = Some q" "st q = Some qb" "nHeight qb = int n * ?P - 1"
      using ancestor_Some [OF ok(1) b] by blast
    thus ?thesis by (simp add: at_period_def)
  qed
  moreover have "period_parent C st params p = Inr ?q"
    using h ok(3) by (simp add: period_parent_def Some deref_def b GetAncestor_ancestor [OF ok(1) b] m)
  moreover have "branch_state C st params p = period_state C st params n ?q"
    by (simp add: branch_state_def Some b n_def Let_def)
  ultimately show ?thesis using n Some b by auto
qed

lemma GetStateFor_spec:
  assumes "deployment_ok C st params" "cache_right C st params c" "case p of None \<Rightarrow> True | Some a \<Rightarrow> st a \<noteq> None"
  shows "\<exists>c'. GetStateFor C st p params c = Some (Inr (branch_state C st params p, c')) \<and> cache_right C st params c'"
proof -
  note ok = deployment_okD [OF assms(1)]
  from period_parent_spec [OF assms(1,3)] obtain n q where
    q: "period_parent C st params p = Inr q" "at_period C st params n q"
      "branch_state C st params p = period_state C st params n q" by blast
  from state_walk_spec [OF assms(1,2) q(2), of "[]"] obtain r c' ds s where
    w: "state_walk C st params q c [] = Some (Inr (r, c', ds))" "cache_right C st params c'" "c' r = Some s"
      "computes C st params ds s (period_state C st params n q)" by auto
  from w(2,4) obtain c'' where "state_forward C st params ds s c' = Inr (period_state C st params n q, c'')"
    "cache_right C st params c''" unfolding computes_def by blast
  thus ?thesis using ok q w by (simp add: GetStateFor_def)
qed

section \<open>The states along a branch\<close>

definition branch_period :: "threshold_checker \<Rightarrow> block_store \<Rightarrow> Params \<Rightarrow> addr \<Rightarrow> nat \<Rightarrow> ThresholdState" where
  "branch_period C st params a k = period_state C st params k (ancestor st a (int k * Period C params - 1))"

lemma branch_period_0 [simp]: "branch_period C st params a 0 = DEFINED"
  by (simp add: branch_period_def)

lemma period_block:
  assumes "deployment_ok C st params" "st a = Some b" "int (Suc k) \<le> (nHeight b + 1) div Period C params"
  obtains q qb where "ancestor st a (int (Suc k) * Period C params - 1) = Some q" "st q = Some qb"
    "nHeight qb = int (Suc k) * Period C params - 1" "at_period C st params (Suc k) (Some q)"
proof -
  note ok = deployment_okD [OF assms(1)]
  let ?P = "Period C params"
  have "int (Suc k) * ?P \<le> (nHeight b + 1) div ?P * ?P" using assms(3) ok(3) by (intro mult_right_mono) auto
  hence "int (Suc k) * ?P - 1 \<le> nHeight b"
    using div_mult_mod_eq [of "nHeight b + 1" ?P] pos_mod_sign [OF ok(3), of "nHeight b + 1"] by linarith
  moreover have "1 * ?P \<le> int (Suc k) * ?P" using ok(3) by (intro mult_right_mono) auto
  hence "0 \<le> int (Suc k) * ?P - 1" using ok(3) by linarith
  ultimately obtain q qb where q: "ancestor st a (int (Suc k) * ?P - 1) = Some q" "st q = Some qb"
    "nHeight qb = int (Suc k) * ?P - 1" using ancestor_Some [OF ok(1) assms(2)] by blast
  moreover have "at_period C st params (Suc k) (Some q)" unfolding at_period_def using q(2,3) by simp
  ultimately show ?thesis using that by blast
qed

lemma branch_period_Suc:
  assumes "deployment_ok C st params" "st a = Some b" "int (Suc k) \<le> (nHeight b + 1) div Period C params"
  shows "\<exists>q. branch_period C st params a (Suc k) =
    bip9_next C st params (branch_period C st params a k) q (int (Suc k) * Period C params - 1)"
proof -
  note ok = deployment_okD [OF assms(1)]
  from period_block [OF assms] obtain q qb where
    q: "ancestor st a (int (Suc k) * Period C params - 1) = Some q" "st q = Some qb"
      "nHeight qb = int (Suc k) * Period C params - 1" "at_period C st params (Suc k) (Some q)" .
  note step = period_state_step [OF assms(1) q(4,2)] and prev = previous_period(2) [OF assms(1) q(4,2)]
  have "int k * Period C params - 1 \<le> int (Suc k) * Period C params - 1" using ok(3) by (simp add: distrib_right)
  note t = ancestor_trans [OF ok(1) q(1) this]
  from step have "period_state C st params (Suc k) (Some q) =
      bip9_next C st params (period_state C st params k (ancestor st a (int k * Period C params - 1))) q
        (int (Suc k) * Period C params - 1)"
    unfolding prev t unfolding q(3) .
  thus ?thesis unfolding branch_period_def q(1) by (rule exI)
qed

lemma branch_state_ancestor:
  assumes "deployment_ok C st params" "ancestor st a h = Some d"
  shows "branch_state C st params (Some d) = branch_period C st params a (nat ((h + 1) div Period C params))"
proof -
  note ok = deployment_okD [OF assms(1)]
  from ancestor_SomeD [OF ok(1) assms(2)] obtain b db where
    b: "st a = Some b" "st d = Some db" "nHeight db = h" "0 \<le> h" "h \<le> nHeight b" .
  let ?n = "nat ((h + 1) div Period C params)"
  have e: "int ?n = (h + 1) div Period C params" using b(4) ok(3) by (simp add: pos_imp_zdiv_nonneg_iff)
  have "int ?n * Period C params - 1 \<le> h"
    unfolding e using div_mult_mod_eq [of "h + 1" "Period C params"] pos_mod_sign [OF ok(3), of "h + 1"] by linarith
  from ancestor_trans [OF ok(1) assms(2) this] show ?thesis
    by (simp add: branch_state_def branch_period_def b Let_def)
qed

lemma branch_state_self:
  assumes "deployment_ok C st params" "st a = Some b"
  shows "branch_state C st params (Some a) = branch_period C st params a (nat ((nHeight b + 1) div Period C params))"
  by (simp add: branch_state_def branch_period_def assms(2) Let_def)

section \<open>Transitions\<close>

inductive bip9_step :: "ThresholdState \<Rightarrow> ThresholdState \<Rightarrow> bool" where
  stay: "bip9_step s s"
| start: "bip9_step DEFINED STARTED"
| lock_in: "bip9_step STARTED LOCKED_IN"
| time_out: "bip9_step STARTED FAILED"
| activate: "bip9_step LOCKED_IN ACTIVE"

inductive_cases bip9_step_ACTIVE: "bip9_step ACTIVE s"
inductive_cases bip9_step_FAILED: "bip9_step FAILED s"

lemma bip9_next_step: "bip9_step s (bip9_next C st params s a h)"
  by (cases s) (auto simp: bip9_next_def intro: bip9_step.intros)

lemma bip9_final: "bip9_step\<^sup>*\<^sup>* s s' \<Longrightarrow> s = ACTIVE \<or> s = FAILED \<Longrightarrow> s' = s"
  by (induction rule: rtranclp_induct) (auto elim: bip9_step_ACTIVE bip9_step_FAILED)

lemma branch_period_step:
  assumes "deployment_ok C st params" "st a = Some b" "int (Suc k) \<le> (nHeight b + 1) div Period C params"
  shows "bip9_step (branch_period C st params a k) (branch_period C st params a (Suc k))"
  using branch_period_Suc [OF assms] bip9_next_step by metis

lemma branch_period_steps:
  assumes "deployment_ok C st params" "st a = Some b"
  shows "int (k + i) \<le> (nHeight b + 1) div Period C params \<Longrightarrow>
    bip9_step\<^sup>*\<^sup>* (branch_period C st params a k) (branch_period C st params a (k + i))"
proof (induction i)
  case (Suc i)
  hence "bip9_step\<^sup>*\<^sup>* (branch_period C st params a k) (branch_period C st params a (k + i))" by simp
  moreover have "int (Suc (k + i)) \<le> (nHeight b + 1) div Period C params" using Suc.prems by simp
  from branch_period_step [OF assms this]
  have "bip9_step (branch_period C st params a (k + i)) (branch_period C st params a (k + Suc i))" by simp
  ultimately show ?case by (rule rtranclp.rtrancl_into_rtrancl)
qed simp

lemma branch_progress:
  assumes "deployment_ok C st params" "st a = Some b" "ancestor st a h = Some d"
  shows "bip9_step\<^sup>*\<^sup>* (branch_state C st params (Some d)) (branch_state C st params (Some a))"
    and "(nHeight b + 1) div Period C params \<le> (h + 1) div Period C params + 1 \<Longrightarrow>
      bip9_step (branch_state C st params (Some d)) (branch_state C st params (Some a))"
proof -
  note ok = deployment_okD [OF assms(1)]
  let ?P = "Period C params"
  have h: "0 \<le> h" "h \<le> nHeight b" using ancestor_SomeD [OF ok(1) assms(3)] assms(2) by auto
  define k where "k = nat ((h + 1) div ?P)"
  define n where "n = nat ((nHeight b + 1) div ?P)"
  have kn: "int k = (h + 1) div ?P" "int n = (nHeight b + 1) div ?P"
    using h ok(3) by (simp_all add: k_def n_def pos_imp_zdiv_nonneg_iff)
  have "(h + 1) div ?P \<le> (nHeight b + 1) div ?P" using h(2) ok(3) by (intro zdiv_mono1) auto
  then obtain i where i: "n = k + i" using kn by (metis le_iff_add of_nat_le_iff)
  have S: "branch_state C st params (Some d) = branch_period C st params a k"
    "branch_state C st params (Some a) = branch_period C st params a n"
    unfolding k_def n_def by (rule branch_state_ancestor [OF assms(1,3)] branch_state_self [OF assms(1,2)])+
  show "bip9_step\<^sup>*\<^sup>* (branch_state C st params (Some d)) (branch_state C st params (Some a))"
    unfolding S i using branch_period_steps [OF assms(1,2)] kn(2) i by simp
  show "bip9_step (branch_state C st params (Some d)) (branch_state C st params (Some a))"
    if "(nHeight b + 1) div ?P \<le> (h + 1) div ?P + 1"
  proof -
    have "n = k \<or> n = Suc k" using that kn i by auto
    thus ?thesis unfolding S using branch_period_step [OF assms(1,2), of k] kn(2) by (auto intro: stay)
  qed
qed

section \<open>The height since which a state holds\<close>

lemma branch_state_boundary:
  "deployment_ok C st params \<Longrightarrow> at_period C st params n (Some q) \<Longrightarrow>
    branch_state C st params (Some q) = period_state C st params n (Some q)"
proof -
  assume ok: "deployment_ok C st params" and at: "at_period C st params n (Some q)"
  obtain qb where qb: "st q = Some qb" "nHeight qb + 1 = int n * Period C params"
    using at by (auto simp: at_period_def split: option.splits)
  have "0 \<le> nHeight qb" using wf_index_linked [OF deployment_okD(1) [OF ok] qb(1)] by (rule linked_nonneg)
  moreover have "int n * Period C params - 1 = nHeight qb" using qb(2) by simp
  ultimately have "ancestor st q (int n * Period C params - 1) = Some q" using ancestor_self [of st q qb] qb(1) by simp
  thus ?thesis using deployment_okD(3) [OF ok] by (simp add: branch_state_def qb Let_def)
qed

lemma since_loop_spec:
  assumes "deployment_ok C st params" "s \<noteq> DEFINED"
  shows "cache_right C st params c \<Longrightarrow> at_period C st params (Suc k) (Some x) \<Longrightarrow> st x = Some xb \<Longrightarrow>
    period_state C st params (Suc k) (Some x) = s \<Longrightarrow>
    \<exists>j c'. since_loop C st params s x (ancestor st x (nHeight xb - Period C params)) c =
        Some (Inr (int (Suc j) * Period C params, c')) \<and> j \<le> k \<and>
      (\<forall>i. Suc j \<le> i \<and> i \<le> Suc k \<longrightarrow> branch_period C st params x i = s) \<and> branch_period C st params x j \<noteq> s"
proof (induction k arbitrary: x xb c)
  case 0
  note prev = previous_period [OF assms(1) 0(2,3)]
  have h: "nHeight xb + 1 = Period C params" using prev(2) by simp
  have n: "ancestor st x (nHeight xb - Period C params) = None"
    using prev(2) 0(3) by (simp add: ancestor_def)
  have "since_loop C st params s x (ancestor st x (nHeight xb - Period C params)) c = Some (Inr (Period C params, c))"
    unfolding n by (subst since_loop.simps) (simp add: deref_def 0(3) h)
  moreover have "branch_period C st params x 1 = s"
    using 0(4) branch_state_boundary [OF assms(1) 0(2)] branch_state_self [OF assms(1) 0(3)] h
      deployment_okD(3) [OF assms(1)] by simp
  ultimately show ?case using assms(2) by (intro exI [of _ 0] exI [of _ c]) (auto simp: le_Suc_eq)
next
  case (Suc k)
  note ok = deployment_okD [OF assms(1)] and prev = previous_period [OF assms(1) Suc.prems(2,3)]
  let ?P = "Period C params"
  have top: "(nHeight xb + 1) div ?P = int (Suc (Suc k))"
    using Suc.prems(2,3) ok(3) by (simp add: at_period_def)
  hence "int (Suc k) \<le> (nHeight xb + 1) div ?P" by simp
  from period_block [OF assms(1) Suc.prems(3) this] obtain q qb where
    q: "ancestor st x (int (Suc k) * ?P - 1) = Some q" "st q = Some qb" "nHeight qb = int (Suc k) * ?P - 1"
      "at_period C st params (Suc k) (Some q)" .
  have bq: "branch_period C st params q i = branch_period C st params x i" if "i \<le> Suc k" for i
  proof -
    have "int i * ?P \<le> int (Suc k) * ?P" using that ok(3) by (intro mult_right_mono) auto
    thus ?thesis using ancestor_trans [OF ok(1) q(1), of "int i * ?P - 1"] by (simp add: branch_period_def)
  qed
  have sq: "period_state C st params (Suc k) (Some q) = branch_period C st params x (Suc k)"
    unfolding branch_period_def q(1) ..
  have sx: "branch_period C st params x (Suc (Suc k)) = s"
    using Suc.prems(4) branch_state_boundary [OF assms(1) Suc.prems(2)] branch_state_self [OF assms(1) Suc.prems(3)]
    unfolding top nat_int by simp
  have a: "ancestor st x (nHeight xb - ?P) = Some q" unfolding prev(2) by (rule q(1))
  from GetStateFor_spec [OF assms(1) Suc.prems(1), of "Some q"] q(2) obtain c' where
    g: "GetStateFor C st (Some q) params c = Some (Inr (branch_period C st params x (Suc k), c'))"
      "cache_right C st params c'"
    using branch_state_boundary [OF assms(1) q(4)] sq by auto
  show ?case
  proof (cases "branch_period C st params x (Suc k) = s")
    case True
    have l: "since_loop C st params s x (Some q) c = since_loop C st params s q (ancestor st q (nHeight qb - ?P)) c'"
      by (subst since_loop.simps) (simp add: g(1) True deref_def q(2) GetAncestor_ancestor [OF ok(1) q(2)])
    from Suc.IH [OF g(2) q(4,2) trans [OF sq True]] obtain j c'' where
      j: "since_loop C st params s q (ancestor st q (nHeight qb - ?P)) c' = Some (Inr (int (Suc j) * ?P, c''))"
        "j \<le> k" "\<forall>i. Suc j \<le> i \<and> i \<le> Suc k \<longrightarrow> branch_period C st params q i = s" "branch_period C st params q j \<noteq> s"
      by blast
    have "branch_period C st params x i = s" if "Suc j \<le> i" "i \<le> Suc (Suc k)" for i
      using j(3) sx bq that by (cases "i = Suc (Suc k)") auto
    moreover have "branch_period C st params x j \<noteq> s" using j(2,4) bq by simp
    ultimately show ?thesis unfolding a l using j(1,2) by (intro exI [of _ j] exI [of _ c'']) simp
  next
    case False
    have "nHeight xb + 1 = int (Suc (Suc k)) * ?P" using Suc.prems(2,3) by (simp add: at_period_def)
    hence "since_loop C st params s x (Some q) c = Some (Inr (int (Suc (Suc k)) * ?P, c'))"
      using False by (subst since_loop.simps) (simp add: g(1) deref_def Suc.prems(3))
    thus ?thesis unfolding a using False sx
      by (intro exI [of _ "Suc k"] exI [of _ c']) (auto simp: le_Suc_eq)
  qed
qed

lemma branch_state_at:
  assumes "deployment_ok C st params" "st a = Some b" "k \<le> nHeight b"
  shows "branch_state C st params (ancestor st a k) = branch_period C st params a (nat ((k + 1) div Period C params))"
proof (cases "0 \<le> k")
  case True
  from ancestor_Some [OF deployment_okD(1) [OF assms(1)] assms(2) True assms(3)] obtain d where
    "ancestor st a k = Some d" by blast
  thus ?thesis using branch_state_ancestor [OF assms(1)] by simp
next
  case False
  hence "(k + 1) div Period C params \<le> 0 div Period C params"
    using deployment_okD(3) [OF assms(1)] by (intro zdiv_mono1) auto
  thus ?thesis using False assms(2) by (simp add: ancestor_def branch_state_def)
qed

text \<open>The first height with a state, as the callers read it.\<close>

definition first_height_of_state :: "threshold_checker \<Rightarrow> block_store \<Rightarrow> Params \<Rightarrow> addr \<Rightarrow> int \<Rightarrow> int \<Rightarrow> bool" where
  "first_height_of_state C st params a h n \<longleftrightarrow> 0 < n \<and> n \<le> h + 1 \<and> n mod Period C params = 0 \<and>
     (\<forall>k. n \<le> k + 1 \<and> k \<le> h \<longrightarrow> branch_state C st params (ancestor st a k) = branch_state C st params (Some a)) \<and>
     branch_state C st params (ancestor st a (n - 2)) \<noteq> branch_state C st params (Some a)"

lemma first_heightI:
  assumes "deployment_ok C st params" "st a = Some b" "int k = (nHeight b + 1) div Period C params" "j < k"
    "\<forall>i. Suc j \<le> i \<and> i \<le> k \<longrightarrow> branch_period C st params a i = branch_state C st params (Some a)"
    "branch_period C st params a j \<noteq> branch_state C st params (Some a)"
  shows "first_height_of_state C st params a (nHeight b) (int (Suc j) * Period C params)"
proof -
  let ?P = "Period C params" and ?n = "int (Suc j) * Period C params"
  note P = deployment_okD(3) [OF assms(1)]
  have "?n \<le> int k * ?P" using assms(4) P by (intro mult_right_mono) auto
  hence le: "?n \<le> nHeight b + 1"
    using div_mult_mod_eq [of "nHeight b + 1" ?P] pos_mod_sign [OF P, of "nHeight b + 1"] unfolding assms(3) by linarith
  have pos: "0 < ?n" using P by simp
  have "branch_state C st params (ancestor st a i) = branch_state C st params (Some a)"
    if "?n \<le> i + 1" "i \<le> nHeight b" for i
  proof -
    have "int (Suc j) \<le> (i + 1) div ?P" using zdiv_mono1 [OF that(1) P] P by simp
    moreover have "(i + 1) div ?P \<le> int k" unfolding assms(3) using that(2) P by (intro zdiv_mono1) auto
    ultimately have "Suc j \<le> nat ((i + 1) div ?P)" "nat ((i + 1) div ?P) \<le> k" by linarith+
    thus ?thesis using branch_state_at [OF assms(1,2) that(2)] assms(5) by metis
  qed
  moreover have "(?n - 2 + 1) div ?P = int j"
    by (rule int_div_pos_eq [where r = "?P - 1"]) (use P in \<open>simp_all add: algebra_simps\<close>)
  hence "branch_state C st params (ancestor st a (?n - 2)) = branch_period C st params a j"
    using branch_state_at [OF assms(1,2), of "?n - 2"] le by simp
  ultimately show ?thesis using assms(6) le pos by (simp add: first_height_of_state_def)
qed

lemma since_spec:
  assumes "deployment_ok C st params" "cache_right C st params c" "st a = Some b"
    "branch_state C st params (Some a) \<noteq> DEFINED"
  shows "\<exists>n c'. GetStateSinceHeightFor C st (Some a) params c = Some (Inr (n, c')) \<and>
    first_height_of_state C st params a (nHeight b) n"
proof -
  note ok = deployment_okD [OF assms(1)]
  let ?P = "Period C params" and ?s = "branch_state C st params (Some a)"
  from GetStateFor_spec [OF assms(1,2), of "Some a"] assms(3) obtain c1 where
    g: "GetStateFor C st (Some a) params c = Some (Inr (?s, c1))" "cache_right C st params c1" by auto
  from period_parent_spec [OF assms(1), of "Some a"] assms(3) obtain n q where
    q: "period_parent C st params (Some a) = Inr q" "at_period C st params n q" "?s = period_state C st params n q"
      "int n = (nHeight b + 1) div ?P" "q = ancestor st a (int n * ?P - 1)" by auto
  have "n \<noteq> 0" using q(3) assms(4) by (cases n) auto
  then obtain k where k: "n = Suc k" by (cases n) auto
  obtain x where x: "q = Some x" using q(2) k by (cases q) (auto simp: at_period_def)
  obtain xb where xb: "st x = Some xb" using q(2) x by (auto simp: at_period_def split: option.splits)
  have ax: "ancestor st a (int (Suc k) * ?P - 1) = Some x" using q(5) k x by simp
  from since_loop_spec [OF assms(1,4) g(2) _ xb, of k] q(2,3) k x obtain j c2 where
    j: "since_loop C st params ?s x (ancestor st x (nHeight xb - ?P)) c1 = Some (Inr (int (Suc j) * ?P, c2))"
      "j \<le> k" "\<forall>i. Suc j \<le> i \<and> i \<le> Suc k \<longrightarrow> branch_period C st params x i = ?s" "branch_period C st params x j \<noteq> ?s"
    by auto
  have bx: "branch_period C st params x i = branch_period C st params a i" if "i \<le> Suc k" for i
  proof -
    have "int i * ?P \<le> int (Suc k) * ?P" using that ok(3) by (intro mult_right_mono) auto
    thus ?thesis using ancestor_trans [OF ok(1) ax, of "int i * ?P - 1"] by (simp add: branch_period_def)
  qed
  have "first_height_of_state C st params a (nHeight b) (int (Suc j) * ?P)"
    using j(2-4) bx by (intro first_heightI [OF assms(1,3) q(4)]) (auto simp: k)
  moreover have "GetStateSinceHeightFor C st (Some a) params c = Some (Inr (int (Suc j) * ?P, c2))"
    using ok assms(4) g(1) q(1) x j(1)
    by (simp add: GetStateSinceHeightFor_def deref_def xb GetAncestor_ancestor [OF ok(1) xb] del: of_nat_Suc)
  ultimately show ?thesis by blast
qed

end
