(* ===== verification/Deployments.thy ===== *)
theory Deployments
  imports Deployment_States
begin

text \<open>
  The properties of the deployment state machine, and of the block version a miner is given from it.
\<close>

section \<open>The block version\<close>

definition deployment_state :: "block_store \<Rightarrow> Params \<Rightarrow> addr option \<Rightarrow> DeploymentPos \<Rightarrow> ThresholdState" where
  "deployment_state st params p pos =
     (if nStartTime (vDeployments params pos) = ALWAYS_ACTIVE then ACTIVE
      else if nStartTime (vDeployments params pos) = NEVER_ACTIVE then FAILED
      else branch_state (VersionBitsConditionChecker pos) st params p)"

definition caches_right :: "block_store \<Rightarrow> Params \<Rightarrow> VersionBitsCache \<Rightarrow> bool" where
  "caches_right st params m \<longleftrightarrow> (\<forall>pos. cache_right (VersionBitsConditionChecker pos) st params (m pos))"

definition index_ready :: "block_store \<Rightarrow> Params \<Rightarrow> bool" where
  "index_ready st params \<longleftrightarrow> wf_index st \<and> times_ok st \<and> 0 < sint (nMinerConfirmationWindow params)"

lemma vb_State_spec:
  assumes "index_ready st params" "caches_right st params m" "case p of None \<Rightarrow> True | Some a \<Rightarrow> st a \<noteq> None"
  shows "\<exists>m'. vb_State st m p params pos = Some (Inr (deployment_state st params p pos, m')) \<and> caches_right st params m'"
proof -
  let ?C = "VersionBitsConditionChecker pos"
  have b: "BeginTime ?C params = nStartTime (vDeployments params pos)" "Period ?C params = sint (nMinerConfirmationWindow params)"
    by (simp_all add: VersionBitsConditionChecker_def)
  show ?thesis
  proof (cases "BeginTime ?C params = ALWAYS_ACTIVE \<or> BeginTime ?C params = NEVER_ACTIVE")
    case True
    thus ?thesis using assms(2) b
      by (auto simp: vb_State_def GetStateFor_def deployment_state_def ALWAYS_ACTIVE_def NEVER_ACTIVE_def)
  next
    case False
    hence "deployment_ok ?C st params" using assms(1) b by (simp add: deployment_ok_def index_ready_def)
    moreover have "cache_right ?C st params (m pos)" using assms(2) by (simp add: caches_right_def)
    ultimately obtain c' where
      "GetStateFor ?C st p params (m pos) = Some (Inr (branch_state ?C st params p, c'))" "cache_right ?C st params c'"
      using GetStateFor_spec assms(3) by blast
    thus ?thesis using False b assms(2)
      by (auto simp: vb_State_def deployment_state_def caches_right_def)
  qed
qed

definition signalling :: "ThresholdState \<Rightarrow> bool" where
  "signalling s \<longleftrightarrow> s = STARTED \<or> s = LOCKED_IN"

lemma version_loop_spec:
  "index_ready st params \<Longrightarrow> caches_right st params m \<Longrightarrow> (case p of None \<Rightarrow> True | Some a \<Rightarrow> st a \<noteq> None) \<Longrightarrow>
    \<exists>m'. version_loop st p params ps v m =
      Some (Inr (fold (\<lambda>pos v. if signalling (deployment_state st params p pos) then v OR vb_Mask params pos else v) ps v, m'))"
proof (induction ps arbitrary: v m)
  case (Cons pos ps)
  from vb_State_spec [OF Cons.prems] obtain m1 where
    m1: "vb_State st m p params pos = Some (Inr (deployment_state st params p pos, m1))" "caches_right st params m1" by blast
  show ?case using Cons.IH [OF Cons.prems(1) m1(2) Cons.prems(3)] by (simp add: m1(1) signalling_def disj_commute)
qed simp

lemma top_mask: "VERSIONBITS_TOP_MASK = push_bit 29 7" "VERSIONBITS_TOP_BITS = push_bit 29 1"
  by (simp_all add: VERSIONBITS_TOP_MASK_def VERSIONBITS_TOP_BITS_def)

lemma mask_bits: "bit (vb_Mask params pos) n \<longleftrightarrow> n = bit_pos (vDeployments params pos) \<and> n < 32"
  by (auto simp: vb_Mask_def checker_Mask_def bit_simps)

lemma version_bits:
  assumes "\<And>pos. bit_pos (vDeployments params pos) < 29"
  shows "bit (fold (\<lambda>pos v. if f pos then v OR vb_Mask params pos else v) ps v) n \<longleftrightarrow>
    bit v n \<or> (\<exists>pos \<in> set ps. f pos \<and> n = bit_pos (vDeployments params pos))"
proof (induction ps arbitrary: v)
  case (Cons pos ps)
  have "n = bit_pos (vDeployments params pos) \<Longrightarrow> n < 32" using assms [of pos] by simp
  thus ?case using Cons.IH by (auto simp: bit_or_iff mask_bits)
qed simp

lemma top_unchanged:
  assumes "\<And>n. 29 \<le> n \<Longrightarrow> bit v n \<longleftrightarrow> bit VERSIONBITS_TOP_BITS n"
  shows "v AND VERSIONBITS_TOP_MASK = VERSIONBITS_TOP_BITS"
proof (rule bit_word_eqI)
  fix n assume "n < LENGTH(32)"
  have "bit VERSIONBITS_TOP_BITS n \<Longrightarrow> bit VERSIONBITS_TOP_MASK n"
    unfolding top_mask bit_push_bit_iff bit_1_iff by auto
  moreover have "bit VERSIONBITS_TOP_MASK n \<Longrightarrow> 29 \<le> n"
    unfolding top_mask bit_push_bit_iff by blast
  ultimately show "bit (v AND VERSIONBITS_TOP_MASK) n = bit VERSIONBITS_TOP_BITS n"
    using assms by (auto simp: bit_and_iff)
qed

lemma deployments_all [simp]: "pos \<in> set deployments"
  by (cases pos) (simp_all add: deployments_def)

lemma ComputeBlockVersion_spec:
  assumes "index_ready st params" "caches_right st params m" "case p of None \<Rightarrow> True | Some a \<Rightarrow> st a \<noteq> None"
    "\<And>pos. bit_pos (vDeployments params pos) < 29"
  shows "\<exists>v m'. ComputeBlockVersion st m p params = Some (Inr (v, m')) \<and>
    v AND VERSIONBITS_TOP_MASK = VERSIONBITS_TOP_BITS \<and>
    (\<forall>n < 29. bit v n \<longleftrightarrow> (\<exists>pos. signalling (deployment_state st params p pos) \<and> n = bit_pos (vDeployments params pos)))"
proof -
  define v where "v = fold (\<lambda>pos v. if signalling (deployment_state st params p pos) then v OR vb_Mask params pos else v)
    deployments VERSIONBITS_TOP_BITS"
  have b: "bit v n \<longleftrightarrow> bit VERSIONBITS_TOP_BITS n \<or>
      (\<exists>pos. signalling (deployment_state st params p pos) \<and> n = bit_pos (vDeployments params pos))" for n
    unfolding v_def using version_bits [OF assms(4)] by auto
  have "bit v n \<longleftrightarrow> bit VERSIONBITS_TOP_BITS n" if "29 \<le> n" for n
    unfolding b using assms(4) that by (metis linorder_not_less)
  hence "v AND VERSIONBITS_TOP_MASK = VERSIONBITS_TOP_BITS" by (rule top_unchanged)
  moreover have "\<not> bit VERSIONBITS_TOP_BITS n" if "n < 29" for n
    unfolding top_mask bit_push_bit_iff using that by auto
  ultimately show ?thesis
    using version_loop_spec [OF assms(1-3), of deployments VERSIONBITS_TOP_BITS] b
    unfolding ComputeBlockVersion_def v_def [symmetric] by blast
qed

section \<open>An example branch\<close>

text \<open>
  A branch whose blocks all signal bit 28, with periods of two blocks; the start time is reached in
  the first period.
\<close>

definition signal_entry :: "nat \<Rightarrow> CBlockIndex" where
  "signal_entry n = CBlockIndex_default\<lparr>pprev := (if n = 0 then None else Some (n - 1)), nHeight := int n,
     nTime := of_nat (100 * (n + 1)), nVersion := 0x30000000\<rparr>"

definition signal_index :: "CBlockIndex list" where
  "signal_index = map signal_entry [0, 1, 2, 3, 4, 5, 6, 7]"

definition signal_params :: Params where
  "signal_params = example_params\<lparr>nRuleChangeActivationThreshold := 2, nMinerConfirmationWindow := 2,
     vDeployments := (\<lambda>pos. case pos of
        DEPLOYMENT_TESTDUMMY \<Rightarrow> \<lparr>bit_pos = 28, nStartTime = 150, nTimeout = 100000, min_activation_height = 0\<rparr>
      | DEPLOYMENT_TAPROOT \<Rightarrow> \<lparr>bit_pos = 2, nStartTime = 350, nTimeout = 100000, min_activation_height = 0\<rparr>)\<rparr>"

abbreviation "dummy_checker \<equiv> VersionBitsConditionChecker DEPLOYMENT_TESTDUMMY"

lemma times_ok_store_of:
  "times_ok (store_of bs) \<longleftrightarrow> (\<forall>a \<in> set [0..<length bs].
     case pprev (bs ! a) of None \<Rightarrow> True | Some p \<Rightarrow> mtp_of (store_of bs) p \<le> GetBlockTime (bs ! a))"
  by (auto simp: times_ok_def store_of_def split: option.splits)

lemma signal_index_ok: "wf_index (store_of signal_index)" "times_ok (store_of signal_index)"
  unfolding wf_index_store_of times_ok_store_of by code_simp+

lemma signal_deployment_ok: "deployment_ok dummy_checker (store_of signal_index) signal_params"
  using signal_index_ok
  by (simp add: deployment_ok_def VersionBitsConditionChecker_def signal_params_def ALWAYS_ACTIVE_def NEVER_ACTIVE_def)

lemma signal_states:
  "branch_state dummy_checker (store_of signal_index) signal_params (Some 2) = STARTED"
  "branch_state dummy_checker (store_of signal_index) signal_params (Some 3) = LOCKED_IN"
  "branch_state dummy_checker (store_of signal_index) signal_params (Some 7) = ACTIVE"
  by code_simp+

lemma signal_blocks:
  "store_of signal_index 3 = Some (signal_entry 3)" "store_of signal_index 7 = Some (signal_entry 7)"
  "store_of signal_index 5 = Some (signal_entry 5)"
  by (simp_all add: store_of_def signal_index_def)

section \<open>Properties\<close>

text \<open>
  C7: with any cache whose entries are right, \<^verbatim>\<open>GetStateFor\<close> terminates without failing its assertion or
  following a null pointer, returns the state that going through the periods of the branch one by one
  gives, and leaves a cache that is right again; stopping early at a block before the start time is
  sound because the median time past does not decrease.
\<close>

theorem GetStateFor_exact:
  assumes "deployment_ok C st params" "cache_right C st params cache" "st a = Some b"
  shows "\<exists>cache'. GetStateFor C st (Some a) params cache = Some (Inr (branch_state C st params (Some a), cache')) \<and>
    cache_right C st params cache'"
  using GetStateFor_spec [OF assms(1,2), of "Some a"] assms(3) by simp

theorem GetStateFor_exact_witness:
  "\<exists>cache'. GetStateFor dummy_checker (store_of signal_index) (Some 3) signal_params Map.empty =
    Some (Inr (LOCKED_IN, cache'))"
  using GetStateFor_exact [OF signal_deployment_ok cache_right_empty signal_blocks(1)] signal_states by auto

text \<open>
  C33: from a block to a descendant the state moves only along the transitions of the deployment rules,
  by at most one of them per period, and the final states are kept for ever.
\<close>

theorem deployment_progress:
  assumes "deployment_ok C st params" "cache_right C st params cache"
    "st a = Some b" "GetAncestor st a h = Inr (Some d)"
    "GetStateFor C st (Some d) params cache = Some (Inr (s, cache1))"
  shows "\<exists>s' cache2. GetStateFor C st (Some a) params cache1 = Some (Inr (s', cache2)) \<and>
    bip9_step\<^sup>*\<^sup>* s s' \<and> (s = ACTIVE \<or> s = FAILED \<longrightarrow> s' = s) \<and>
    ((nHeight b + 1) div Period C params \<le> (h + 1) div Period C params + 1 \<longrightarrow> bip9_step s s')"
proof -
  have d: "ancestor st a h = Some d" using assms(4) GetAncestor_ancestor [OF deployment_okD(1) [OF assms(1)] assms(3)] by simp
  then obtain db where "st d = Some db" using ancestor_SomeD [OF deployment_okD(1) [OF assms(1)]] by metis
  with GetStateFor_spec [OF assms(1,2), of "Some d"] assms(5)
  have s: "s = branch_state C st params (Some d)" "cache_right C st params cache1" by auto
  from GetStateFor_spec [OF assms(1) s(2), of "Some a"] assms(3) obtain cache2 where
    "GetStateFor C st (Some a) params cache1 = Some (Inr (branch_state C st params (Some a), cache2))" by auto
  thus ?thesis using branch_progress [OF assms(1,3) d] bip9_final s(1) by auto
qed

theorem deployment_progress_witness:
  "\<exists>cache1 s' cache2. GetStateFor dummy_checker (store_of signal_index) (Some 3) signal_params Map.empty = Some (Inr (LOCKED_IN, cache1)) \<and>
    GetStateFor dummy_checker (store_of signal_index) (Some 5) signal_params cache1 = Some (Inr (s', cache2)) \<and>
    bip9_step LOCKED_IN s'"
proof -
  obtain c1 where c1: "GetStateFor dummy_checker (store_of signal_index) (Some 3) signal_params Map.empty = Some (Inr (LOCKED_IN, c1))"
    using GetStateFor_spec [OF signal_deployment_ok cache_right_empty, of "Some 3"] signal_blocks signal_states by auto
  have "GetAncestor (store_of signal_index) 5 3 = Inr (Some 3)" by code_simp
  from deployment_progress [OF signal_deployment_ok cache_right_empty signal_blocks(3) this c1] c1 show ?thesis
    by (auto simp: signal_entry_def VersionBitsConditionChecker_def signal_params_def)
qed

text \<open>
  C34: \<^verbatim>\<open>GetStateSinceHeightFor\<close> terminates and returns zero for a deployment that is still defined, and
  otherwise the first height of the period from which every block of the branch has the current
  state, while the block below that height does not.
\<close>

theorem GetStateSinceHeightFor_exact:
  assumes "deployment_ok C st params" "cache_right C st params cache" "st a = Some b"
  shows "\<exists>n cache'. GetStateSinceHeightFor C st (Some a) params cache = Some (Inr (n, cache')) \<and>
    (if branch_state C st params (Some a) = DEFINED then n = 0 else first_height_of_state C st params a (nHeight b) n)"
proof (cases "branch_state C st params (Some a) = DEFINED")
  case True
  thus ?thesis
    using GetStateFor_spec [OF assms(1,2), of "Some a"] assms(3) deployment_okD [OF assms(1)]
    by (auto simp: GetStateSinceHeightFor_def)
next
  case False
  thus ?thesis using since_spec [OF assms False] by auto
qed

theorem GetStateSinceHeightFor_exact_witness:
  "\<exists>n cache'. GetStateSinceHeightFor dummy_checker (store_of signal_index) (Some 7) signal_params Map.empty = Some (Inr (n, cache')) \<and>
    first_height_of_state dummy_checker (store_of signal_index) signal_params 7 7 n"
  using GetStateSinceHeightFor_exact [OF signal_deployment_ok cache_right_empty signal_blocks(2)] signal_states(3)
  by (simp add: signal_entry_def)

text \<open>
  A block with the version from \<^verbatim>\<open>ComputeBlockVersion\<close> meets the signalling condition of a deployment
  exactly when that deployment is started or locked in, if the deployments use different bits below
  the three top bits.
\<close>

theorem ComputeBlockVersion_signals:
  assumes "index_ready st params" "caches_right st params m" "st a = Some b"
    "inj (\<lambda>pos. bit_pos (vDeployments params pos))" "\<And>pos. bit_pos (vDeployments params pos) < 29"
  shows "\<exists>v m'. ComputeBlockVersion st m (Some a) params = Some (Inr (v, m')) \<and>
    (\<forall>blk pos. nVersion blk = v \<longrightarrow>
      (Condition (VersionBitsConditionChecker pos) blk params \<longleftrightarrow> signalling (deployment_state st params (Some a) pos)))"
proof -
  from ComputeBlockVersion_spec [OF assms(1,2), of "Some a"] assms(3,5) obtain v m' where
    v: "ComputeBlockVersion st m (Some a) params = Some (Inr (v, m'))" "v AND VERSIONBITS_TOP_MASK = VERSIONBITS_TOP_BITS"
      "\<And>n. n < 29 \<Longrightarrow> bit v n \<longleftrightarrow>
        (\<exists>pos. signalling (deployment_state st params (Some a) pos) \<and> n = bit_pos (vDeployments params pos))"
    by auto
  have "v AND checker_Mask pos params \<noteq> 0 \<longleftrightarrow> signalling (deployment_state st params (Some a) pos)" for pos
  proof -
    have "v AND checker_Mask pos params \<noteq> 0 \<longleftrightarrow> bit v (bit_pos (vDeployments params pos))"
      by (simp add: checker_Mask_def push_bit_of_1 and_exp_eq_0_iff_not_bit)
    also have "\<dots> \<longleftrightarrow> signalling (deployment_state st params (Some a) pos)"
      unfolding v(3) [OF assms(5)] using injD [OF assms(4)] by metis
    finally show ?thesis .
  qed
  thus ?thesis using v(1,2) by (auto simp: VersionBitsConditionChecker_def)
qed

theorem ComputeBlockVersion_signals_witness:
  "\<exists>v m'. ComputeBlockVersion (store_of signal_index) (\<lambda>_. Map.empty) (Some 3) signal_params = Some (Inr (v, m')) \<and>
    (\<forall>blk. nVersion blk = v \<longrightarrow> Condition dummy_checker blk signal_params)"
proof -
  have "index_ready (store_of signal_index) signal_params"
    using signal_index_ok by (simp add: index_ready_def signal_params_def)
  moreover have "caches_right (store_of signal_index) signal_params (\<lambda>_. Map.empty)" by (simp add: caches_right_def)
  moreover have "inj (\<lambda>pos. bit_pos (vDeployments signal_params pos))"
    by (intro injI) (auto simp: signal_params_def split: DeploymentPos.splits)
  moreover have "bit_pos (vDeployments signal_params pos) < 29" for pos
    by (simp add: signal_params_def split: DeploymentPos.splits)
  moreover have "signalling (deployment_state (store_of signal_index) signal_params (Some 3) DEPLOYMENT_TESTDUMMY)"
    using signal_states(2) by (simp add: signalling_def deployment_state_def signal_params_def ALWAYS_ACTIVE_def NEVER_ACTIVE_def)
  ultimately show ?thesis
    using ComputeBlockVersion_signals [of "store_of signal_index" signal_params "\<lambda>_. Map.empty" 3 "signal_entry 3"]
      signal_blocks(1) by meson
qed

end
