(* ===== verification/Merkle.thy ===== *)
theory Merkle
  imports Hash_Util
begin

text \<open>
  Merkle roots of \<^verbatim>\<open>consensus/merkle.cpp\<close>, and the search for the witness commitment in
  \<^verbatim>\<open>consensus/validation.h\<close>. The root is computed level by level, in place; it is compared here with a
  recursive tree, and the detection of repeated hashes is shown to make the root binding.
\<close>

section \<open>Operations\<close>

text \<open>The test of one level: two equal hashes at an even and the following odd position.\<close>

fun pair_repeated :: "'a list \<Rightarrow> bool" where
  "pair_repeated (x # y # r) \<longleftrightarrow> x = y \<or> pair_repeated r"
| "pair_repeated _ \<longleftrightarrow> False"

text \<open>
  One level: the last hash is repeated if their number is odd, the pairs are hashed over the start of
  the same memory, and the vector is cut to half its size.
\<close>

definition merkle_level :: "d64_impl \<Rightarrow> bytes list \<Rightarrow> bytes list" where
  "merkle_level impl hashes =
     (let hashes = (if odd (length hashes) then hashes @ [last hashes] else hashes);
          mem = concat hashes;
          out = SHA256D64 impl mem (length hashes div 2);
          mem = out @ drop (length out) mem
      in map (\<lambda>i. take 32 (drop (32 * i) mem)) [0..<length hashes div 2])"

lemma length_merkle_level: "length (merkle_level impl hashes) = (length hashes + 1) div 2"
  by (auto simp: merkle_level_def Let_def elim: oddE evenE)

function merkle_loop :: "d64_impl \<Rightarrow> bool \<Rightarrow> bytes list \<Rightarrow> bool \<Rightarrow> bytes list \<times> bool" where
  "merkle_loop impl mutated hashes mutation =
     (if length hashes > 1
      then merkle_loop impl mutated (merkle_level impl hashes) (mutation \<or> (mutated \<and> pair_repeated hashes))
      else (hashes, mutation))"
  by pat_completeness auto
termination
  by (relation "measure (\<lambda>(impl, mutated, hashes, mutation). length hashes)") (auto simp: length_merkle_level)

declare merkle_loop.simps [simp del]

text \<open>The flag tells whether the caller asks for the mutation result.\<close>

definition ComputeMerkleRoot :: "d64_impl \<Rightarrow> bytes list \<Rightarrow> bool \<Rightarrow> bytes \<times> bool option" where
  "ComputeMerkleRoot impl hashes mutated =
     (let (hashes, mutation) = merkle_loop impl mutated hashes False
      in (if length hashes = 0 then replicate 32 0 else hashes ! 0, if mutated then Some mutation else None))"

text \<open>A block as the hashes and witness hashes of its transactions.\<close>

record block_hashes =
  vtx_GetHash :: "bytes list"
  vtx_GetWitnessHash :: "bytes list"

definition BlockMerkleRoot :: "d64_impl \<Rightarrow> block_hashes \<Rightarrow> bool \<Rightarrow> bytes \<times> bool option" where
  "BlockMerkleRoot impl block mutated = ComputeMerkleRoot impl (vtx_GetHash block) mutated"

definition BlockWitnessMerkleRoot :: "d64_impl \<Rightarrow> block_hashes \<Rightarrow> bool \<Rightarrow> (bytes \<times> bool option) result" where
  "BlockWitnessMerkleRoot impl block mutated =
     (case vtx_GetWitnessHash block of
        [] \<Rightarrow> Inl Out_of_range
      | _ # ws \<Rightarrow> Inr (ComputeMerkleRoot impl (replicate 32 0 # ws) mutated))"

definition MINIMUM_WITNESS_COMMITMENT :: nat where "MINIMUM_WITNESS_COMMITMENT = 38"

definition is_commitment :: "bytes \<Rightarrow> bool" where
  "is_commitment script \<longleftrightarrow> length script \<ge> MINIMUM_WITNESS_COMMITMENT \<and>
     script ! 0 = 0x6a \<and> script ! 1 = 0x24 \<and> script ! 2 = 0xaa \<and> script ! 3 = 0x21 \<and> script ! 4 = 0xa9 \<and> script ! 5 = 0xed"

primrec commitment_loop :: "bytes list \<Rightarrow> int \<Rightarrow> int \<Rightarrow> int" where
  "commitment_loop [] pos commitpos = commitpos"
| "commitment_loop (s # ss) pos commitpos = commitment_loop ss (pos + 1) (if is_commitment s then pos else commitpos)"

text \<open>The argument is the list of output scripts of each transaction of the block.\<close>

definition GetWitnessCommitmentIndex :: "bytes list list \<Rightarrow> int" where
  "GetWitnessCommitmentIndex vtx = (case vtx of [] \<Rightarrow> -1 | scripts # _ \<Rightarrow> commitment_loop scripts 0 (-1))"

section \<open>Trees over a hash of pairs\<close>

fun pair_inputs :: "bytes list \<Rightarrow> bytes list" where
  "pair_inputs (x # y # r) = (x @ y) # pair_inputs r"
| "pair_inputs [x] = [x @ x]"
| "pair_inputs [] = []"

lemma length_pair_inputs [simp]: "length (pair_inputs hs) = (length hs + 1) div 2"
  by (induction hs rule: pair_inputs.induct) auto

lemma pair_inputs_take_drop:
  "pair_inputs (take (2 * k) hs) = take k (pair_inputs hs)" "pair_inputs (drop (2 * k) hs) = drop k (pair_inputs hs)"
proof (induction hs arbitrary: k rule: pair_inputs.induct)
  case (1 x y r)
  { case 1 thus ?case by (cases k) (simp_all add: "1.IH") }
  { case 2 thus ?case by (cases k) (simp_all add: "1.IH") }
next
  case (2 x)
  { case 1 thus ?case by (cases k) simp_all }
  { case 2 thus ?case by (cases k) simp_all }
qed simp_all

lemma pair_inputs_inj:
  "pair_inputs xs = pair_inputs ys \<Longrightarrow> \<forall>x \<in> set (xs @ ys). length x = n \<Longrightarrow> \<not> pair_repeated xs \<Longrightarrow> \<not> pair_repeated ys \<Longrightarrow> xs = ys"
proof (induction xs arbitrary: ys rule: pair_inputs.induct)
  case (1 x y r)
  note prems = "1.prems" and IH = "1.IH"
  show ?case
  proof (cases ys rule: pair_inputs.cases)
    case (1 x' y' r')
    thus ?thesis using prems IH [of r'] by auto
  next
    case (2 x')
    thus ?thesis using prems by auto
  qed (use prems in simp)
next
  case (2 x)
  thus ?case by (cases ys rule: pair_inputs.cases) auto
next
  case 3
  thus ?case by (cases ys rule: pair_inputs.cases) auto
qed

text \<open>The number of levels above the leaves.\<close>

fun tree_levels :: "nat \<Rightarrow> nat" where
  "tree_levels n = (if n \<le> 1 then 0 else Suc (tree_levels ((n + 1) div 2)))"

declare tree_levels.simps [simp del]

definition up :: "(bytes \<Rightarrow> bytes) \<Rightarrow> bytes list \<Rightarrow> bytes list" where
  "up D hs = map D (pair_inputs hs)"

lemma length_up [simp]: "length (up D hs) = (length hs + 1) div 2"
  by (simp add: up_def)

function level_root :: "(bytes \<Rightarrow> bytes) \<Rightarrow> bytes list \<Rightarrow> bytes" where
  "level_root D hs = (if length hs > 1 then level_root D (up D hs) else hd hs)"
  by pat_completeness auto
termination
  by (relation "measure (\<lambda>(D, hs). length hs)") auto

text \<open>Every string that is hashed on the way to the root.\<close>

function level_inputs :: "(bytes \<Rightarrow> bytes) \<Rightarrow> bytes list \<Rightarrow> bytes list" where
  "level_inputs D hs = (if length hs > 1 then pair_inputs hs @ level_inputs D (up D hs) else [])"
  by pat_completeness auto
termination
  by (relation "measure (\<lambda>(D, hs). length hs)") auto

function level_repeated :: "(bytes \<Rightarrow> bytes) \<Rightarrow> bytes list \<Rightarrow> bool" where
  "level_repeated D hs = (if length hs > 1 then pair_repeated hs \<or> level_repeated D (up D hs) else False)"
  by pat_completeness auto
termination
  by (relation "measure (\<lambda>(D, hs). length hs)") auto

declare level_root.simps [simp del] level_inputs.simps [simp del] level_repeated.simps [simp del]

lemma level_root_single: "level_root D [x] = x"
  by (subst level_root.simps) simp

text \<open>Top down: the left half stands for the right one where the leaves do not reach it.\<close>

primrec tree_root :: "(bytes \<Rightarrow> bytes) \<Rightarrow> nat \<Rightarrow> bytes list \<Rightarrow> bytes" where
  "tree_root D 0 hs = hd hs"
| "tree_root D (Suc d) hs =
     (let l = tree_root D d (take (2 ^ d) hs)
      in D (l @ (if length hs \<le> 2 ^ d then l else tree_root D d (drop (2 ^ d) hs))))"

locale node_hash =
  fixes D :: "bytes \<Rightarrow> bytes" and n :: nat
  assumes hash_length: "length (D x) = n"
begin

lemma up_length: "x \<in> set (up D hs) \<Longrightarrow> length x = n"
  by (auto simp: up_def hash_length)

lemma tree_root_up: "hs \<noteq> [] \<Longrightarrow> tree_root D (Suc d) hs = tree_root D d (up D hs)"
proof (induction d arbitrary: hs)
  case 0
  thus ?case by (cases hs rule: pair_inputs.cases) (simp_all add: up_def)
next
  case (Suc d)
  have t: "up D (take (2 ^ Suc d) hs) = take (2 ^ d) (up D hs)" "up D (drop (2 ^ Suc d) hs) = drop (2 ^ d) (up D hs)"
    by (simp_all add: up_def pair_inputs_take_drop take_map drop_map)
  have l: "length hs \<le> 2 ^ Suc d \<longleftrightarrow> length (up D hs) \<le> 2 ^ d" by (simp add: up_def) linarith
  have A: "tree_root D (Suc d) (take (2 ^ Suc d) hs) = tree_root D d (take (2 ^ d) (up D hs))"
    using Suc.IH [of "take (2 ^ Suc d) hs"] Suc.prems unfolding t by simp
  note R = tree_root.simps(2) [of D "Suc d" hs] tree_root.simps(2) [of D d "up D hs"] Let_def
  show ?case
  proof (cases "length hs \<le> 2 ^ Suc d")
    case True
    show ?thesis unfolding R A if_P [OF True] if_P [OF True [unfolded l]] ..
  next
    case False
    hence "tree_root D (Suc d) (drop (2 ^ Suc d) hs) = tree_root D d (drop (2 ^ d) (up D hs))"
      using Suc.IH [of "drop (2 ^ Suc d) hs"] unfolding t by simp
    thus ?thesis unfolding R A if_not_P [OF False] if_not_P [OF False [unfolded l]] by (simp only:)
  qed
qed

lemma level_root_tree: "hs \<noteq> [] \<Longrightarrow> level_root D hs = tree_root D (tree_levels (length hs)) hs"
proof (induction hs rule: measure_induct_rule [of length])
  case (less hs)
  show ?case
  proof (cases "length hs > 1")
    case True
    hence "up D hs \<noteq> []" by (simp flip: length_greater_0_conv)
    with True less.IH [of "up D hs"] show ?thesis
      by (subst level_root.simps, subst tree_levels.simps) (simp add: tree_root_up less.prems del: tree_root.simps)
  next
    case False
    thus ?thesis by (subst level_root.simps, subst tree_levels.simps) simp
  qed
qed

text \<open>Equal roots of different lists of one height that pass the test expose two inputs with one hash.\<close>

lemma map_collision: "map D xs = map D ys \<Longrightarrow> xs = ys \<or> (\<exists>x \<in> set xs. \<exists>y \<in> set ys. x \<noteq> y \<and> D x = D y)"
proof (induction xs arbitrary: ys)
  case (Cons x xs)
  then obtain y ys' where "ys = y # ys'" "D x = D y" "map D xs = map D ys'" by (cases ys) auto
  thus ?case using Cons.IH by auto
qed simp

lemma level_root_binding:
  "level_root D hs = level_root D hs' \<Longrightarrow> tree_levels (length hs) = tree_levels (length hs') \<Longrightarrow> hs \<noteq> [] \<Longrightarrow> hs' \<noteq> [] \<Longrightarrow>
    \<forall>x \<in> set (hs @ hs'). length x = n \<Longrightarrow> \<not> level_repeated D hs \<Longrightarrow> \<not> level_repeated D hs' \<Longrightarrow>
    hs = hs' \<or> (\<exists>x \<in> set (level_inputs D hs). \<exists>y \<in> set (level_inputs D hs'). x \<noteq> y \<and> D x = D y)"
proof (induction hs arbitrary: hs' rule: measure_induct_rule [of length])
  case (less hs)
  show ?case
  proof (cases "length hs > 1")
    case False
    hence "length hs' \<le> 1"
      using less.prems(2) by (simp add: tree_levels.simps [of "length hs"] tree_levels.simps [of "length hs'"] split: if_splits)
    thus ?thesis using less.prems(1,3,4) False
      by (cases hs; cases hs') (simp_all add: level_root_single)
  next
    case True
    hence l: "length hs' > 1"
      using less.prems(2) by (simp add: tree_levels.simps [of "length hs"] tree_levels.simps [of "length hs'"] split: if_splits)
    have nr: "\<not> pair_repeated hs" "\<not> pair_repeated hs'" "\<not> level_repeated D (up D hs)" "\<not> level_repeated D (up D hs')"
      using less.prems(6,7) True l by (simp_all add: level_repeated.simps [of D hs] level_repeated.simps [of D hs'])
    have i: "level_inputs D hs = pair_inputs hs @ level_inputs D (up D hs)" "level_inputs D hs' = pair_inputs hs' @ level_inputs D (up D hs')"
      using True l by (simp_all add: level_inputs.simps [of D hs] level_inputs.simps [of D hs'])
    have "level_root D (up D hs) = level_root D (up D hs')"
      using less.prems(1) True l by (simp add: level_root.simps [of D hs] level_root.simps [of D hs'])
    moreover have "tree_levels (length (up D hs)) = tree_levels (length (up D hs'))"
      using less.prems(2) True l by (simp add: tree_levels.simps [of "length hs"] tree_levels.simps [of "length hs'"])
    moreover have "up D hs \<noteq> []" "up D hs' \<noteq> []" using True l by (simp_all flip: length_greater_0_conv)
    moreover have "\<forall>x \<in> set (up D hs @ up D hs'). length x = n" using up_length by auto
    moreover have "length (up D hs) < length hs" using True by simp
    ultimately consider "up D hs = up D hs'"
      | x y where "x \<in> set (level_inputs D (up D hs))" "y \<in> set (level_inputs D (up D hs'))" "x \<noteq> y" "D x = D y"
      using less.IH [of "up D hs" "up D hs'"] nr(3,4) by blast
    thus ?thesis
    proof cases
      case 1
      hence "map D (pair_inputs hs) = map D (pair_inputs hs')" by (simp add: up_def)
      from map_collision [OF this] show ?thesis
        using pair_inputs_inj [OF _ less.prems(5) nr(1,2)] unfolding i set_append by blast
    next
      case 2
      thus ?thesis unfolding i set_append by blast
    qed
  qed
qed

end

section \<open>The code computes such a tree\<close>

abbreviation sha256d :: "bytes \<Rightarrow> bytes" where
  "sha256d b \<equiv> fips_sha256 (fips_sha256 b)"

interpretation merkle: node_hash sha256d 32
  by unfold_locales simp

lemma chunks_concat:
  "(\<And>x. x \<in> set xs \<Longrightarrow> length x = n) \<Longrightarrow> map (\<lambda>i. take n (drop (n * i) (concat xs @ ys))) [0..<length xs] = xs"
proof (induction xs)
  case (Cons x xs)
  have "length x = n" using Cons.prems by simp
  hence "map (\<lambda>i. take n (drop (n * Suc i) (concat (x # xs) @ ys))) [0..<length xs] =
      map (\<lambda>i. take n (drop (n * i) (concat xs @ ys))) [0..<length xs]" by simp
  also have "\<dots> = xs" using Cons by simp
  finally show ?case using \<open>length x = n\<close> by (simp add: map_upt_Suc del: upt_Suc)
qed simp

lemma double_hashes_pairs:
  "(\<And>h. h \<in> set hs \<Longrightarrow> length h = 32) \<Longrightarrow> even (length hs) \<Longrightarrow> double_hashes (concat hs) = concat (up sha256d hs)"
proof (induction hs rule: pair_inputs.induct)
  case (1 x y r)
  have l: "length (x @ y) = 64 * 1" using "1.prems"(1) by simp
  hence "double_hashes (x @ y) = sha256d (x @ y)" by (simp add: double_hashes_def blocks_of_single)
  thus ?case using "1.IH" "1.prems" double_hashes_append [OF l, of "concat r"] by (simp add: up_def)
qed (simp_all add: double_hashes_def blocks_of_def up_def)

lemma pair_inputs_odd: "odd (length hs) \<Longrightarrow> pair_inputs (hs @ [last hs]) = pair_inputs hs"
  by (induction hs rule: pair_inputs.induct) auto

lemma merkle_level_up:
  assumes "d64_impl_ok impl" "\<And>h. h \<in> set hs \<Longrightarrow> length h = 32"
  shows "merkle_level impl hs = up sha256d hs"
proof -
  define ps where "ps = (if odd (length hs) then hs @ [last hs] else hs)"
  have "odd (length hs) \<Longrightarrow> length (last hs) = 32" using assms(2) by (cases hs) auto
  hence ps: "even (length ps)" "\<And>h. h \<in> set ps \<Longrightarrow> length h = 32" "up sha256d ps = up sha256d hs"
    using assms(2) by (auto simp: ps_def up_def pair_inputs_odd split: if_splits)
  have "length (concat ps) = 32 * length ps"
    using ps(2) by (induction ps) auto
  hence "length (concat ps) = 64 * (length ps div 2)" using ps(1) by auto
  from SHA256D64_double [OF assms(1) this] double_hashes_pairs [OF ps(2,1)]
  have o: "SHA256D64 impl (concat ps) (length ps div 2) = concat (up sha256d ps)" by simp
  have n: "length ps div 2 = length (up sha256d ps)" using ps(1) by auto
  have "merkle_level impl hs = map (\<lambda>i. take 32 (drop (32 * i)
      (concat (up sha256d ps) @ drop (length (concat (up sha256d ps))) (concat ps)))) [0..<length (up sha256d ps)]"
    unfolding merkle_level_def Let_def ps_def [symmetric] o unfolding n ..
  also have "\<dots> = up sha256d ps" by (rule chunks_concat) (rule merkle.up_length)
  finally show ?thesis using ps(3) by simp
qed

lemma merkle_loop_levels:
  "d64_impl_ok impl \<Longrightarrow> (\<And>h. h \<in> set hs \<Longrightarrow> length h = 32) \<Longrightarrow> hs \<noteq> [] \<Longrightarrow>
    merkle_loop impl mutated hs m = ([level_root sha256d hs], m \<or> (mutated \<and> level_repeated sha256d hs))"
proof (induction hs arbitrary: m rule: measure_induct_rule [of length])
  case (less hs)
  show ?case
  proof (cases "length hs > 1")
    case True
    note lev = merkle_level_up [OF less.prems(1,2)]
    have "length (up sha256d hs) < length hs" using True by simp
    moreover have "up sha256d hs \<noteq> []" using True by (simp flip: length_greater_0_conv)
    ultimately have "merkle_loop impl mutated (up sha256d hs) (m \<or> (mutated \<and> pair_repeated hs)) =
        ([level_root sha256d (up sha256d hs)], (m \<or> (mutated \<and> pair_repeated hs)) \<or> (mutated \<and> level_repeated sha256d (up sha256d hs)))"
      using less.IH less.prems(1) merkle.up_length by blast
    thus ?thesis using True
      by (auto simp: merkle_loop.simps [of impl mutated hs] lev level_root.simps [of sha256d hs] level_repeated.simps [of sha256d hs])
  next
    case False
    then obtain h where "hs = [h]" using less.prems(3) by (cases hs) auto
    thus ?thesis
      by (simp add: merkle_loop.simps [of impl mutated "[h]"] level_root_single level_repeated.simps [of sha256d "[h]"])
  qed
qed

lemma ComputeMerkleRoot_levels:
  assumes "d64_impl_ok impl" "\<And>h. h \<in> set hs \<Longrightarrow> length h = 32" "hs \<noteq> []"
  shows "ComputeMerkleRoot impl hs mutated =
    (level_root sha256d hs, if mutated then Some (level_repeated sha256d hs) else None)"
  by (simp add: ComputeMerkleRoot_def merkle_loop_levels [OF assms])

section \<open>Properties\<close>





text \<open>
  C39: the mutation flag makes the root binding: two different lists of hashes with trees of the same height
  have different roots, or one of them is flagged, or among the inputs hashed on the way to the two
  roots there are two different ones with the same double SHA-256.
\<close>

theorem merkle_root_binding:
  assumes "d64_impl_ok impl" "\<And>h. h \<in> set (hs @ hs') \<Longrightarrow> length h = 32" "hs \<noteq> []" "hs' \<noteq> []"
    "tree_levels (length hs) = tree_levels (length hs')" "hs \<noteq> hs'"
  shows "fst (ComputeMerkleRoot impl hs True) \<noteq> fst (ComputeMerkleRoot impl hs' True) \<or>
    snd (ComputeMerkleRoot impl hs True) = Some True \<or> snd (ComputeMerkleRoot impl hs' True) = Some True \<or>
    (\<exists>x y. x \<in> set (level_inputs sha256d hs) \<and> y \<in> set (level_inputs sha256d hs') \<and> x \<noteq> y \<and> sha256d x = sha256d y)"
proof -
  have a: "\<And>h. h \<in> set hs \<Longrightarrow> length h = 32" "\<And>h. h \<in> set hs' \<Longrightarrow> length h = 32" using assms(2) by auto
  have "\<forall>x \<in> set (hs @ hs'). length x = 32" using assms(2) by blast
  from merkle.level_root_binding [OF _ assms(5,3,4) this] assms(6)
  have "level_root sha256d hs \<noteq> level_root sha256d hs' \<or> level_repeated sha256d hs \<or> level_repeated sha256d hs' \<or>
    (\<exists>x y. x \<in> set (level_inputs sha256d hs) \<and> y \<in> set (level_inputs sha256d hs') \<and> x \<noteq> y \<and> sha256d x = sha256d y)" by blast
  thus ?thesis
    by (simp add: ComputeMerkleRoot_levels [OF assms(1) a(1) assms(3)] ComputeMerkleRoot_levels [OF assms(1) a(2) assms(4)])
qed

lemma two_leaves:
  assumes "length a = 32" "length b = 32" "a \<noteq> b"
  shows "snd (ComputeMerkleRoot portable_d64 [a, b] True) = Some False" "level_inputs sha256d [a, b] = [a @ b]"
proof -
  have "level_repeated sha256d [x] = False" "level_inputs sha256d [x] = []" for x
    by (simp_all add: level_repeated.simps [of _ "[x]"] level_inputs.simps [of _ "[x]"])
  hence "\<not> level_repeated sha256d [a, b]" and i: "level_inputs sha256d [a, b] = [a @ b]" using assms(3)
    by (simp_all add: level_repeated.simps [of _ "[a, b]"] level_inputs.simps [of _ "[a, b]"] up_def)
  moreover have "\<And>h. h \<in> set [a, b] \<Longrightarrow> length h = 32" using assms(1,2) by auto
  ultimately show "snd (ComputeMerkleRoot portable_d64 [a, b] True) = Some False"
    using ComputeMerkleRoot_levels [OF portable_d64_ok, of "[a, b]" True] by simp
  show "level_inputs sha256d [a, b] = [a @ b]" by (rule i)
qed

text \<open>Two blocks of two transactions that differ in the second: equal roots give a collision.\<close>

theorem merkle_root_binding_witness:
  "if fst (ComputeMerkleRoot portable_d64 [replicate 32 1, replicate 32 2] True) =
      fst (ComputeMerkleRoot portable_d64 [replicate 32 1, replicate 32 3] True)
   then sha256d (replicate 32 1 @ replicate 32 2) = sha256d (replicate 32 1 @ replicate 32 3) else True"
proof -
  let ?a = "replicate 32 1 :: bytes" and ?b = "replicate 32 2 :: bytes" and ?c = "replicate 32 3 :: bytes"
  have d: "?a \<noteq> ?b" "?a \<noteq> ?c" "?b \<noteq> ?c" by simp_all
  note t = two_leaves [OF _ _ d(1)] two_leaves [OF _ _ d(2)]
  have "\<And>h. h \<in> set ([?a, ?b] @ [?a, ?c]) \<Longrightarrow> length h = 32" by auto
  with merkle_root_binding [OF portable_d64_ok, of "[?a, ?b]" "[?a, ?c]"] d(3) show ?thesis by (simp add: t)
qed

end
