(* ===== verification/Tx_Rules.thy ===== *)
theory Tx_Rules
  imports Coins_Run Block_Index
begin

text \<open>
  Amounts, the validation state, and the context-free transaction rules: \<^verbatim>\<open>consensus/amount.h\<close>,
  \<^verbatim>\<open>consensus/consensus.h\<close>, \<^verbatim>\<open>consensus/validation.h\<close> and \<^verbatim>\<open>consensus/tx_check.cpp\<close>. The transaction
  classes, their constants, script inspection and serialised sizes come from code outside the sources: their data
  fields are records here and their functions and constants are arguments.
\<close>

section \<open>Amounts\<close>

type_synonym CAmount = "64 word"

definition COIN :: int where "COIN = 100000000"
definition MAX_MONEY :: int where "MAX_MONEY = 1213000000 * COIN"

definition MoneyRange :: "CAmount \<Rightarrow> bool" where
  "MoneyRange nValue \<longleftrightarrow> sint nValue \<ge> 0 \<and> sint nValue \<le> MAX_MONEY"

definition MAX_BLOCK_WEIGHT :: u64 where "MAX_BLOCK_WEIGHT = 4000000"
definition MAX_BLOCK_SIGOPS_COST :: int where "MAX_BLOCK_SIGOPS_COST = 80000"
definition COINBASE_MATURITY :: int where "COINBASE_MATURITY = 100"
definition WITNESS_SCALE_FACTOR :: nat where "WITNESS_SCALE_FACTOR = 4"
definition LOCKTIME_VERIFY_SEQUENCE :: u32 where "LOCKTIME_VERIFY_SEQUENCE = 1"

section \<open>Transactions\<close>

record CTxOut =
  nValue :: CAmount
  scriptPubKey :: bytes

record CTxIn =
  prevout :: outpoint
  scriptSig :: bytes
  nSequence :: u32
  scriptWitness :: "bytes list"

record CTx =
  tx_hash :: bytes
  tx_nVersion :: u32
  vin :: "CTxIn list"
  vout :: "CTxOut list"
  tx_nLockTime :: u32

record tx_lib =
  lib_IsCoinBase :: "CTx \<Rightarrow> bool"
  lib_prevout_IsNull :: "outpoint \<Rightarrow> bool"
  lib_NoWitnessSize :: "CTx \<Rightarrow> u64"
  lib_GetValueOut :: "CTx \<Rightarrow> CAmount result"
  lib_GetSigOpCount :: "bytes \<Rightarrow> bool \<Rightarrow> u32"
  lib_GetSigOpCount_P2SH :: "bytes \<Rightarrow> bytes \<Rightarrow> u32"
  lib_IsPayToScriptHash :: "bytes \<Rightarrow> bool"
  lib_CountWitnessSigOps :: "bytes \<Rightarrow> bytes \<Rightarrow> bytes list \<Rightarrow> u32 \<Rightarrow> u64"
  lib_SCRIPT_VERIFY_P2SH :: u32
  lib_LOCKTIME_THRESHOLD :: u32
  lib_SEQUENCE_FINAL :: u32
  lib_SEQUENCE_LOCKTIME_DISABLE_FLAG :: u32
  lib_SEQUENCE_LOCKTIME_TYPE_FLAG :: u32
  lib_SEQUENCE_LOCKTIME_MASK :: u32
  lib_SEQUENCE_LOCKTIME_GRANULARITY :: nat
  lib_strprintf :: "string \<Rightarrow> int list \<Rightarrow> string"

text \<open>The transaction as the coins cache sees it.\<close>

definition coins_tx :: "tx_lib \<Rightarrow> CTx \<Rightarrow> CTxOut CTransaction" where
  "coins_tx L tx = \<lparr>tx_GetHash = tx_hash tx, tx_IsCoinBase = lib_IsCoinBase L tx,
     tx_prevouts = map prevout (vin tx), tx_vout = vout tx\<rparr>"

section \<open>The validation state\<close>

datatype TxValidationResult =
    TX_RESULT_UNSET | TX_CONSENSUS | TX_RECENT_CONSENSUS_CHANGE | TX_INPUTS_NOT_STANDARD | TX_NOT_STANDARD
  | TX_MISSING_INPUTS | TX_PREMATURE_SPEND | TX_WITNESS_MUTATED | TX_WITNESS_STRIPPED | TX_CONFLICT
  | TX_MEMPOOL_POLICY | TX_NO_MEMPOOL | TX_RECONSIDERABLE | TX_UNKNOWN

datatype ModeState = M_VALID | M_INVALID | M_ERROR

record 'r ValidationState =
  m_mode :: ModeState
  m_result :: 'r
  m_reject_reason :: string
  m_debug_message :: string

definition state_Invalid :: "'r ValidationState \<Rightarrow> 'r \<Rightarrow> string \<Rightarrow> string \<Rightarrow> bool \<times> 'r ValidationState" where
  "state_Invalid s res reject_reason debug_message =
     (False, s\<lparr>m_result := res, m_reject_reason := reject_reason, m_debug_message := debug_message,
       m_mode := (if m_mode s \<noteq> M_ERROR then M_INVALID else m_mode s)\<rparr>)"

definition state_Error :: "'r ValidationState \<Rightarrow> string \<Rightarrow> bool \<times> 'r ValidationState" where
  "state_Error s reject_reason =
     (False, s\<lparr>m_reject_reason := (if m_mode s = M_VALID then reject_reason else m_reject_reason s), m_mode := M_ERROR\<rparr>)"

definition state_IsValid :: "'r ValidationState \<Rightarrow> bool" where
  "state_IsValid s \<longleftrightarrow> m_mode s = M_VALID"

definition state_IsInvalid :: "'r ValidationState \<Rightarrow> bool" where
  "state_IsInvalid s \<longleftrightarrow> m_mode s = M_INVALID"

definition state_IsError :: "'r ValidationState \<Rightarrow> bool" where
  "state_IsError s \<longleftrightarrow> m_mode s = M_ERROR"

definition state_ToString :: "'r ValidationState \<Rightarrow> string" where
  "state_ToString s =
     (if state_IsValid s then ''Valid''
      else if m_debug_message s \<noteq> '''' then m_reject_reason s @ '', '' @ m_debug_message s
      else m_reject_reason s)"

type_synonym TxValidationState = "TxValidationResult ValidationState"

section \<open>Context-free checks\<close>

text \<open>The loops return the reason for which they reject, if they do.\<close>

primrec check_vout :: "CTxOut list \<Rightarrow> CAmount \<Rightarrow> string option" where
  "check_vout [] nValueOut = None"
| "check_vout (txout # txouts) nValueOut =
     (if sint (nValue txout) < 0 then Some ''bad-txns-vout-negative''
      else if sint (nValue txout) > MAX_MONEY then Some ''bad-txns-vout-toolarge''
      else
        let nValueOut = nValueOut + nValue txout
        in if \<not> MoneyRange nValueOut then Some ''bad-txns-txouttotal-toolarge'' else check_vout txouts nValueOut)"

primrec check_duplicates :: "outpoint list \<Rightarrow> outpoint set \<Rightarrow> bool" where
  "check_duplicates [] vInOutPoints = True"
| "check_duplicates (k # ks) vInOutPoints =
     (if k \<in> vInOutPoints then False else check_duplicates ks (insert k vInOutPoints))"

definition CheckTransaction :: "tx_lib \<Rightarrow> CTx \<Rightarrow> TxValidationState \<Rightarrow> bool \<times> TxValidationState" where
  "CheckTransaction L tx state =
     (if vin tx = [] then state_Invalid state TX_CONSENSUS ''bad-txns-vin-empty'' ''''
      else if vout tx = [] then state_Invalid state TX_CONSENSUS ''bad-txns-vout-empty'' ''''
      else if lib_NoWitnessSize L tx * of_nat WITNESS_SCALE_FACTOR > MAX_BLOCK_WEIGHT
      then state_Invalid state TX_CONSENSUS ''bad-txns-oversize'' ''''
      else case check_vout (vout tx) 0 of
        Some reason \<Rightarrow> state_Invalid state TX_CONSENSUS reason ''''
      | None \<Rightarrow>
          if \<not> check_duplicates (map prevout (vin tx)) {}
          then state_Invalid state TX_CONSENSUS ''bad-txns-inputs-duplicate'' ''''
          else if lib_IsCoinBase L tx then
            if length (scriptSig (vin tx ! 0)) < 2 \<or> length (scriptSig (vin tx ! 0)) > 100
            then state_Invalid state TX_CONSENSUS ''bad-cb-length'' '''' else (True, state)
          else if list_ex (\<lambda>txin. lib_prevout_IsNull L (prevout txin)) (vin tx)
          then state_Invalid state TX_CONSENSUS ''bad-txns-prevout-null'' ''''
          else (True, state))"

section \<open>Sums of amounts\<close>

definition value_sum :: "CTxOut list \<Rightarrow> int" where
  "value_sum xs = (\<Sum>x\<leftarrow>xs. sint (nValue x))"

lemma value_sum_simps [simp]: "value_sum [] = 0" "value_sum (x # xs) = sint (nValue x) + value_sum xs"
  by (simp_all add: value_sum_def)

lemma MAX_MONEY_bounds: "0 < MAX_MONEY" "2 * MAX_MONEY < 2 ^ 63"
  by (simp_all add: MAX_MONEY_def COIN_def)

text \<open>Two amounts in range add without overflow.\<close>

lemma MoneyRange_add:
  assumes "MoneyRange a" "MoneyRange b"
  shows "sint (a + b) = sint a + sint b"
proof -
  have "0 \<le> sint a + sint b" "sint a + sint b < 2 ^ 63"
    using assms MAX_MONEY_bounds by (auto simp: MoneyRange_def)
  thus ?thesis by (simp add: sint_word_ariths(1) signed_take_bit_int_eq_self)
qed

lemma value_sum_nonneg: "list_all (\<lambda>x. MoneyRange (nValue x)) xs \<Longrightarrow> 0 \<le> value_sum xs"
  by (induction xs) (auto simp: MoneyRange_def)

lemma check_vout_iff:
  "MoneyRange v \<Longrightarrow> check_vout xs v = None \<longleftrightarrow>
    list_all (\<lambda>x. MoneyRange (nValue x)) xs \<and> sint v + value_sum xs \<le> MAX_MONEY"
proof (induction xs arbitrary: v)
  case Nil
  thus ?case by (simp add: MoneyRange_def)
next
  case (Cons x xs)
  show ?case
  proof (cases "MoneyRange (nValue x)")
    case True
    note a = MoneyRange_add [OF Cons.prems True]
    have iff: "MoneyRange (v + nValue x) \<longleftrightarrow> sint v + sint (nValue x) \<le> MAX_MONEY"
      using Cons.prems True by (auto simp: MoneyRange_def a)
    show ?thesis
    proof (cases "MoneyRange (v + nValue x)")
      case m: True
      thus ?thesis using True Cons.IH [OF m] by (simp add: Let_def a MoneyRange_def add.assoc)
    next
      case False
      hence "MAX_MONEY < sint v + sint (nValue x)" using iff by simp
      thus ?thesis using True False value_sum_nonneg [of xs] by (auto simp: Let_def MoneyRange_def)
    qed
  qed (auto simp: MoneyRange_def)
qed

lemma check_duplicates_iff: "check_duplicates ks S \<longleftrightarrow> distinct ks \<and> set ks \<inter> S = {}"
  by (induction ks arbitrary: S) auto

text \<open>What the rules say of an acceptable transaction.\<close>

definition tx_well_formed :: "tx_lib \<Rightarrow> CTx \<Rightarrow> bool" where
  "tx_well_formed L tx \<longleftrightarrow> vin tx \<noteq> [] \<and> vout tx \<noteq> [] \<and>
     lib_NoWitnessSize L tx * 4 \<le> 4000000 \<and>
     list_all (\<lambda>x. MoneyRange (nValue x)) (vout tx) \<and> value_sum (vout tx) \<le> MAX_MONEY \<and>
     distinct (map prevout (vin tx)) \<and>
     (if lib_IsCoinBase L tx then length (scriptSig (hd (vin tx))) \<in> {2..100}
      else list_all (\<lambda>txin. \<not> lib_prevout_IsNull L (prevout txin)) (vin tx))"

lemma list_ex_not: "list_ex P xs \<longleftrightarrow> \<not> list_all (\<lambda>x. \<not> P x) xs"
  by (induction xs) auto

lemma CheckTransaction_cases:
  "\<exists>reason. CheckTransaction L tx s = (if tx_well_formed L tx then (True, s) else state_Invalid s TX_CONSENSUS reason '''')"
proof -
  have z: "MoneyRange 0" using MAX_MONEY_bounds by (simp add: MoneyRange_def)
  note V = check_vout_iff [OF z, of "vout tx"]
  show ?thesis
  proof (cases "vin tx = [] \<or> vout tx = [] \<or> lib_NoWitnessSize L tx * of_nat WITNESS_SCALE_FACTOR > MAX_BLOCK_WEIGHT")
    case True
    hence "\<not> tx_well_formed L tx"
      by (auto simp: tx_well_formed_def WITNESS_SCALE_FACTOR_def MAX_BLOCK_WEIGHT_def)
    moreover have "\<exists>reason. CheckTransaction L tx s = state_Invalid s TX_CONSENSUS reason ''''"
      using True by (metis CheckTransaction_def)
    ultimately show ?thesis by simp
  next
    case False
    hence sz: "lib_NoWitnessSize L tx * 4 \<le> 4000000" "vin tx \<noteq> []" "vout tx \<noteq> []" "hd (vin tx) = vin tx ! 0"
      by (simp_all add: WITNESS_SCALE_FACTOR_def MAX_BLOCK_WEIGHT_def hd_conv_nth not_less)
    show ?thesis
    proof (cases "check_vout (vout tx) 0")
      case (Some reason)
      hence "\<not> tx_well_formed L tx" using V by (auto simp: tx_well_formed_def)
      moreover have "CheckTransaction L tx s = state_Invalid s TX_CONSENSUS reason ''''"
        unfolding CheckTransaction_def Some using False by simp
      ultimately show ?thesis by auto
    next
      case None
      hence w: "tx_well_formed L tx \<longleftrightarrow> distinct (map prevout (vin tx)) \<and>
          (if lib_IsCoinBase L tx then length (scriptSig (vin tx ! 0)) \<in> {2..100}
           else list_all (\<lambda>txin. \<not> lib_prevout_IsNull L (prevout txin)) (vin tx))"
        using V sz by (simp add: tx_well_formed_def)
      have c: "CheckTransaction L tx s =
          (if \<not> check_duplicates (map prevout (vin tx)) {}
           then state_Invalid s TX_CONSENSUS ''bad-txns-inputs-duplicate'' ''''
           else if lib_IsCoinBase L tx then
             if length (scriptSig (vin tx ! 0)) < 2 \<or> length (scriptSig (vin tx ! 0)) > 100
             then state_Invalid s TX_CONSENSUS ''bad-cb-length'' '''' else (True, s)
           else if list_ex (\<lambda>txin. lib_prevout_IsNull L (prevout txin)) (vin tx)
           then state_Invalid s TX_CONSENSUS ''bad-txns-prevout-null'' ''''
           else (True, s))"
        unfolding CheckTransaction_def None using False by simp
      show ?thesis unfolding w c check_duplicates_iff list_ex_not by (auto simp: not_le not_less)
    qed
  qed
qed

section \<open>Properties\<close>

text \<open>
  C37: \<^verbatim>\<open>CheckTransaction\<close> accepts, without touching the state, exactly the transactions that have inputs and
  outputs, are not too large, whose outputs and their exact, not wrapped, total are in the money
  range, whose inputs are distinct and, unless the transaction is a coinbase, not null, and whose
  coinbase script has an allowed length; in every other case the state becomes invalid with a reason.
\<close>

theorem CheckTransaction_iff:
  assumes "m_mode state = M_VALID"
  shows "if tx_well_formed L tx then CheckTransaction L tx state = (True, state)
    else fst (CheckTransaction L tx state) = False \<and> state_IsInvalid (snd (CheckTransaction L tx state)) \<and>
      m_result (snd (CheckTransaction L tx state)) = TX_CONSENSUS"
  using CheckTransaction_cases [of L tx state] assms by (auto simp: state_Invalid_def state_IsInvalid_def split: if_splits)

text \<open>An example library: a null prevout has index 2 to the 32 minus 1, and sizes are small.\<close>

definition sample_GetValueOut :: "CTx \<Rightarrow> CAmount result" where
  "sample_GetValueOut tx = (case check_vout (vout tx) 0 of None \<Rightarrow> Inr (\<Sum>x\<leftarrow>vout tx. nValue x) | Some e \<Rightarrow> Inl (Thrown e))"

definition sample_lib :: tx_lib where
  "sample_lib = \<lparr>
     lib_IsCoinBase = (\<lambda>tx. length (vin tx) = 1 \<and> snd (prevout (hd (vin tx))) = 4294967295 \<and> fst (prevout (hd (vin tx))) = null_hash),
     lib_prevout_IsNull = (\<lambda>k. snd k = 4294967295 \<and> fst k = null_hash), lib_NoWitnessSize = (\<lambda>tx. 100),
     lib_GetValueOut = sample_GetValueOut,
     lib_GetSigOpCount = (\<lambda>s acc. of_nat (length (filter (\<lambda>b. b = 0xac) s))), lib_GetSigOpCount_P2SH = (\<lambda>s sig. 1),
     lib_IsPayToScriptHash = (\<lambda>s. length s = 23), lib_CountWitnessSigOps = (\<lambda>sig pk w fl. 0), lib_SCRIPT_VERIFY_P2SH = 1,
     lib_LOCKTIME_THRESHOLD = 500000000, lib_SEQUENCE_FINAL = 0xffffffff,
     lib_SEQUENCE_LOCKTIME_DISABLE_FLAG = 0x80000000, lib_SEQUENCE_LOCKTIME_TYPE_FLAG = 0x400000,
     lib_SEQUENCE_LOCKTIME_MASK = 0xffff, lib_SEQUENCE_LOCKTIME_GRANULARITY = 9, lib_strprintf = (\<lambda>f xs. f)\<rparr>"

definition sample_tx :: CTx where
  "sample_tx = \<lparr>tx_hash = sample_hash 3, tx_nVersion = 2,
     vin = [\<lparr>prevout = (sample_hash 1, 0), scriptSig = [0x51], nSequence = 0, scriptWitness = []\<rparr>],
     vout = [\<lparr>nValue = 20, scriptPubKey = [0x51]\<rparr>, \<lparr>nValue = 25, scriptPubKey = [0x52]\<rparr>], tx_nLockTime = 0\<rparr>"

definition state_new :: TxValidationState where
  "state_new = \<lparr>m_mode = M_VALID, m_result = TX_RESULT_UNSET, m_reject_reason = '''', m_debug_message = ''''\<rparr>"

lemma sample_tx_well_formed: "tx_well_formed sample_lib sample_tx"
  by (simp add: tx_well_formed_def sample_tx_def sample_lib_def MoneyRange_def MAX_MONEY_def COIN_def sample_hash_def word_less_nat_alt)

theorem CheckTransaction_iff_witness: "CheckTransaction sample_lib sample_tx state_new = (True, state_new)"
  using CheckTransaction_iff [of state_new sample_lib sample_tx] sample_tx_well_formed by (simp add: state_new_def)

end
