(* ===== verification/Tx_Verify.thy ===== *)
theory Tx_Verify
  imports Tx_Rules
begin

text \<open>
  The contextual transaction rules of \<^verbatim>\<open>consensus/tx_verify.cpp\<close>: finality, relative lock times, the
  signature operation count, and the check of the inputs against the coins cache.
\<close>

section \<open>Lock times\<close>

definition IsFinalTx :: "tx_lib \<Rightarrow> CTx \<Rightarrow> int \<Rightarrow> int \<Rightarrow> bool" where
  "IsFinalTx L tx nBlockHeight nBlockTime =
     (if tx_nLockTime tx = 0 then True
      else if uint (tx_nLockTime tx) < (if uint (tx_nLockTime tx) < uint (lib_LOCKTIME_THRESHOLD L) then nBlockHeight else nBlockTime)
      then True
      else list_all (\<lambda>txin. nSequence txin = lib_SEQUENCE_FINAL L) (vin tx))"

text \<open>The loop over the inputs and the heights of their coins, which it may set to zero.\<close>

fun sequence_loop ::
  "tx_lib \<Rightarrow> block_store \<Rightarrow> addr \<Rightarrow> CTxIn list \<Rightarrow> int list \<Rightarrow> int \<Rightarrow> int \<Rightarrow> ((int \<times> int) \<times> int list) result" where
  "sequence_loop L st block (txin # txins) (nCoinHeight # prevHeights) nMinHeight nMinTime =
     (if nSequence txin AND lib_SEQUENCE_LOCKTIME_DISABLE_FLAG L \<noteq> 0 then
        rbind (sequence_loop L st block txins prevHeights nMinHeight nMinTime) (\<lambda>(r, hs). Inr (r, 0 # hs))
      else if nSequence txin AND lib_SEQUENCE_LOCKTIME_TYPE_FLAG L \<noteq> 0 then
        rbind (GetAncestor st block (max (nCoinHeight - 1) 0)) (\<lambda>a.
        case a of
          None \<Rightarrow> Inl Assert_failed
        | Some a \<Rightarrow>
            rbind (GetMedianTimePast st a) (\<lambda>nCoinTime.
            rbind (sequence_loop L st block txins prevHeights nMinHeight
                (max nMinTime (nCoinTime + uint (push_bit (lib_SEQUENCE_LOCKTIME_GRANULARITY L)
                  (nSequence txin AND lib_SEQUENCE_LOCKTIME_MASK L)) - 1)))
              (\<lambda>(r, hs). Inr (r, nCoinHeight # hs))))
      else
        rbind (sequence_loop L st block txins prevHeights
            (max nMinHeight (nCoinHeight + uint (nSequence txin AND lib_SEQUENCE_LOCKTIME_MASK L) - 1)) nMinTime)
          (\<lambda>(r, hs). Inr (r, nCoinHeight # hs)))"
| "sequence_loop L st block _ prevHeights nMinHeight nMinTime = Inr ((nMinHeight, nMinTime), prevHeights)"

definition CalculateSequenceLocks ::
  "tx_lib \<Rightarrow> block_store \<Rightarrow> CTx \<Rightarrow> u32 \<Rightarrow> int list \<Rightarrow> addr \<Rightarrow> ((int \<times> int) \<times> int list) result" where
  "CalculateSequenceLocks L st tx flgs prevHeights block =
     (if length prevHeights \<noteq> length (vin tx) then Inl Assert_failed
      else if \<not> (tx_nVersion tx \<ge> 2 \<and> flgs AND LOCKTIME_VERIFY_SEQUENCE \<noteq> 0) then Inr ((-1, -1), prevHeights)
      else sequence_loop L st block (vin tx) prevHeights (-1) (-1))"

definition EvaluateSequenceLocks :: "block_store \<Rightarrow> addr \<Rightarrow> int \<times> int \<Rightarrow> bool result" where
  "EvaluateSequenceLocks st block lockPair =
     rbind (deref st block) (\<lambda>b.
       case pprev b of
         None \<Rightarrow> Inl Assert_failed
       | Some p \<Rightarrow>
           rbind (GetMedianTimePast st p) (\<lambda>nBlockTime.
             Inr (if fst lockPair \<ge> nHeight b \<or> snd lockPair \<ge> nBlockTime then False else True)))"

definition SequenceLocks :: "tx_lib \<Rightarrow> block_store \<Rightarrow> CTx \<Rightarrow> u32 \<Rightarrow> int list \<Rightarrow> addr \<Rightarrow> bool result" where
  "SequenceLocks L st tx flgs prevHeights block =
     rbind (CalculateSequenceLocks L st tx flgs prevHeights block) (\<lambda>(lockPair, _).
       EvaluateSequenceLocks st block lockPair)"

section \<open>Signature operations\<close>

definition GetLegacySigOpCount :: "tx_lib \<Rightarrow> CTx \<Rightarrow> u32" where
  "GetLegacySigOpCount L tx =
     foldl (\<lambda>nSigOps txout. nSigOps + lib_GetSigOpCount L (scriptPubKey txout) False)
       (foldl (\<lambda>nSigOps txin. nSigOps + lib_GetSigOpCount L (scriptSig txin) False) 0 (vin tx)) (vout tx)"

primrec p2sh_loop ::
  "tx_lib \<Rightarrow> CTxOut txout_ops \<Rightarrow> ('b, CTxOut) coins_view_ops \<Rightarrow> CTxIn list \<Rightarrow> u32 \<Rightarrow> ('b, CTxOut) CCoinsViewCache \<Rightarrow>
   ('b, CTxOut) CCoinsViewCache \<times> u32 result" where
  "p2sh_loop L T V [] nSigOps c = (c, Inr nSigOps)"
| "p2sh_loop L T V (txin # txins) nSigOps c =
     (let (x, c) = AccessCoin T V c (prevout txin)
      in if IsSpent T x then (c, Inl Assert_failed)
         else p2sh_loop L T V txins
           (if lib_IsPayToScriptHash L (scriptPubKey (coin_out x))
            then nSigOps + lib_GetSigOpCount_P2SH L (scriptPubKey (coin_out x)) (scriptSig txin) else nSigOps) c)"

definition GetP2SHSigOpCount ::
  "tx_lib \<Rightarrow> CTxOut txout_ops \<Rightarrow> ('b, CTxOut) coins_view_ops \<Rightarrow> CTx \<Rightarrow> ('b, CTxOut) CCoinsViewCache \<Rightarrow>
   ('b, CTxOut) CCoinsViewCache \<times> u32 result" where
  "GetP2SHSigOpCount L T V tx c = (if lib_IsCoinBase L tx then (c, Inr 0) else p2sh_loop L T V (vin tx) 0 c)"

primrec witness_loop ::
  "tx_lib \<Rightarrow> CTxOut txout_ops \<Rightarrow> ('b, CTxOut) coins_view_ops \<Rightarrow> u32 \<Rightarrow> CTxIn list \<Rightarrow> u64 \<Rightarrow> ('b, CTxOut) CCoinsViewCache \<Rightarrow>
   ('b, CTxOut) CCoinsViewCache \<times> u64 result" where
  "witness_loop L T V flgs [] nSigOps c = (c, Inr nSigOps)"
| "witness_loop L T V flgs (txin # txins) nSigOps c =
     (let (x, c) = AccessCoin T V c (prevout txin)
      in if IsSpent T x then (c, Inl Assert_failed)
         else witness_loop L T V flgs txins
           (nSigOps + lib_CountWitnessSigOps L (scriptSig txin) (scriptPubKey (coin_out x)) (scriptWitness txin) flgs) c)"

text \<open>The counts are 32-bit; they are multiplied at that width before they are widened.\<close>

definition GetTransactionSigOpCost ::
  "tx_lib \<Rightarrow> CTxOut txout_ops \<Rightarrow> ('b, CTxOut) coins_view_ops \<Rightarrow> CTx \<Rightarrow> u32 \<Rightarrow> ('b, CTxOut) CCoinsViewCache \<Rightarrow>
   ('b, CTxOut) CCoinsViewCache \<times> u64 result" where
  "GetTransactionSigOpCost L T V tx flgs c =
     (let nSigOps = ucast (GetLegacySigOpCount L tx * of_nat WITNESS_SCALE_FACTOR)
      in if lib_IsCoinBase L tx then (c, Inr nSigOps)
         else
           let (c, p2sh) = (if flgs AND lib_SCRIPT_VERIFY_P2SH L \<noteq> 0 then GetP2SHSigOpCount L T V tx c else (c, Inr 0))
           in case p2sh of
                Inl e \<Rightarrow> (c, Inl e)
              | Inr n \<Rightarrow> witness_loop L T V flgs (vin tx) (nSigOps + ucast (n * of_nat WITNESS_SCALE_FACTOR)) c)"

section \<open>Inputs\<close>

text \<open>The loop ends with the sum of the inputs, or with the state it has made invalid.\<close>

primrec inputs_loop ::
  "tx_lib \<Rightarrow> CTxOut txout_ops \<Rightarrow> ('b, CTxOut) coins_view_ops \<Rightarrow> int \<Rightarrow> TxValidationState \<Rightarrow> CTxIn list \<Rightarrow> CAmount \<Rightarrow>
   ('b, CTxOut) CCoinsViewCache \<Rightarrow> ('b, CTxOut) CCoinsViewCache \<times> (TxValidationState + CAmount) result" where
  "inputs_loop L T V nSpendHeight state [] nValueIn c = (c, Inr (Inr nValueIn))"
| "inputs_loop L T V nSpendHeight state (txin # txins) nValueIn c =
     (let (x, c) = AccessCoin T V c (prevout txin)
      in if IsSpent T x then (c, Inl Assert_failed)
         else if fCoinBase x \<and> nSpendHeight - uint (coin_nHeight x) < COINBASE_MATURITY
         then (c, Inr (Inl (snd (state_Invalid state TX_PREMATURE_SPEND ''bad-txns-premature-spend-of-coinbase''
             (lib_strprintf L ''tried to spend coinbase at depth %d'' [nSpendHeight - uint (coin_nHeight x)])))))
         else
           let nValueIn = nValueIn + nValue (coin_out x)
           in if \<not> MoneyRange (nValue (coin_out x)) \<or> \<not> MoneyRange nValueIn
              then (c, Inr (Inl (snd (state_Invalid state TX_CONSENSUS ''bad-txns-inputvalues-outofrange'' ''''))))
              else inputs_loop L T V nSpendHeight state txins nValueIn c)"

text \<open>The result is the fee if the inputs are accepted, with the state.\<close>

definition CheckTxInputs ::
  "tx_lib \<Rightarrow> CTxOut txout_ops \<Rightarrow> ('b, CTxOut) coins_view_ops \<Rightarrow> CTx \<Rightarrow> TxValidationState \<Rightarrow>
   ('b, CTxOut) CCoinsViewCache \<Rightarrow> int \<Rightarrow>
   ('b, CTxOut) CCoinsViewCache \<times> (CAmount option \<times> TxValidationState) result" where
  "CheckTxInputs L T V tx state c nSpendHeight =
     (case HaveInputs T V c (coins_tx L tx) of
        (have_inputs, c) \<Rightarrow>
          if \<not> have_inputs
          then (c, Inr (None, snd (state_Invalid state TX_MISSING_INPUTS ''bad-txns-inputs-missingorspent''
                 (lib_strprintf L ''%s: inputs missing/spent'' []))))
          else case inputs_loop L T V nSpendHeight state (vin tx) 0 c of
            (c, Inl e) \<Rightarrow> (c, Inl e)
          | (c, Inr (Inl state)) \<Rightarrow> (c, Inr (None, state))
          | (c, Inr (Inr nValueIn)) \<Rightarrow>
              (case lib_GetValueOut L tx of
                 Inl e \<Rightarrow> (c, Inl e)
               | Inr value_out \<Rightarrow>
                   if sint nValueIn < sint value_out
                   then (c, Inr (None, snd (state_Invalid state TX_CONSENSUS ''bad-txns-in-belowout''
                          (lib_strprintf L ''value in (%s) < value out (%s)'' [sint nValueIn, sint value_out]))))
                   else
                     let txfee_aux = nValueIn - value_out
                     in if \<not> MoneyRange txfee_aux
                        then (c, Inr (None, snd (state_Invalid state TX_CONSENSUS ''bad-txns-fee-outofrange'' '''')))
                        else (c, Inr (Some txfee_aux, state))))"

section \<open>Relative lock times\<close>

text \<open>When the inputs allow the transaction in a block: each lock is satisfied at its own scale.\<close>

definition lock_satisfied :: "tx_lib \<Rightarrow> block_store \<Rightarrow> addr \<Rightarrow> int \<Rightarrow> int \<Rightarrow> CTxIn \<times> int \<Rightarrow> bool" where
  "lock_satisfied L st block height tm = (\<lambda>(txin, nCoinHeight).
     nSequence txin AND lib_SEQUENCE_LOCKTIME_DISABLE_FLAG L \<noteq> 0 \<or>
     (if nSequence txin AND lib_SEQUENCE_LOCKTIME_TYPE_FLAG L \<noteq> 0
      then (case ancestor st block (max (nCoinHeight - 1) 0) of
              None \<Rightarrow> False
            | Some a \<Rightarrow> median_upper (recent_times st 11 (Some a)) +
                uint (push_bit (lib_SEQUENCE_LOCKTIME_GRANULARITY L) (nSequence txin AND lib_SEQUENCE_LOCKTIME_MASK L)) \<le> tm)
      else nCoinHeight + uint (nSequence txin AND lib_SEQUENCE_LOCKTIME_MASK L) \<le> height))"

lemma sequence_loop_spec:
  assumes "wf_index st" "st block = Some b" "0 \<le> nHeight b"
  shows "list_all (\<lambda>h. h \<le> nHeight b + 1) hs \<Longrightarrow> length hs = length txins \<Longrightarrow>
    \<exists>h t hs'. sequence_loop L st block txins hs mh mt = Inr ((h, t), hs') \<and>
      (h < height \<and> t < tm \<longleftrightarrow> mh < height \<and> mt < tm \<and> list_all (lock_satisfied L st block height tm) (zip txins hs))"
proof (induction txins arbitrary: hs mh mt)
  case Nil
  thus ?case by simp
next
  case (Cons txin txins)
  then obtain ch hs' where hs: "hs = ch # hs'" "ch \<le> nHeight b + 1" "list_all (\<lambda>h. h \<le> nHeight b + 1) hs'"
    "length hs' = length txins" by (cases hs) auto
  note IH = Cons.IH [OF hs(3,4)]
  let ?d = "nSequence txin AND lib_SEQUENCE_LOCKTIME_DISABLE_FLAG L \<noteq> 0"
  let ?ty = "nSequence txin AND lib_SEQUENCE_LOCKTIME_TYPE_FLAG L \<noteq> 0"
  consider "?d" | "\<not> ?d" "?ty" | "\<not> ?d" "\<not> ?ty" by blast
  thus ?case
  proof cases
    case 1
    thus ?thesis using IH [of mh mt] by (auto simp: hs(1) lock_satisfied_def)
  next
    case 2
    have "0 \<le> max (ch - 1) 0" "max (ch - 1) 0 \<le> nHeight b" using hs(2) assms(3) by auto
    then obtain a ab where a: "ancestor st block (max (ch - 1) 0) = Some a" "st a = Some ab"
      using ancestor_Some [OF assms(1,2)] by metis
    let ?x = "uint (push_bit (lib_SEQUENCE_LOCKTIME_GRANULARITY L) (nSequence txin AND lib_SEQUENCE_LOCKTIME_MASK L))"
    let ?m = "median_upper (recent_times st 11 (Some a))"
    obtain h t r where r: "sequence_loop L st block txins hs' mh (max mt (?m + ?x - 1)) = Inr ((h, t), r)"
      "h < height \<and> t < tm \<longleftrightarrow> mh < height \<and> max mt (?m + ?x - 1) < tm \<and> list_all (lock_satisfied L st block height tm) (zip txins hs')"
      using IH [of mh "max mt (?m + ?x - 1)"] by blast
    have "lock_satisfied L st block height tm (txin, ch) \<longleftrightarrow> ?m + ?x - 1 < tm"
      using 2 a by (auto simp: lock_satisfied_def)
    moreover have "sequence_loop L st block (txin # txins) hs mh mt = Inr ((h, t), ch # r)"
      using 2 r(1) by (simp add: hs(1) GetAncestor_ancestor [OF assms(1,2)] a GetMedianTimePast_eq [OF assms(1) a(2)])
    ultimately show ?thesis using r(2) by (auto simp: hs(1))
  next
    case 3
    let ?x = "uint (nSequence txin AND lib_SEQUENCE_LOCKTIME_MASK L)"
    obtain h t r where r: "sequence_loop L st block txins hs' (max mh (ch + ?x - 1)) mt = Inr ((h, t), r)"
      "h < height \<and> t < tm \<longleftrightarrow> max mh (ch + ?x - 1) < height \<and> mt < tm \<and> list_all (lock_satisfied L st block height tm) (zip txins hs')"
      using IH [of "max mh (ch + ?x - 1)" mt] by blast
    have "lock_satisfied L st block height tm (txin, ch) \<longleftrightarrow> ch + ?x - 1 < height"
      using 3 by (auto simp: lock_satisfied_def)
    moreover have "sequence_loop L st block (txin # txins) hs mh mt = Inr ((h, t), ch # r)"
      using 3 r(1) by (simp add: hs(1))
    ultimately show ?thesis using r(2) by (auto simp: hs(1))
  qed
qed

lemma recent_times_nonneg: "t \<in> set (recent_times st n p) \<Longrightarrow> 0 \<le> t"
  by (induction n arbitrary: p) (auto simp: GetBlockTime_def split: option.splits)

lemma median_upper_nonneg:
  assumes "ts \<noteq> []" "\<And>t. t \<in> set ts \<Longrightarrow> 0 \<le> t"
  shows "0 \<le> median_upper ts"
proof -
  have "length ts div 2 < length (sort ts)" using assms(1) by (simp add: div_less_dividend)
  hence "sort ts ! (length ts div 2) \<in> set (sort ts)" by (rule nth_mem)
  thus ?thesis using assms(2) by (simp add: median_upper_def)
qed

section \<open>Inputs and fees\<close>

text \<open>The coins a transaction spends, in a set of coins.\<close>

definition spent_coins :: "(outpoint \<Rightarrow> CTxOut Coin option) \<Rightarrow> CTx \<Rightarrow> CTxOut Coin option list" where
  "spent_coins U tx = map (\<lambda>txin. U (prevout txin)) (vin tx)"

definition coin_value :: "CTxOut Coin option \<Rightarrow> int" where
  "coin_value m = (case m of None \<Rightarrow> 0 | Some x \<Rightarrow> sint (nValue (coin_out x)))"

definition input_sum :: "(outpoint \<Rightarrow> CTxOut Coin option) \<Rightarrow> CTx \<Rightarrow> int" where
  "input_sum U tx = (\<Sum>m\<leftarrow>spent_coins U tx. coin_value m)"

definition coin_spendable :: "int \<Rightarrow> CTxOut Coin option \<Rightarrow> bool" where
  "coin_spendable h m \<longleftrightarrow> (case m of None \<Rightarrow> False
     | Some x \<Rightarrow> (fCoinBase x \<longrightarrow> uint (coin_nHeight x) + 100 \<le> h) \<and> MoneyRange (nValue (coin_out x)))"

definition inputs_acceptable :: "(outpoint \<Rightarrow> CTxOut Coin option) \<Rightarrow> CTx \<Rightarrow> int \<Rightarrow> bool" where
  "inputs_acceptable U tx h \<longleftrightarrow> list_all (coin_spendable h) (spent_coins U tx) \<and> input_sum U tx \<le> MAX_MONEY \<and>
     value_sum (vout tx) \<le> input_sum U tx"

text \<open>What the library promises of \<^verbatim>\<open>GetValueOut\<close>: the sum, for outputs in range.\<close>

definition value_out_ok :: "tx_lib \<Rightarrow> bool" where
  "value_out_ok L \<longleftrightarrow> (\<forall>tx. list_all (\<lambda>x. MoneyRange (nValue x)) (vout tx) \<longrightarrow> value_sum (vout tx) \<le> MAX_MONEY \<longrightarrow>
     (\<exists>v. lib_GetValueOut L tx = Inr v \<and> sint v = value_sum (vout tx)))"

locale tx_view = coins_view T V utxo ok
  for T :: "CTxOut txout_ops" and V :: "('b, CTxOut) coins_view_ops" and utxo and ok
begin

lemma AccessCoin_spec:
  assumes "txout_ok T" "cinv c" "AccessCoin T V c k = (x, c')"
  shows "cinv c' \<and> cview c' = cview c \<and> unspent_only T (Some x) = cview c k"
proof -
  obtain e c1 where f: "FetchCoin T V c k = (e, c1)" by fastforce
  from FetchCoin_spec [OF assms(2) f] assms(1,3) f show ?thesis
    by (auto simp: AccessCoin_def unspent_only_def entry_value_def split: option.splits)
qed

lemma inputs_loop_spec:
  assumes "txout_ok T"
  shows "cinv c \<Longrightarrow> MoneyRange v \<Longrightarrow> list_all (\<lambda>txin. cview c (prevout txin) \<noteq> None) txins \<Longrightarrow>
    \<exists>c' r. inputs_loop L T V h state txins v c = (c', Inr r) \<and> cinv c' \<and> cview c' = cview c \<and>
      (if list_all (coin_spendable h) (map (\<lambda>txin. cview c (prevout txin)) txins) \<and>
          sint v + (\<Sum>m\<leftarrow>map (\<lambda>txin. cview c (prevout txin)) txins. coin_value m) \<le> MAX_MONEY
       then \<exists>w. r = Inr w \<and> MoneyRange w \<and> sint w = sint v + (\<Sum>m\<leftarrow>map (\<lambda>txin. cview c (prevout txin)) txins. coin_value m)
       else \<exists>s. r = Inl s)"
proof (induction txins arbitrary: v c)
  case Nil
  thus ?case by (simp add: MoneyRange_def)
next
  case (Cons txin txins)
  obtain x c1 where a: "AccessCoin T V c (prevout txin) = (x, c1)" by fastforce
  note A = AccessCoin_spec [OF assms Cons.prems(1) a]
  have ns: "\<not> IsSpent T x" and cx: "cview c (prevout txin) = Some x"
    using A Cons.prems(3) by (auto simp: unspent_only_def split: if_splits)
  let ?w = "v + nValue (coin_out x)"
  have nn: "list_all (coin_spendable h) ms \<Longrightarrow> 0 \<le> (\<Sum>m\<leftarrow>ms. coin_value m)" for ms
    by (induction ms) (auto simp: coin_spendable_def coin_value_def MoneyRange_def split: option.splits)
  show ?case
  proof (cases "coin_spendable h (Some x) \<and> MoneyRange ?w")
    case True
    hence m: "MoneyRange (nValue (coin_out x))" "\<not> (fCoinBase x \<and> h - uint (coin_nHeight x) < COINBASE_MATURITY)"
      by (auto simp: coin_spendable_def COINBASE_MATURITY_def)
    have l: "inputs_loop L T V h state (txin # txins) v c = inputs_loop L T V h state txins ?w c1"
      using a ns m True by (auto simp: Let_def)
    have s: "sint ?w = sint v + coin_value (Some x)" using MoneyRange_add [OF Cons.prems(2) m(1)] by (simp add: coin_value_def)
    have "list_all (\<lambda>txin. cview c1 (prevout txin) \<noteq> None) txins" using A Cons.prems(3) by simp
    define ms where "ms = map (\<lambda>txin. cview c (prevout txin)) txins"
    from Cons.IH [of c1 ?w, OF _ _ \<open>list_all _ txins\<close>] A True obtain c' r where
      i: "inputs_loop L T V h state txins ?w c1 = (c', Inr r)" "cinv c'" "cview c' = cview c"
        "if list_all (coin_spendable h) ms \<and> sint ?w + sum_list (map coin_value ms) \<le> MAX_MONEY
         then \<exists>w. r = Inr w \<and> MoneyRange w \<and> sint w = sint ?w + sum_list (map coin_value ms) else \<exists>s. r = Inl s"
      unfolding ms_def by metis
    have ms: "map (\<lambda>txin. cview c (prevout txin)) (txin # txins) = Some x # ms" by (simp add: cx ms_def)
    show ?thesis
      unfolding l ms using i True s by (intro exI [of _ c'] exI [of _ r]) (auto simp: add.assoc)
  next
    case False
    have "\<not> (coin_spendable h (Some x) \<and> sint v + coin_value (Some x) \<le> MAX_MONEY)"
      using False MoneyRange_add [OF Cons.prems(2), of "nValue (coin_out x)"] Cons.prems(2)
      by (auto simp: coin_spendable_def coin_value_def MoneyRange_def)
    hence n: "\<not> (list_all (coin_spendable h) (map (\<lambda>txin. cview c (prevout txin)) (txin # txins)) \<and>
        sint v + (\<Sum>m\<leftarrow>map (\<lambda>txin. cview c (prevout txin)) (txin # txins). coin_value m) \<le> MAX_MONEY)"
      using nn [of "map (\<lambda>txin. cview c (prevout txin)) txins"] by (auto simp: cx)
    have "\<exists>s. inputs_loop L T V h state (txin # txins) v c = (c1, Inr (Inl s))"
      using a ns False by (auto simp: Let_def coin_spendable_def COINBASE_MATURITY_def)
    thus ?thesis unfolding if_not_P [OF n] using A by blast
  qed
qed

lemma CheckTxInputs_spec:
  assumes "txout_ok T" "cinv c" "value_out_ok L" "tx_well_formed L tx" "\<not> lib_IsCoinBase L tx"
  shows "\<exists>c' r s. CheckTxInputs L T V tx state c h = (c', Inr (r, s)) \<and> cinv c' \<and> cview c' = cview c \<and>
    (case r of Some fee \<Rightarrow> inputs_acceptable (cview c) tx h \<and> s = state \<and>
        sint fee = input_sum (cview c) tx - value_sum (vout tx)
     | None \<Rightarrow> \<not> inputs_acceptable (cview c) tx h)"
proof -
  obtain i c1 where hi: "HaveInputs_loop T V (map prevout (vin tx)) c = (i, c1)" by fastforce
  note H = HaveInputs_loop_spec [OF assms(2) hi]
  have hh: "HaveInputs T V c (coins_tx L tx) = (i, c1)" using hi assms(5) by (simp add: HaveInputs_def coins_tx_def)
  show ?thesis
  proof (cases i)
    case False
    then obtain txin where "txin \<in> set (vin tx)" "cview c (prevout txin) = None" using H by auto
    hence "None \<in> set (spent_coins (cview c) tx)" by (force simp: spent_coins_def)
    moreover have "\<not> coin_spendable h None" by (simp add: coin_spendable_def)
    ultimately have "\<not> inputs_acceptable (cview c) tx h"
      unfolding inputs_acceptable_def list_all_iff by blast
    thus ?thesis using False H by (simp add: CheckTxInputs_def hh)
  next
    case True
    hence p: "list_all (\<lambda>txin. cview c1 (prevout txin) \<noteq> None) (vin tx)" using H by (auto simp: list_all_iff)
    have z: "MoneyRange 0" using MAX_MONEY_bounds by (simp add: MoneyRange_def)
    have S: "map (\<lambda>txin. cview c1 (prevout txin)) (vin tx) = spent_coins (cview c) tx"
      "sint (0 :: CAmount) + sum_list (map coin_value (spent_coins (cview c) tx)) = input_sum (cview c) tx"
      using H by (simp_all add: spent_coins_def input_sum_def)
    have "cinv c1" "cview c1 = cview c" using H by simp_all
    from inputs_loop_spec [OF assms(1) this(1) z p, of L h state, unfolded S] this(2) obtain c2 r where
      l: "inputs_loop L T V h state (vin tx) 0 c1 = (c2, Inr r)" "cinv c2" "cview c2 = cview c"
        "if list_all (coin_spendable h) (spent_coins (cview c) tx) \<and> input_sum (cview c) tx \<le> MAX_MONEY
         then \<exists>w. r = Inr w \<and> MoneyRange w \<and> sint w = input_sum (cview c) tx else \<exists>s. r = Inl s"
      by metis
    show ?thesis
    proof (cases "list_all (coin_spendable h) (spent_coins (cview c) tx) \<and> input_sum (cview c) tx \<le> MAX_MONEY")
      case False
      then obtain s where "r = Inl s" using l(4) by auto
      moreover have "\<not> inputs_acceptable (cview c) tx h" using False by (auto simp: inputs_acceptable_def)
      ultimately show ?thesis using True l by (simp add: CheckTxInputs_def hh)
    next
      case acc: True
      then obtain w where w: "r = Inr w" "MoneyRange w" "sint w = input_sum (cview c) tx" using l(4) by auto
      obtain v where v: "lib_GetValueOut L tx = Inr v" "sint v = value_sum (vout tx)"
        using assms(3,4) unfolding value_out_ok_def tx_well_formed_def by blast
      have nn: "0 \<le> value_sum (vout tx)" using assms(4) by (simp add: tx_well_formed_def value_sum_nonneg)
      show ?thesis
      proof (cases "sint w < sint v")
        case True
        hence "\<not> inputs_acceptable (cview c) tx h" using w(3) v(2) by (simp add: inputs_acceptable_def)
        thus ?thesis using True \<open>i\<close> l w v by (simp add: CheckTxInputs_def hh)
      next
        case False
        have r: "0 \<le> sint w - sint v" "sint w - sint v \<le> MAX_MONEY" "sint w - sint v < 2 ^ 63"
          using False nn v(2) w(2) MAX_MONEY_bounds by (auto simp: MoneyRange_def)
        hence f: "sint (w - v) = sint w - sint v"
          by (simp add: sint_word_ariths(2) signed_take_bit_int_eq_self)
        hence "MoneyRange (w - v)" using r by (simp add: MoneyRange_def)
        moreover have "inputs_acceptable (cview c) tx h" using acc False w(3) v(2) by (simp add: inputs_acceptable_def)
        ultimately show ?thesis using False \<open>i\<close> l w v f by (simp add: CheckTxInputs_def hh Let_def)
      qed
    qed
  qed
qed

end

interpretation tx_db: tx_view T "CCoinsViewDB T est lim" db_coin "db_ok T"
  for T est lim
  by (rule tx_view.intro) (rule coins_database.coins_view_axioms)

interpretation tx_tip: tx_view T "cache_view T (CCoinsViewDB T est lim)" "cache_utxo T db_coin" "cache_ok T db_coin (db_ok T)"
  for T est lim
  by (rule tx_view.intro) (rule coins_tip.coins_view_axioms)

section \<open>Properties\<close>

lemma SequenceLocks_value:
  assumes "wf_index st" "st block = Some b" "pprev b = Some p" "st p = Some pb"
    "length prevHeights = length (vin tx)" "list_all (\<lambda>h. h \<le> nHeight b + 1) prevHeights"
  shows "SequenceLocks L st tx flgs prevHeights block =
    Inr (\<not> (tx_nVersion tx \<ge> 2 \<and> flgs AND LOCKTIME_VERIFY_SEQUENCE \<noteq> 0) \<or>
      list_all (lock_satisfied L st block (nHeight b) (median_upper (recent_times st 11 (Some p)))) (zip (vin tx) prevHeights))"
proof -
  let ?tm = "median_upper (recent_times st 11 (Some p))"
  have nn: "0 \<le> nHeight b" using wf_index_linked [OF assms(1,2)] by (rule linked_nonneg)
  have "recent_times st 11 (Some p) \<noteq> []" using assms(4) by (simp add: eval_nat_numeral)
  hence tn: "0 \<le> ?tm" using recent_times_nonneg by (rule median_upper_nonneg)
  have e: "EvaluateSequenceLocks st block lp = Inr (fst lp < nHeight b \<and> snd lp < ?tm)" for lp
    using assms(2-4) GetMedianTimePast_eq [OF assms(1,4)] by (auto simp: EvaluateSequenceLocks_def deref_def)
  show ?thesis
  proof (cases "tx_nVersion tx \<ge> 2 \<and> flgs AND LOCKTIME_VERIFY_SEQUENCE \<noteq> 0")
    case False
    thus ?thesis using assms(5) nn tn e by (simp add: SequenceLocks_def CalculateSequenceLocks_def)
  next
    case True
    from sequence_loop_spec [OF assms(1,2) nn assms(6,5), of L "-1" "-1" "nHeight b" ?tm] obtain h t hs where
      "sequence_loop L st block (vin tx) prevHeights (-1) (-1) = Inr ((h, t), hs)"
      "h < nHeight b \<and> t < ?tm \<longleftrightarrow> list_all (lock_satisfied L st block (nHeight b) ?tm) (zip (vin tx) prevHeights)"
      using nn tn by auto
    thus ?thesis using True assms(5) e by (simp add: SequenceLocks_def CalculateSequenceLocks_def)
  qed
qed

text \<open>
  C36: in a well-formed index \<^verbatim>\<open>SequenceLocks\<close> returns, for a transaction that opts in, whether every input
  that is not exempt is old enough at its own scale: in blocks, or in time measured from the median
  time before its coin; otherwise it returns true.
\<close>

theorem SequenceLocks_exact:
  assumes "wf_index st" "st block = Some b" "pprev b = Some p" "st p = Some pb"
    "length prevHeights = length (vin tx)" "list_all (\<lambda>h. h \<le> nHeight b + 1) prevHeights"
  shows "SequenceLocks L st tx flgs prevHeights block =
    Inr (\<not> (tx_nVersion tx \<ge> 2 \<and> flgs AND LOCKTIME_VERIFY_SEQUENCE \<noteq> 0) \<or>
      list_all (lock_satisfied L st block (nHeight b) (median_upper (recent_times st 11 (Some p)))) (zip (vin tx) prevHeights))"
  by (rule SequenceLocks_value [OF assms])

theorem SequenceLocks_exact_witness:
  "SequenceLocks sample_lib (store_of small_index) sample_tx 1 [1] 4 = Inr True"
proof -
  have "store_of small_index 4 = Some (entry (Some 3) (Some 0) 4 350)" "store_of small_index 3 = Some (entry (Some 2) (Some 1) 3 250)"
    by (simp_all add: store_of_def small_index_def)
  from SequenceLocks_exact [OF wf_small_index this(1) _ this(2), of "[1]" sample_tx sample_lib 1] show ?thesis
    by (simp add: entry_def sample_tx_def sample_lib_def lock_satisfied_def LOCKTIME_VERIFY_SEQUENCE_def)
qed

text \<open>
  C4: on a cache over the database \<^verbatim>\<open>CheckTxInputs\<close> fails no assertion and leaves the represented coins alone;
  it accepts a well-formed transaction exactly when its coins exist, are mature and in range, and pay
  for its outputs, and the fee it returns is the exact difference of the sums.
\<close>

theorem CheckTxInputs_exact:
  assumes "txout_ok T" "cache_ok T db_coin (db_ok T) c" "value_out_ok L" "tx_well_formed L tx" "\<not> lib_IsCoinBase L tx"
  shows "\<exists>c' r s. CheckTxInputs L T (CCoinsViewDB T est lim) tx state c nSpendHeight = (c', Inr (r, s)) \<and>
    cache_ok T db_coin (db_ok T) c' \<and> cache_utxo T db_coin c' = cache_utxo T db_coin c \<and>
    (case r of Some fee \<Rightarrow> inputs_acceptable (cache_utxo T db_coin c) tx nSpendHeight \<and> s = state \<and>
        sint fee = input_sum (cache_utxo T db_coin c) tx - value_sum (vout tx)
     | None \<Rightarrow> \<not> inputs_acceptable (cache_utxo T db_coin c) tx nSpendHeight)"
  by (rule tx_db.CheckTxInputs_spec [OF assms])

text \<open>The example library keeps its promise, and an example store with one coin.\<close>

lemma value_word_sum:
  "list_all (\<lambda>x. MoneyRange (nValue x)) xs \<Longrightarrow> value_sum xs \<le> MAX_MONEY \<Longrightarrow> sint (\<Sum>x\<leftarrow>xs. nValue x) = value_sum xs"
proof (induction xs)
  case (Cons x xs)
  have "0 \<le> value_sum xs" "0 \<le> sint (nValue x)" using Cons.prems by (auto simp: value_sum_nonneg MoneyRange_def)
  moreover from this Cons have "sint (\<Sum>x\<leftarrow>xs. nValue x) = value_sum xs" by simp
  ultimately have "MoneyRange (\<Sum>x\<leftarrow>xs. nValue x)" using Cons.prems by (simp add: MoneyRange_def)
  from MoneyRange_add [OF _ this, of "nValue x"] Cons.prems \<open>sint (\<Sum>x\<leftarrow>xs. nValue x) = value_sum xs\<close> show ?case by simp
qed simp

lemma sample_lib_value_out: "value_out_ok sample_lib"
proof -
  have z: "MoneyRange 0" using MAX_MONEY_bounds by (simp add: MoneyRange_def)
  have "lib_GetValueOut sample_lib tx = Inr (\<Sum>x\<leftarrow>vout tx. nValue x)"
    if "list_all (\<lambda>x. MoneyRange (nValue x)) (vout tx)" "value_sum (vout tx) \<le> MAX_MONEY" for tx
    using that check_vout_iff [OF z, of "vout tx"] by (simp add: sample_lib_def sample_GetValueOut_def)
  thus ?thesis unfolding value_out_ok_def using value_word_sum by blast
qed

definition sample_txouts :: "CTxOut txout_ops" where
  "sample_txouts =
     \<lparr>out_IsNull = (\<lambda>x. nValue x = -1), out_null = \<lparr>nValue = -1, scriptPubKey = []\<rparr>,
      out_IsUnspendable = (\<lambda>x. scriptPubKey x \<noteq> [] \<and> hd (scriptPubKey x) = 0x6a \<or> length (scriptPubKey x) > 10000),
      out_DynamicUsage = (\<lambda>x. of_nat (length (scriptPubKey x)))\<rparr>"

definition sample_spent :: "CTxOut Coin" where
  "sample_spent = make_Coin \<lparr>nValue = 50, scriptPubKey = [0x51]\<rparr> 7 False"

definition sample_coins_db :: "CTxOut coins_db" where
  "sample_coins_db = \<lparr>db_coin = [(sample_hash 1, 0) \<mapsto> sample_spent], db_best_block = Some (sample_hash 9), db_head_blocks = None\<rparr>"

lemma sample_txouts_ok: "txout_ok sample_txouts" "db_ok sample_txouts sample_coins_db"
  by (simp_all add: txout_ok_def sample_txouts_def db_ok_def sample_coins_db_def sample_spent_def make_Coin_def IsSpent_def)

lemma sample_inputs:
  "inputs_acceptable (db_coin sample_coins_db) sample_tx 8" "input_sum (db_coin sample_coins_db) sample_tx = 50"
  "value_sum (vout sample_tx) = 45"
  by (simp_all add: inputs_acceptable_def input_sum_def spent_coins_def coin_spendable_def coin_value_def sample_coins_db_def
      sample_spent_def make_Coin_def sample_tx_def MoneyRange_def MAX_MONEY_def COIN_def)

theorem CheckTxInputs_exact_witness:
  "\<exists>c' fee. CheckTxInputs sample_lib sample_txouts (CCoinsViewDB sample_txouts length 2) sample_tx state_new
      (CCoinsViewCache_new sample_coins_db) 8 = (c', Inr (Some fee, state_new)) \<and> sint fee = 5"
proof -
  let ?c = "CCoinsViewCache_new sample_coins_db"
  have u: "cache_utxo sample_txouts db_coin ?c = db_coin sample_coins_db" by simp
  have "cache_ok sample_txouts db_coin (db_ok sample_txouts) ?c" using sample_txouts_ok by simp
  moreover have "\<not> lib_IsCoinBase sample_lib sample_tx" by (simp add: sample_lib_def sample_tx_def)
  ultimately obtain c' r s where
    "CheckTxInputs sample_lib sample_txouts (CCoinsViewDB sample_txouts length 2) sample_tx state_new ?c 8 = (c', Inr (r, s))"
    "case r of Some fee \<Rightarrow> inputs_acceptable (db_coin sample_coins_db) sample_tx 8 \<and> s = state_new \<and>
        sint fee = input_sum (db_coin sample_coins_db) sample_tx - value_sum (vout sample_tx)
      | None \<Rightarrow> \<not> inputs_acceptable (db_coin sample_coins_db) sample_tx 8"
    using CheckTxInputs_exact [OF sample_txouts_ok(1) _ sample_lib_value_out sample_tx_well_formed, of ?c length 2 state_new 8,
      unfolded u] by blast
  thus ?thesis using sample_inputs by (cases r) auto
qed

end
