(* ===== verification/Chain_Coins.thy ===== *)
theory Chain_Coins
  imports Coins_Run
begin

text \<open>
  How blocks change the coins, from \<^verbatim>\<open>validation.cpp\<close>: \<^verbatim>\<open>UpdateCoins\<close>, which applies a transaction and
  collects undo data, \<^verbatim>\<open>ApplyTxInUndo\<close> and \<^verbatim>\<open>DisconnectBlock\<close>, which take a block back, and
  \<^verbatim>\<open>RollforwardBlock\<close>. Reading blocks and undo data from disk is outside: what is read is an argument.
\<close>

section \<open>Applying transactions\<close>

primrec spend_inputs ::
  "'o txout_ops \<Rightarrow> ('b, 'o) coins_view_ops \<Rightarrow> outpoint list \<Rightarrow> 'o Coin list \<Rightarrow> ('b, 'o) CCoinsViewCache \<Rightarrow>
   ('b, 'o) CCoinsViewCache \<times> 'o Coin list result" where
  "spend_inputs T V [] vprevout c = (c, Inr vprevout)"
| "spend_inputs T V (k # ks) vprevout c =
     (case SpendCoin T V c k of
        ((is_spent, m), c) \<Rightarrow>
          if \<not> is_spent then (c, Inl Assert_failed)
          else spend_inputs T V ks (vprevout @ [case m of Some x \<Rightarrow> x | None \<Rightarrow> coinEmpty T]) c)"

definition UpdateCoins ::
  "'o txout_ops \<Rightarrow> ('b, 'o) coins_view_ops \<Rightarrow> 'o CTransaction \<Rightarrow> ('b, 'o) CCoinsViewCache \<Rightarrow> int \<Rightarrow>
   ('b, 'o) CCoinsViewCache \<times> 'o Coin list result" where
  "UpdateCoins T V tx inputs nHeight =
     (case (if \<not> tx_IsCoinBase tx then spend_inputs T V (tx_prevouts tx) [] inputs else (inputs, Inr [])) of
        (inputs, Inl e) \<Rightarrow> (inputs, Inl e)
      | (inputs, Inr vprevout) \<Rightarrow>
          (case AddCoins T V inputs tx nHeight False of
             (inputs, Inl e) \<Rightarrow> (inputs, Inl e)
           | (inputs, Inr _) \<Rightarrow> (inputs, Inr vprevout)))"

text \<open>The coins part of the loop of \<^verbatim>\<open>ConnectBlock\<close>: undo data is kept for all but the first transaction.\<close>

primrec connect_coins ::
  "'o txout_ops \<Rightarrow> ('b, 'o) coins_view_ops \<Rightarrow> int \<Rightarrow> bool \<Rightarrow> 'o CTransaction list \<Rightarrow> 'o Coin list list \<Rightarrow>
   ('b, 'o) CCoinsViewCache \<Rightarrow> ('b, 'o) CCoinsViewCache \<times> 'o Coin list list result" where
  "connect_coins T V nHeight first [] vtxundo view = (view, Inr vtxundo)"
| "connect_coins T V nHeight first (tx # txs) vtxundo view =
     (case UpdateCoins T V tx view nHeight of
        (view, Inl e) \<Rightarrow> (view, Inl e)
      | (view, Inr undo) \<Rightarrow> connect_coins T V nHeight False txs (if first then vtxundo else vtxundo @ [undo]) view)"

section \<open>Taking a block back\<close>

datatype DisconnectResult = DISCONNECT_OK | DISCONNECT_UNCLEAN | DISCONNECT_FAILED

definition ApplyTxInUndo ::
  "nat \<Rightarrow> 'o txout_ops \<Rightarrow> ('b, 'o) coins_view_ops \<Rightarrow> 'o Coin \<Rightarrow> ('b, 'o) CCoinsViewCache \<Rightarrow> outpoint \<Rightarrow>
   ('b, 'o) CCoinsViewCache \<times> DisconnectResult result" where
  "ApplyTxInUndo max_outputs T V undo view out =
     (case HaveCoin T V view out of
        (have_coin, view) \<Rightarrow>
          let fClean = (\<not> have_coin);
              (undo', view) =
                (if coin_nHeight undo = 0 then
                   case AccessByTxid max_outputs T V view (fst out) of
                     (alternate, view) \<Rightarrow>
                       (if \<not> IsSpent T alternate
                        then Some (undo\<lparr>coin_nHeight := coin_nHeight alternate, fCoinBase := fCoinBase alternate\<rparr>)
                        else None, view)
                 else (Some undo, view))
          in case undo' of
               None \<Rightarrow> (view, Inr DISCONNECT_FAILED)
             | Some undo \<Rightarrow>
                 (case AddCoin T view out undo (\<not> fClean) of
                    (view, Inl e) \<Rightarrow> (view, Inl e)
                  | (view, Inr _) \<Rightarrow> (view, Inr (if fClean then DISCONNECT_OK else DISCONNECT_UNCLEAN))))"

text \<open>The outputs of one transaction from index \<^verbatim>\<open>o\<close>: each must be there and be what the block says.\<close>

primrec undo_outputs ::
  "'o txout_ops \<Rightarrow> ('b, 'o) coins_view_ops \<Rightarrow> int \<Rightarrow> bool \<Rightarrow> bool \<Rightarrow> bytes \<Rightarrow> 'o list \<Rightarrow> nat \<Rightarrow> bool \<Rightarrow> ('b, 'o) CCoinsViewCache \<Rightarrow>
   bool \<times> ('b, 'o) CCoinsViewCache" where
  "undo_outputs T V nHeight is_coinbase is_bip30_exception hash [] i fClean view = (fClean, view)"
| "undo_outputs T V nHeight is_coinbase is_bip30_exception hash (out # outs) i fClean view =
     (if \<not> out_IsUnspendable T out then
        case SpendCoin T V view (hash, i) of
          ((is_spent, m), view) \<Rightarrow>
            let x = (case m of Some x \<Rightarrow> x | None \<Rightarrow> coinEmpty T);
                mismatch = (\<not> is_spent \<or> out \<noteq> coin_out x \<or> nHeight \<noteq> uint (coin_nHeight x) \<or> is_coinbase \<noteq> fCoinBase x)
            in undo_outputs T V nHeight is_coinbase is_bip30_exception hash outs (Suc i)
                 (if mismatch \<and> \<not> is_bip30_exception then False else fClean) view
      else undo_outputs T V nHeight is_coinbase is_bip30_exception hash outs (Suc i) fClean view)"

text \<open>The inputs are restored last to first; the list has them in that order.\<close>

primrec undo_inputs ::
  "nat \<Rightarrow> 'o txout_ops \<Rightarrow> ('b, 'o) coins_view_ops \<Rightarrow> (outpoint \<times> 'o Coin) list \<Rightarrow> bool \<Rightarrow> ('b, 'o) CCoinsViewCache \<Rightarrow>
   ('b, 'o) CCoinsViewCache \<times> bool option result" where
  "undo_inputs max_outputs T V [] fClean view = (view, Inr (Some fClean))"
| "undo_inputs max_outputs T V (x # xs) fClean view =
     (case ApplyTxInUndo max_outputs T V (snd x) view (fst x) of
        (view, Inl e) \<Rightarrow> (view, Inl e)
      | (view, Inr res) \<Rightarrow>
          if res = DISCONNECT_FAILED then (view, Inr None)
          else undo_inputs max_outputs T V xs (fClean \<and> res \<noteq> DISCONNECT_UNCLEAN) view)"

text \<open>The transactions last to first, each with its undo data unless it is the first of the block.\<close>

primrec undo_txs ::
  "nat \<Rightarrow> 'o txout_ops \<Rightarrow> ('b, 'o) coins_view_ops \<Rightarrow> int \<Rightarrow> bool \<Rightarrow> ('o CTransaction \<times> 'o Coin list option) list \<Rightarrow> bool \<Rightarrow>
   ('b, 'o) CCoinsViewCache \<Rightarrow> ('b, 'o) CCoinsViewCache \<times> bool option result" where
  "undo_txs max_outputs T V nHeight fEnforceBIP30 [] fClean view = (view, Inr (Some fClean))"
| "undo_txs max_outputs T V nHeight fEnforceBIP30 (x # xs) fClean view =
     (let tx = fst x;
          is_coinbase = tx_IsCoinBase tx
      in case undo_outputs T V nHeight is_coinbase (is_coinbase \<and> \<not> fEnforceBIP30) (tx_GetHash tx) (tx_vout tx) 0 fClean view of
           (fClean, view) \<Rightarrow>
             (case snd x of
                None \<Rightarrow> undo_txs max_outputs T V nHeight fEnforceBIP30 xs fClean view
              | Some vprevout \<Rightarrow>
                  if length vprevout \<noteq> length (tx_prevouts tx) then (view, Inr None)
                  else case undo_inputs max_outputs T V (rev (zip (tx_prevouts tx) vprevout)) fClean view of
                         (view, Inl e) \<Rightarrow> (view, Inl e)
                       | (view, Inr None) \<Rightarrow> (view, Inr None)
                       | (view, Inr (Some fClean)) \<Rightarrow> undo_txs max_outputs T V nHeight fEnforceBIP30 xs fClean view))"

text \<open>The two old blocks whose coinbases were overwritten, by height and hash.\<close>

definition bip30_block1 :: uint256 where
  "bip30_block1 = rev [0x00, 0x00, 0x00, 0x00, 0x00, 0x02, 0x71, 0xa2, 0xdc, 0x26, 0xe7, 0x66, 0x7f, 0x84, 0x19, 0xf2,
     0xe1, 0x54, 0x16, 0xdc, 0x69, 0x55, 0xe5, 0xa6, 0xc6, 0xcd, 0xf3, 0xf2, 0x57, 0x4d, 0xd0, 0x8e]"

definition bip30_block2 :: uint256 where
  "bip30_block2 = rev [0x00, 0x00, 0x00, 0x00, 0x00, 0x0a, 0xf0, 0xae, 0xd4, 0x79, 0x2b, 0x1a, 0xce, 0xe3, 0xd9, 0x66,
     0xaf, 0x36, 0xcf, 0x5d, 0xef, 0x14, 0x93, 0x5d, 0xb8, 0xde, 0x83, 0xd6, 0xf9, 0x30, 0x6f, 0x2f]"

text \<open>\<^verbatim>\<open>blockUndo\<close> is what was read from disk, and \<^verbatim>\<open>prev_hash\<close> the hash of the parent entry.\<close>

definition DisconnectBlock ::
  "nat \<Rightarrow> 'o txout_ops \<Rightarrow> ('b, 'o) coins_view_ops \<Rightarrow> 'o Coin list list option \<Rightarrow> 'o CTransaction list \<Rightarrow> int \<Rightarrow> uint256 \<Rightarrow>
   uint256 option \<Rightarrow> ('b, 'o) CCoinsViewCache \<Rightarrow> ('b, 'o) CCoinsViewCache \<times> DisconnectResult result" where
  "DisconnectBlock max_outputs T V blockUndo vtx nHeight hash prev_hash view =
     (case blockUndo of
        None \<Rightarrow> (view, Inr DISCONNECT_FAILED)
      | Some vtxundo \<Rightarrow>
          if length vtxundo + 1 \<noteq> length vtx then (view, Inr DISCONNECT_FAILED)
          else
            let fEnforceBIP30 = (\<not> ((nHeight = 91722 \<and> hash = bip30_block1) \<or> (nHeight = 91812 \<and> hash = bip30_block2)))
            in case undo_txs max_outputs T V nHeight fEnforceBIP30 (rev (zip vtx (None # map Some vtxundo))) True view of
                 (view, Inl e) \<Rightarrow> (view, Inl e)
               | (view, Inr None) \<Rightarrow> (view, Inr DISCONNECT_FAILED)
               | (view, Inr (Some fClean)) \<Rightarrow>
                   (case prev_hash of
                      None \<Rightarrow> (view, Inl Null_deref)
                    | Some h \<Rightarrow> (SetBestBlock view h, Inr (if fClean then DISCONNECT_OK else DISCONNECT_UNCLEAN))))"

section \<open>Rolling forward\<close>

primrec spend_quietly ::
  "'o txout_ops \<Rightarrow> ('b, 'o) coins_view_ops \<Rightarrow> outpoint list \<Rightarrow> ('b, 'o) CCoinsViewCache \<Rightarrow> ('b, 'o) CCoinsViewCache" where
  "spend_quietly T V [] c = c"
| "spend_quietly T V (k # ks) c = spend_quietly T V ks (snd (SpendCoin T V c k))"

primrec rollforward_txs ::
  "'o txout_ops \<Rightarrow> ('b, 'o) coins_view_ops \<Rightarrow> int \<Rightarrow> 'o CTransaction list \<Rightarrow> ('b, 'o) CCoinsViewCache \<Rightarrow>
   ('b, 'o) CCoinsViewCache \<times> unit result" where
  "rollforward_txs T V nHeight [] c = (c, Inr ())"
| "rollforward_txs T V nHeight (tx # txs) c =
     (case AddCoins T V (if \<not> tx_IsCoinBase tx then spend_quietly T V (tx_prevouts tx) c else c) tx nHeight True of
        (c, Inl e) \<Rightarrow> (c, Inl e)
      | (c, Inr _) \<Rightarrow> rollforward_txs T V nHeight txs c)"


section \<open>Effects on the set of coins\<close>

definition spend_all :: "outpoint list \<Rightarrow> (outpoint \<Rightarrow> 'o Coin option) \<Rightarrow> outpoint \<Rightarrow> 'o Coin option" where
  "spend_all ks U = (\<lambda>k. if k \<in> set ks then None else U k)"

definition tx_spends :: "'o CTransaction \<Rightarrow> outpoint list" where
  "tx_spends tx = (if tx_IsCoinBase tx then [] else tx_prevouts tx)"

definition apply_tx :: "'o txout_ops \<Rightarrow> int \<Rightarrow> 'o CTransaction \<Rightarrow> (outpoint \<Rightarrow> 'o Coin option) \<Rightarrow> outpoint \<Rightarrow> 'o Coin option" where
  "apply_tx T h tx U =
     add_outputs T (tx_GetHash tx) (tx_IsCoinBase tx) h (tx_vout tx) 0 (spend_all (tx_spends tx) U)"

text \<open>When a transaction can be applied: its coins are there, once each, and its outputs are new.\<close>

definition tx_applies :: "'o txout_ops \<Rightarrow> 'o CTransaction \<Rightarrow> (outpoint \<Rightarrow> 'o Coin option) \<Rightarrow> bool" where
  "tx_applies T tx U \<longleftrightarrow> distinct (tx_spends tx) \<and> list_all (\<lambda>k. U k \<noteq> None) (tx_spends tx) \<and>
     list_all (\<lambda>x. \<not> out_IsNull T x) (tx_vout tx) \<and> (\<forall>i < length (tx_vout tx). U (tx_GetHash tx, i) = None)"

lemma add_outputs_apply:
  "add_outputs T txid cb h outs i U k =
    (if fst k = txid \<and> i \<le> snd k \<and> snd k < i + length outs \<and> \<not> out_IsUnspendable T (outs ! (snd k - i))
     then Some (make_Coin (outs ! (snd k - i)) h cb) else U k)"
proof (induction outs arbitrary: i U)
  case (Cons x outs)
  show ?case
  proof (cases "snd k = i")
    case True
    hence "k = (txid, i) \<longleftrightarrow> fst k = txid" by (auto simp: prod_eq_iff)
    thus ?thesis using True by (auto simp: Cons.IH)
  next
    case False
    hence "k \<noteq> (txid, i)" by auto
    moreover have "i \<le> snd k \<Longrightarrow> (x # outs) ! (snd k - i) = outs ! (snd k - Suc i)" using False by (simp add: nth_Cons')
    ultimately show ?thesis using False by (auto simp: Cons.IH)
  qed
qed auto

text \<open>A whole block, transaction by transaction, and the undo data it leaves.\<close>

primrec apply_txs :: "'o txout_ops \<Rightarrow> int \<Rightarrow> 'o CTransaction list \<Rightarrow> (outpoint \<Rightarrow> 'o Coin option) \<Rightarrow> outpoint \<Rightarrow> 'o Coin option" where
  "apply_txs T h [] U = U"
| "apply_txs T h (tx # txs) U = apply_txs T h txs (apply_tx T h tx U)"

primrec txs_apply :: "'o txout_ops \<Rightarrow> int \<Rightarrow> 'o CTransaction list \<Rightarrow> (outpoint \<Rightarrow> 'o Coin option) \<Rightarrow> bool" where
  "txs_apply T h [] U \<longleftrightarrow> True"
| "txs_apply T h (tx # txs) U \<longleftrightarrow> tx_applies T tx U \<and> txs_apply T h txs (apply_tx T h tx U)"

definition tx_undo :: "'o CTransaction \<Rightarrow> (outpoint \<Rightarrow> 'o Coin option) \<Rightarrow> 'o Coin list" where
  "tx_undo tx U = map (\<lambda>k. the (U k)) (tx_spends tx)"

primrec txs_undo :: "'o txout_ops \<Rightarrow> int \<Rightarrow> 'o CTransaction list \<Rightarrow> (outpoint \<Rightarrow> 'o Coin option) \<Rightarrow> 'o Coin list list" where
  "txs_undo T h [] U = []"
| "txs_undo T h (tx # txs) U = tx_undo tx U # txs_undo T h txs (apply_tx T h tx U)"

text \<open>What holds of every coin a node has stored: unspent, spendable, and of a block after the first.\<close>

definition coin_good :: "'o txout_ops \<Rightarrow> 'o Coin \<Rightarrow> bool" where
  "coin_good T x \<longleftrightarrow> \<not> IsSpent T x \<and> \<not> out_IsUnspendable T (coin_out x) \<and> coin_nHeight x \<noteq> 0"

definition coins_good :: "'o txout_ops \<Rightarrow> (outpoint \<Rightarrow> 'o Coin option) \<Rightarrow> bool" where
  "coins_good T U \<longleftrightarrow> (\<forall>k x. U k = Some x \<longrightarrow> coin_good T x)"

lemma coins_goodD: "coins_good T U \<Longrightarrow> U k = Some x \<Longrightarrow> coin_good T x"
  unfolding coins_good_def by blast

lemma map_of_rev: "distinct (map fst xs) \<Longrightarrow> map_of (rev xs) = map_of xs"
  by (subst map_of_inject_set) (simp_all flip: rev_map)

lemma height_word [simp]: "0 \<le> h \<Longrightarrow> h < 2 ^ 31 \<Longrightarrow> uint (of_int h :: 31 word) = h"
  by (simp add: uint_word_of_int)

lemma make_Coin_sel [simp]:
  "coin_out (make_Coin out h cb) = out" "fCoinBase (make_Coin out h cb) = cb" "coin_nHeight (make_Coin out h cb) = of_int h"
  "IsSpent T (make_Coin out h cb) \<longleftrightarrow> out_IsNull T out"
  by (simp_all add: make_Coin_def IsSpent_def)

lemma make_Coin_good:
  "0 < h \<Longrightarrow> h < 2 ^ 31 \<Longrightarrow> \<not> out_IsNull T out \<Longrightarrow> \<not> out_IsUnspendable T out \<Longrightarrow> coin_good T (make_Coin out h cb)"
  using height_word [of h] by (metis coin_good_def less_le make_Coin_sel(1,3,4) unsigned_0)

lemma apply_tx_good:
  assumes "coins_good T U" "tx_applies T tx U" "0 < h" "h < 2 ^ 31"
  shows "coins_good T (apply_tx T h tx U)"
  using assms by (auto simp: coins_good_def apply_tx_def add_outputs_apply spend_all_def tx_applies_def list_all_iff
      intro: make_Coin_good split: if_splits)



context coins_view
begin

lemma spend_inputs_spec:
  assumes "txout_ok T"
  shows "cinv c \<Longrightarrow> distinct ks \<Longrightarrow> list_all (\<lambda>k. cview c k \<noteq> None) ks \<Longrightarrow>
    \<exists>c'. spend_inputs T V ks u c = (c', Inr (u @ map (\<lambda>k. the (cview c k)) ks)) \<and> cinv c' \<and> cview c' = spend_all ks (cview c)"
proof (induction ks arbitrary: u c)
  case Nil
  thus ?case by (simp add: spend_all_def)
next
  case (Cons k ks)
  obtain r m c1 where s: "SpendCoin T V c k = ((r, m), c1)" by (metis prod.exhaust)
  note S = SpendCoin_spec [OF Cons.prems(1) s assms]
  have m: "r" "m = cview c k" "cview c1 = (cview c)(k := None)" using S Cons.prems(3) by auto
  obtain x where x: "cview c k = Some x" using Cons.prems(3) by auto
  have "list_all (\<lambda>k. cview c1 k \<noteq> None) ks" using Cons.prems(2,3) m(3) by (auto simp: list_all_iff)
  from Cons.IH [OF conjunct1 [OF S] _ this, of "u @ [x]"] Cons.prems(2) obtain c' where
    "spend_inputs T V ks (u @ [x]) c1 = (c', Inr ((u @ [x]) @ map (\<lambda>k. the (cview c1 k)) ks))" "cinv c'"
    "cview c' = spend_all ks (cview c1)" by (meson distinct.simps(2))
  moreover have "map (\<lambda>k. the (cview c1 k)) ks = map (\<lambda>k. the (cview c k)) ks" using Cons.prems(2) m(3) by auto
  ultimately show ?case using s m x by (auto simp: spend_all_def fun_eq_iff)
qed

lemma AddCoins_loop_unchecked:
  assumes "txout_ok T"
  shows "cinv c \<Longrightarrow> (\<And>x. x \<in> set xs \<Longrightarrow> \<not> out_IsNull T x) \<Longrightarrow> (\<And>j. j < length xs \<Longrightarrow> cview c (tx_GetHash tx, i + j) = None) \<Longrightarrow>
    \<exists>c'. AddCoins_loop T V tx h False xs i c = (c', Inr ()) \<and> cinv c' \<and>
      cview c' = add_outputs T (tx_GetHash tx) (tx_IsCoinBase tx) h xs i (cview c)"
proof (induction xs arbitrary: i c)
  case (Cons x xs)
  have ns: "\<not> IsSpent T (make_Coin x h (tx_IsCoinBase tx))"
    using Cons.prems(2) by (simp add: IsSpent_def make_Coin_def)
  have "tx_IsCoinBase tx \<or> cview c (tx_GetHash tx, i) = None" using Cons.prems(3) [of 0] by simp
  from AddCoin_spec [OF Cons.prems(1) ns this assms] obtain c1 where
    c1: "AddCoin T c (tx_GetHash tx, i) (make_Coin x h (tx_IsCoinBase tx)) (tx_IsCoinBase tx) = (c1, Inr ())" "cinv c1"
      "cview c1 = (if out_IsUnspendable T x then cview c else (cview c)((tx_GetHash tx, i) \<mapsto> make_Coin x h (tx_IsCoinBase tx)))"
    by (auto simp: make_Coin_def)
  have "cview c1 (tx_GetHash tx, Suc i + j) = None" if "j < length xs" for j
    using Cons.prems(3) [of "Suc j"] that c1(3) by auto
  from Cons.IH [OF c1(2) _ this] Cons.prems(2) obtain c2 where
    "AddCoins_loop T V tx h False xs (Suc i) c1 = (c2, Inr ())" "cinv c2"
    "cview c2 = add_outputs T (tx_GetHash tx) (tx_IsCoinBase tx) h xs (Suc i) (cview c1)" by auto
  thus ?case using c1 by simp
qed simp

lemma UpdateCoins_spec:
  assumes "txout_ok T" "cinv c" "tx_applies T tx (cview c)"
  shows "\<exists>c'. UpdateCoins T V tx c h = (c', Inr (tx_undo tx (cview c))) \<and> cinv c' \<and>
    cview c' = apply_tx T h tx (cview c)"
proof -
  have a: "distinct (tx_spends tx)" "list_all (\<lambda>k. cview c k \<noteq> None) (tx_spends tx)"
    using assms(3) by (simp_all add: tx_applies_def)
  from spend_inputs_spec [OF assms(1,2) a, of "[]"] obtain c1 where
    c1: "spend_inputs T V (tx_spends tx) [] c = (c1, Inr (map (\<lambda>k. the (cview c k)) (tx_spends tx)))" "cinv c1"
      "cview c1 = spend_all (tx_spends tx) (cview c)" by auto
  have s: "(if \<not> tx_IsCoinBase tx then spend_inputs T V (tx_prevouts tx) [] c else (c, Inr [])) =
      spend_inputs T V (tx_spends tx) [] c" by (simp add: tx_spends_def)
  have n: "\<And>x. x \<in> set (tx_vout tx) \<Longrightarrow> \<not> out_IsNull T x"
    "\<And>j. j < length (tx_vout tx) \<Longrightarrow> cview c1 (tx_GetHash tx, 0 + j) = None"
    using assms(3) by (auto simp: tx_applies_def list_all_iff c1(3) spend_all_def)
  from AddCoins_loop_unchecked [OF assms(1) c1(2) n, of "tx_vout tx" h] obtain c2 where
    "AddCoins T V c1 tx h False = (c2, Inr ())" "cinv c2" "cview c2 = apply_tx T h tx (cview c)"
    by (auto simp: AddCoins_def apply_tx_def c1(3))
  thus ?thesis using c1 by (simp add: UpdateCoins_def s tx_undo_def)
qed

lemma connect_coins_spec:
  assumes "txout_ok T"
  shows "cinv c \<Longrightarrow> txs_apply T h txs (cview c) \<Longrightarrow>
    \<exists>c'. connect_coins T V h first txs u c =
        (c', Inr (u @ (if first then tl (txs_undo T h txs (cview c)) else txs_undo T h txs (cview c)))) \<and>
      cinv c' \<and> cview c' = apply_txs T h txs (cview c)"
proof (induction txs arbitrary: first u c)
  case (Cons tx txs)
  from UpdateCoins_spec [OF assms Cons.prems(1), of tx h] Cons.prems(2) obtain c1 where c1:
    "UpdateCoins T V tx c h = (c1, Inr (tx_undo tx (cview c)))" "cinv c1" "cview c1 = apply_tx T h tx (cview c)" by auto
  from Cons.IH [OF c1(2), of False "if first then u else u @ [tx_undo tx (cview c)]"] Cons.prems(2) c1 show ?case by auto
qed simp

lemma undo_outputs_spec:
  assumes "txout_ok T" "0 \<le> h" "h < 2 ^ 31"
  shows "cinv c \<Longrightarrow> (\<And>j. j < length outs \<Longrightarrow> \<not> out_IsUnspendable T (outs ! j) \<Longrightarrow>
      cview c (txid, i + j) = Some (make_Coin (outs ! j) h cb)) \<Longrightarrow>
    \<exists>c'. undo_outputs T V h cb ex txid outs i fc c = (fc, c') \<and> cinv c' \<and>
      cview c' = (\<lambda>k. if fst k = txid \<and> i \<le> snd k \<and> snd k < i + length outs \<and> \<not> out_IsUnspendable T (outs ! (snd k - i))
        then None else cview c k)"
proof (induction outs arbitrary: i c)
  case (Cons x outs)
  define c1 where "c1 = (if out_IsUnspendable T x then c else snd (SpendCoin T V c (txid, i)))"
  have c1: "cinv c1" "cview c1 = (if out_IsUnspendable T x then cview c else (cview c)((txid, i) := None))"
    and s: "undo_outputs T V h cb ex txid (x # outs) i fc c = undo_outputs T V h cb ex txid outs (Suc i) fc c1"
  proof -
    obtain r m c2 where s: "SpendCoin T V c (txid, i) = ((r, m), c2)" by (metis prod.exhaust)
    note S = SpendCoin_spec [OF Cons.prems(1) s assms(1)]
    have "\<not> out_IsUnspendable T x \<Longrightarrow> cview c (txid, i) = Some (make_Coin x h cb)" using Cons.prems(2) [of 0] by simp
    with S s Cons.prems(1) assms(2,3) show "cinv c1" "cview c1 = (if out_IsUnspendable T x then cview c else (cview c)((txid, i) := None))"
      "undo_outputs T V h cb ex txid (x # outs) i fc c = undo_outputs T V h cb ex txid outs (Suc i) fc c1"
      by (auto simp: c1_def)
  qed
  have "cview c1 (txid, Suc i + j) = Some (make_Coin (outs ! j) h cb)" if "j < length outs" "\<not> out_IsUnspendable T (outs ! j)" for j
    using Cons.prems(2) [of "Suc j"] that c1(2) by auto
  from Cons.IH [OF c1(1) this] obtain c' where c':
    "undo_outputs T V h cb ex txid outs (Suc i) fc c1 = (fc, c')" "cinv c'"
    "cview c' = (\<lambda>k. if fst k = txid \<and> Suc i \<le> snd k \<and> snd k < Suc i + length outs \<and> \<not> out_IsUnspendable T (outs ! (snd k - Suc i))
        then None else cview c1 k)" by blast
  have "cview c' k = (if fst k = txid \<and> i \<le> snd k \<and> snd k < i + length (x # outs) \<and> \<not> out_IsUnspendable T ((x # outs) ! (snd k - i))
        then None else cview c k)" for k
  proof (cases "snd k = i")
    case True
    hence "k = (txid, i) \<longleftrightarrow> fst k = txid" by (auto simp: prod_eq_iff)
    thus ?thesis using True by (auto simp: c'(3) c1(2))
  next
    case False
    hence "k \<noteq> (txid, i)" by auto
    moreover have "i \<le> snd k \<Longrightarrow> (x # outs) ! (snd k - i) = outs ! (snd k - Suc i)" using False by (simp add: nth_Cons')
    ultimately show ?thesis using False by (auto simp: c'(3) c1(2))
  qed
  thus ?case using s c'(1,2) by auto
qed (auto simp: fun_eq_iff)

lemma ApplyTxInUndo_spec:
  assumes "txout_ok T" "cinv c" "cview c k = None" "coin_good T x"
  shows "\<exists>c'. ApplyTxInUndo mo T V x c k = (c', Inr DISCONNECT_OK) \<and> cinv c' \<and> cview c' = (cview c)(k \<mapsto> x)"
proof -
  obtain r c1 where h: "HaveCoin T V c k = (r, c1)" by fastforce
  note H = HaveCoin_spec [OF assms(2) h]
  have "\<not> IsSpent T x" "True \<or> cview c1 k = None" using assms(4) by (simp_all add: coin_good_def)
  from AddCoin_spec [of c1 x False k, OF _ this(1) _ assms(1)] H assms(3,4) obtain c2 where
    "AddCoin T c1 k x False = (c2, Inr ())" "cinv c2" "cview c2 = (cview c)(k \<mapsto> x)" by (auto simp: coin_good_def)
  thus ?thesis using H assms(3,4) by (simp add: ApplyTxInUndo_def h coin_good_def)
qed

lemma undo_inputs_spec:
  assumes "txout_ok T"
  shows "cinv c \<Longrightarrow> distinct (map fst xs) \<Longrightarrow> (\<And>k x. (k, x) \<in> set xs \<Longrightarrow> cview c k = None \<and> coin_good T x) \<Longrightarrow>
    \<exists>c'. undo_inputs mo T V xs fc c = (c', Inr (Some fc)) \<and> cinv c' \<and> cview c' = cview c ++ map_of xs"
proof (induction xs arbitrary: c)
  case (Cons p xs)
  obtain k x where p: "p = (k, x)" by fastforce
  have "cview c k = None" "coin_good T x" using Cons.prems(3) [of k x] p by simp_all
  from ApplyTxInUndo_spec [OF assms Cons.prems(1) this, of mo] obtain c1 where c1:
    "ApplyTxInUndo mo T V x c k = (c1, Inr DISCONNECT_OK)" "cinv c1" "cview c1 = (cview c)(k \<mapsto> x)" by auto
  have "cview c1 k' = None \<and> coin_good T x'" if "(k', x') \<in> set xs" for k' x'
  proof -
    have "k \<notin> fst ` set xs" using Cons.prems(2) p by simp
    hence "k' \<noteq> k" using that by (metis fst_conv image_eqI)
    thus ?thesis using Cons.prems(3) [of k' x'] that c1(3) by simp
  qed
  from Cons.IH [OF c1(2) _ this] Cons.prems(2) obtain c' where
    c': "undo_inputs mo T V xs fc c1 = (c', Inr (Some fc))" "cinv c'" "cview c' = cview c1 ++ map_of xs" by auto
  have "map_of xs k = None" using Cons.prems(2) p by (simp add: map_of_eq_None_iff)
  hence "cview c' = cview c ++ map_of (p # xs)"
    unfolding c'(3) c1(3) p by (auto simp: map_add_def fun_eq_iff split: option.splits)
  moreover have "undo_inputs mo T V (p # xs) fc c = (c', Inr (Some fc))" using c'(1) c1(1) p by simp
  ultimately show ?case using c'(2) by blast
qed simp

text \<open>Undoing the transaction applied last.\<close>

lemma undo_tx_spec:
  assumes "txout_ok T" "0 < h" "h < 2 ^ 31" "coins_good T U" "tx_applies T tx U" "cinv c" "cview c = apply_tx T h tx U"
    "ud = None \<and> tx_spends tx = [] \<or> ud = Some (tx_undo tx U) \<and> tx_spends tx = tx_prevouts tx"
  shows "\<exists>c'. undo_txs mo T V h e ((tx, ud) # xs) fc c = undo_txs mo T V h e xs fc c' \<and> cinv c' \<and> cview c' = U"
proof -
  let ?ks = "tx_spends tx" and ?us = "tx_undo tx U"
  have a: "distinct ?ks" "\<And>k. k \<in> set ?ks \<Longrightarrow> U k \<noteq> None"
    "\<And>i. i < length (tx_vout tx) \<Longrightarrow> U (tx_GetHash tx, i) = None"
    using assms(5) by (auto simp: tx_applies_def list_all_iff)
  have "cview c (tx_GetHash tx, 0 + j) = Some (make_Coin (tx_vout tx ! j) h (tx_IsCoinBase tx))"
    if "j < length (tx_vout tx)" "\<not> out_IsUnspendable T (tx_vout tx ! j)" for j
    using that by (simp add: assms(7) apply_tx_def add_outputs_apply)
  from undo_outputs_spec [OF assms(1) _ assms(3) assms(6) this, of "tx_IsCoinBase tx \<and> \<not> e" fc] assms(2)
  obtain c1 where c1: "undo_outputs T V h (tx_IsCoinBase tx) (tx_IsCoinBase tx \<and> \<not> e) (tx_GetHash tx) (tx_vout tx) 0 fc c = (fc, c1)"
    "cinv c1" and v1: "cview c1 = (\<lambda>k. if fst k = tx_GetHash tx \<and> 0 \<le> snd k \<and> snd k < 0 + length (tx_vout tx) \<and>
        \<not> out_IsUnspendable T (tx_vout tx ! (snd k - 0)) then None else cview c k)" by auto
  have c1v: "cview c1 = spend_all ?ks U"
  proof
    fix k
    show "cview c1 k = spend_all ?ks U k"
      using a(3) [of "snd k"] unfolding v1 assms(7) by (cases k) (auto simp: apply_tx_def add_outputs_apply spend_all_def)
  qed
  from assms(8) show ?thesis
  proof
    assume "ud = None \<and> ?ks = []"
    thus ?thesis using c1 c1v by (auto simp: spend_all_def)
  next
    assume ud: "ud = Some ?us \<and> ?ks = tx_prevouts tx"
    have len: "length ?us = length ?ks" by (simp add: tx_undo_def)
    have "distinct (map fst (rev (zip ?ks ?us)))" using a(1) len by (simp flip: rev_map)
    moreover have "cview c1 k = None \<and> coin_good T x" if "(k, x) \<in> set (rev (zip ?ks ?us))" for k x
    proof -
      have k: "k \<in> set ?ks" "x = the (U k)" using that by (auto simp: tx_undo_def set_zip)
      obtain y where "U k = Some y" using a(2) [OF k(1)] by blast
      with coins_goodD [OF assms(4) this] k show ?thesis by (simp add: c1v spend_all_def)
    qed
    ultimately obtain c2 where c2: "undo_inputs mo T V (rev (zip ?ks ?us)) fc c1 = (c2, Inr (Some fc))" "cinv c2"
      "cview c2 = cview c1 ++ map_of (rev (zip ?ks ?us))" using undo_inputs_spec [OF assms(1) c1(2)] by blast
    have "map_of (rev (zip ?ks ?us)) = map_of (zip ?ks ?us)"
      using a(1) len by (simp add: map_of_rev)
    hence m: "map_of (rev (zip ?ks ?us)) k = (if k \<in> set ?ks then Some (the (U k)) else None)" for k
      by (simp add: tx_undo_def map_of_zip_map)
    have "cview c2 = U"
    proof
      fix k
      show "cview c2 k = U k" using a(2) [of k] by (auto simp: c2(3) c1v map_add_def m spend_all_def)
    qed
    moreover have "undo_txs mo T V h e ((tx, ud) # xs) fc c = undo_txs mo T V h e xs fc c2"
      using c2(1) ud len c1(1) by simp
    ultimately show ?thesis using c2(2) by blast
  qed
qed

lemma undo_txs_spec:
  assumes "txout_ok T" "0 < h" "h < 2 ^ 31"
  shows "coins_good T U \<Longrightarrow> txs_apply T h txs U \<Longrightarrow> cinv c \<Longrightarrow> cview c = apply_txs T h txs U \<Longrightarrow>
    list_all (\<lambda>tx. \<not> tx_IsCoinBase tx) txs \<Longrightarrow>
    \<exists>c'. undo_txs mo T V h e (rev (zip txs (map Some (txs_undo T h txs U))) @ xs) fc c = undo_txs mo T V h e xs fc c' \<and>
      cinv c' \<and> cview c' = U"
proof (induction txs arbitrary: U c xs)
  case (Cons tx txs)
  let ?U = "apply_tx T h tx U"
  have g: "coins_good T ?U" using apply_tx_good [of T U tx h] Cons.prems(1,2) assms(2,3) by simp
  from Cons.IH [OF g _ Cons.prems(3), of "(tx, Some (tx_undo tx U)) # xs"] Cons.prems(2,4,5) obtain c1 where c1:
    "undo_txs mo T V h e (rev (zip txs (map Some (txs_undo T h txs ?U))) @ (tx, Some (tx_undo tx U)) # xs) fc c =
      undo_txs mo T V h e ((tx, Some (tx_undo tx U)) # xs) fc c1" "cinv c1" "cview c1 = ?U" by auto
  have "tx_spends tx = tx_prevouts tx" using Cons.prems(5) by (simp add: tx_spends_def)
  with undo_tx_spec [OF assms Cons.prems(1) _ c1(2,3), of "Some (tx_undo tx U)" mo e xs fc] Cons.prems(2) obtain c' where
    "undo_txs mo T V h e ((tx, Some (tx_undo tx U)) # xs) fc c1 = undo_txs mo T V h e xs fc c'" "cinv c'" "cview c' = U" by auto
  with c1(1) show ?case by (auto simp del: undo_txs.simps)
qed auto

lemma SetBestBlock_keeps: "cinv c \<Longrightarrow> cinv (SetBestBlock c b) \<and> cview (SetBestBlock c b) = cview c"
  by (auto simp: SetBestBlock_def cache_ok_def cache_utxo_def fun_eq_iff cong: option.case_cong)

lemma DisconnectBlock_spec:
  assumes "txout_ok T" "0 < h" "h < 2 ^ 31" "coins_good T U" "txs_apply T h (tx # txs) U"
    "tx_IsCoinBase tx" "list_all (\<lambda>tx. \<not> tx_IsCoinBase tx) txs"
    "cinv c" "cview c = apply_txs T h (tx # txs) U"
  shows "\<exists>c'. DisconnectBlock mo T V (Some (txs_undo T h txs (apply_tx T h tx U))) (tx # txs) h hash (Some prev) c =
    (c', Inr DISCONNECT_OK) \<and> cinv c' \<and> cview c' = U \<and> hashBlock c' = prev"
proof -
  let ?U = "apply_tx T h tx U" and ?e = "\<not> ((h = 91722 \<and> hash = bip30_block1) \<or> (h = 91812 \<and> hash = bip30_block2))"
  have g: "coins_good T ?U" using apply_tx_good [of T U tx h] assms by simp
  from undo_txs_spec [OF assms(1-3) g _ assms(8), of txs mo ?e "[(tx, None)]" True] assms(5,7,9) obtain c1 where c1:
    "undo_txs mo T V h ?e (rev (zip txs (map Some (txs_undo T h txs ?U))) @ [(tx, None)]) True c =
      undo_txs mo T V h ?e [(tx, None)] True c1" "cinv c1" "cview c1 = ?U" by auto
  have "tx_spends tx = []" using assms(6) by (simp add: tx_spends_def)
  with undo_tx_spec [OF assms(1-4) _ c1(2,3), of None mo ?e "[]" True] assms(5) obtain c2 where
    c2: "undo_txs mo T V h ?e [(tx, None)] True c1 = (c2, Inr (Some True))" "cinv c2" "cview c2 = U" by auto
  have "length (txs_undo T h txs W) = length txs" for W by (induction txs arbitrary: W) auto
  thus ?thesis using c1(1) c2 SetBestBlock_keeps [OF c2(2), of prev]
    unfolding DisconnectBlock_def Let_def by (simp add: SetBestBlock_def del: undo_txs.simps)
qed

lemma spend_quietly_spec:
  assumes "txout_ok T"
  shows "cinv c \<Longrightarrow> cinv (spend_quietly T V ks c) \<and> cview (spend_quietly T V ks c) = spend_all ks (cview c)"
proof (induction ks arbitrary: c)
  case (Cons k ks)
  obtain r m c1 where s: "SpendCoin T V c k = ((r, m), c1)" by (metis prod.exhaust)
  note S = SpendCoin_spec [OF Cons.prems s assms]
  with Cons.IH [of c1] s show ?case by (auto simp: spend_all_def fun_eq_iff)
qed (simp add: spend_all_def)

lemma rollforward_spec:
  assumes "txout_ok T"
  shows "cinv c \<Longrightarrow> list_all (\<lambda>tx. list_all (\<lambda>x. \<not> out_IsNull T x) (tx_vout tx)) txs \<Longrightarrow>
    \<exists>c'. rollforward_txs T V h txs c = (c', Inr ()) \<and> cinv c' \<and> cview c' = apply_txs T h txs (cview c)"
proof (induction txs arbitrary: c)
  case (Cons tx txs)
  have s: "(if \<not> tx_IsCoinBase tx then spend_quietly T V (tx_prevouts tx) c else c) = spend_quietly T V (tx_spends tx) c"
    by (simp add: tx_spends_def)
  note q = spend_quietly_spec [OF assms Cons.prems(1), of "tx_spends tx"]
  have "\<And>x. x \<in> set (tx_vout tx) \<Longrightarrow> \<not> out_IsNull T x" using Cons.prems(2) by (simp add: list_all_iff)
  with AddCoins_loop_checked [OF assms conjunct1 [OF q], of "tx_vout tx" tx h 0] q obtain c1 where c1:
    "AddCoins T V (spend_quietly T V (tx_spends tx) c) tx h True = (c1, Inr ())" "cinv c1" "cview c1 = apply_tx T h tx (cview c)"
    by (auto simp: AddCoins_def apply_tx_def)
  from Cons.IH [OF c1(2)] Cons.prems(2) c1 show ?case by (auto simp: s)
qed simp

end

section \<open>Properties\<close>

text \<open>
  C3: taking back the block connected last, with the undo data that connecting it produced, is clean and restores
  the coins: the cache over the chain state's cache then represents exactly the set it represented
  before, and its best block is the parent.
\<close>

theorem DisconnectBlock_restores:
  assumes "txout_ok T" "0 < h" "h < 2 ^ 31" "cache_ok T (cache_utxo T db_coin) (cache_ok T db_coin (db_ok T)) c"
    "coins_good T (cache_utxo T (cache_utxo T db_coin) c)"
    "txs_apply T h (tx # txs) (cache_utxo T (cache_utxo T db_coin) c)"
    "tx_IsCoinBase tx" "list_all (\<lambda>tx. \<not> tx_IsCoinBase tx) txs"
  shows "\<exists>c1 vtxundo c2. connect_coins T (cache_view T (CCoinsViewDB T est lim)) h True (tx # txs) [] c = (c1, Inr vtxundo) \<and>
    cache_utxo T (cache_utxo T db_coin) c1 = apply_txs T h (tx # txs) (cache_utxo T (cache_utxo T db_coin) c) \<and>
    DisconnectBlock max_outputs T (cache_view T (CCoinsViewDB T est lim)) (Some vtxundo) (tx # txs) h hash (Some prev) c1 =
      (c2, Inr DISCONNECT_OK) \<and>
    cache_utxo T (cache_utxo T db_coin) c2 = cache_utxo T (cache_utxo T db_coin) c \<and> hashBlock c2 = prev"
proof -
  let ?U = "cache_utxo T (cache_utxo T db_coin) c"
  from coins_tip.connect_coins_spec [OF assms(1,4,6), of est lim True "[]"] obtain c1 where c1:
    "connect_coins T (cache_view T (CCoinsViewDB T est lim)) h True (tx # txs) [] c =
      (c1, Inr (txs_undo T h txs (apply_tx T h tx ?U)))"
    "cache_ok T (cache_utxo T db_coin) (cache_ok T db_coin (db_ok T)) c1"
    "cache_utxo T (cache_utxo T db_coin) c1 = apply_txs T h (tx # txs) ?U" by auto
  from coins_tip.DisconnectBlock_spec [OF assms(1-3,5-8) c1(2,3)] c1 show ?thesis by blast
qed

definition block_txs :: "(int \<times> bytes) CTransaction list" where
  "block_txs =
     [\<lparr>tx_GetHash = sample_hash 4, tx_IsCoinBase = True, tx_prevouts = [(null_hash, 4294967295)], tx_vout = [(5, [0x51])]\<rparr>,
      \<lparr>tx_GetHash = sample_hash 3, tx_IsCoinBase = False, tx_prevouts = [(sample_hash 1, 0)],
       tx_vout = [(20, [0x51]), (25, [0x6a])]\<rparr>,
      \<lparr>tx_GetHash = sample_hash 5, tx_IsCoinBase = False, tx_prevouts = [(sample_hash 3, 0)], tx_vout = [(20, [0x52])]\<rparr>]"

lemma sample_hash_inj: "sample_hash m = sample_hash n \<longleftrightarrow> (of_nat m :: u8) = of_nat n"
  by (simp add: sample_hash_def)

lemma block_txs_apply: "txs_apply sample_outputs 8 block_txs (db_coin sample_db)"
  by (simp add: block_txs_def tx_applies_def tx_spends_def apply_tx_def spend_all_def sample_db_def sample_hash_inj
      sample_outputs_def All_less_Suc)

lemma sample_db_good: "coins_good sample_outputs (db_coin sample_db)"
  by (simp add: coins_good_def coin_good_def sample_db_def sample_coin_def sample_outputs_def)

theorem DisconnectBlock_restores_witness:
  "\<exists>c1 vtxundo c2.
    connect_coins sample_outputs (cache_view sample_outputs (CCoinsViewDB sample_outputs length 2)) 8 True block_txs []
      (CCoinsViewCache_new (CCoinsViewCache_new sample_db)) = (c1, Inr vtxundo) \<and>
    DisconnectBlock 25000 sample_outputs (cache_view sample_outputs (CCoinsViewDB sample_outputs length 2)) (Some vtxundo)
      block_txs 8 (sample_hash 8) (Some (sample_hash 9)) c1 = (c2, Inr DISCONNECT_OK) \<and>
    cache_utxo sample_outputs (cache_utxo sample_outputs db_coin) c2 = [(sample_hash 1, 0) \<mapsto> sample_coin 50]"
proof -
  let ?c = "CCoinsViewCache_new (CCoinsViewCache_new sample_db)"
  have u: "cache_utxo sample_outputs (cache_utxo sample_outputs db_coin) ?c = db_coin sample_db" by simp
  have ok: "cache_ok sample_outputs (cache_utxo sample_outputs db_coin) (cache_ok sample_outputs db_coin (db_ok sample_outputs)) ?c"
    using sample_simps(6) by simp
  have b: "block_txs = hd block_txs # tl block_txs" "tx_IsCoinBase (hd block_txs)" "list_all (\<lambda>tx. \<not> tx_IsCoinBase tx) (tl block_txs)"
    by (simp_all add: block_txs_def)
  from DisconnectBlock_restores [of sample_outputs 8 ?c "hd block_txs" "tl block_txs" length 2 25000 "sample_hash 8" "sample_hash 9",
      unfolded u b(1) [symmetric], OF sample_simps(5) _ _ ok sample_db_good block_txs_apply b(2,3)]
  show ?thesis by (auto simp: sample_db_def)
qed



end
