(* ===== verification/Connect_Block.thy ===== *)
theory Connect_Block
  imports Tx_Verify Chain_Coins Consensus_Params
begin

text \<open>
  The part of \<^verbatim>\<open>ConnectBlock\<close> in \<^verbatim>\<open>validation.cpp\<close> that looks at the transactions: the rule against overwriting
  coins, the loop over the transactions, the reward check and the wait for the script checks, with
  \<^verbatim>\<open>GetBlockSubsidy\<close> and \<^verbatim>\<open>CheckInputScripts\<close>. The script interpreter and the cache of script results are
  arguments. It is shown that a block that is accepted creates no more money than the subsidy.
\<close>

section \<open>Subsidy\<close>

text \<open>A negative number of halvings would be an undefined shift.\<close>

definition GetBlockSubsidy :: "int \<Rightarrow> Params \<Rightarrow> CAmount result" where
  "GetBlockSubsidy height params =
     rbind (cpp_div height (nSubsidyHalvingInterval params)) (\<lambda>halvings.
       if halvings \<ge> 64 then Inr 0
       else if halvings < 0 then Inl Out_of_range
       else
         let nSubsidy = 500 * of_int COIN
         in Inr (signed_drop_bit (nat halvings) nSubsidy))"

section \<open>Script checks\<close>

text \<open>A deferred check: the outputs that are spent, the transaction, the input and the flags.\<close>

type_synonym CScriptCheck = "CTxOut list \<times> CTx \<times> nat \<times> u32"

record 'e script_lib =
  sl_entry :: "CTx \<Rightarrow> u32 \<Rightarrow> bytes"
  sl_contains :: "'e \<Rightarrow> bytes \<Rightarrow> bool \<Rightarrow> bool \<times> 'e"
  sl_insert :: "'e \<Rightarrow> bytes \<Rightarrow> 'e"
  sl_VerifyScript :: "CScriptCheck \<Rightarrow> bool"
  sl_error :: "CScriptCheck \<Rightarrow> string"
  sl_NOT_MANDATORY :: u32

text \<open>The outputs the inputs spend; the assertion is that each coin is there.\<close>

primrec spent_outputs_loop ::
  "CTxOut txout_ops \<Rightarrow> ('b, CTxOut) coins_view_ops \<Rightarrow> CTxIn list \<Rightarrow> CTxOut list \<Rightarrow> ('b, CTxOut) CCoinsViewCache \<Rightarrow>
   ('b, CTxOut) CCoinsViewCache \<times> CTxOut list result" where
  "spent_outputs_loop T V [] spent_outputs c = (c, Inr spent_outputs)"
| "spent_outputs_loop T V (txin # txins) spent_outputs c =
     (let (x, c) = AccessCoin T V c (prevout txin)
      in if IsSpent T x then (c, Inl Assert_failed)
         else spent_outputs_loop T V txins (spent_outputs @ [coin_out x]) c)"

text \<open>The checks are pushed to the queue if there is one and run otherwise.\<close>

primrec script_loop ::
  "'e script_lib \<Rightarrow> CTxOut list \<Rightarrow> CTx \<Rightarrow> u32 \<Rightarrow> TxValidationState \<Rightarrow> nat list \<Rightarrow> CScriptCheck list option \<Rightarrow>
   TxValidationState + CScriptCheck list option" where
  "script_loop S outs tx flgs state [] pvChecks = Inr pvChecks"
| "script_loop S outs tx flgs state (i # is) pvChecks =
     (let check = (outs, tx, i, flgs)
      in case pvChecks of
           Some vChecks \<Rightarrow> script_loop S outs tx flgs state is (Some (vChecks @ [check]))
         | None \<Rightarrow>
             if \<not> sl_VerifyScript S check then
               if flgs AND sl_NOT_MANDATORY S \<noteq> 0 \<and> sl_VerifyScript S (outs, tx, i, flgs AND NOT (sl_NOT_MANDATORY S))
               then Inl (snd (state_Invalid state TX_NOT_STANDARD (''non-mandatory-script-verify-flag ('' @ sl_error S check @ '')'') ''''))
               else Inl (snd (state_Invalid state TX_CONSENSUS (''mandatory-script-verify-flag-failed ('' @ sl_error S check @ '')'') ''''))
             else script_loop S outs tx flgs state is None)"

text \<open>
  The result is the checks pushed, if there is a queue, or the state made invalid. The last but one
  argument is what \<^verbatim>\<open>txdata\<close> already holds of the spent outputs.
\<close>

definition CheckInputScripts ::
  "tx_lib \<Rightarrow> 'e script_lib \<Rightarrow> CTxOut txout_ops \<Rightarrow> ('b, CTxOut) coins_view_ops \<Rightarrow> CTx \<Rightarrow> TxValidationState \<Rightarrow> u32 \<Rightarrow> bool \<Rightarrow>
   CTxOut list option \<Rightarrow> CScriptCheck list option \<Rightarrow> ('b, CTxOut) CCoinsViewCache \<times> 'e \<Rightarrow>
   (('b, CTxOut) CCoinsViewCache \<times> 'e) \<times> (TxValidationState + CScriptCheck list option) result" where
  "CheckInputScripts L S T V tx state flgs cacheFullScriptStore txdata pvChecks = (\<lambda>(c, e).
     if lib_IsCoinBase L tx then ((c, e), Inr (Inr pvChecks))
     else
       let hashCacheEntry = sl_entry S tx flgs;
           (found, e) = sl_contains S e hashCacheEntry (\<not> cacheFullScriptStore)
       in if found then ((c, e), Inr (Inr pvChecks))
          else
            case (case txdata of Some outs \<Rightarrow> (c, Inr outs) | None \<Rightarrow> spent_outputs_loop T V (vin tx) [] c) of
              (c, Inl err) \<Rightarrow> ((c, e), Inl err)
            | (c, Inr outs) \<Rightarrow>
                if length outs \<noteq> length (vin tx) then ((c, e), Inl Assert_failed)
                else (case script_loop S outs tx flgs state [0..<length (vin tx)] pvChecks of
                        Inl state \<Rightarrow> ((c, e), Inr (Inl state))
                      | Inr pvChecks \<Rightarrow>
                          ((c, if cacheFullScriptStore \<and> pvChecks = None then sl_insert S e hashCacheEntry else e),
                           Inr (Inr pvChecks))))"

section \<open>The transactions of a block\<close>

datatype BlockValidationResult =
    BLOCK_RESULT_UNSET | BLOCK_CONSENSUS | BLOCK_RECENT_CONSENSUS_CHANGE | BLOCK_CACHED_INVALID | BLOCK_INVALID_HEADER
  | BLOCK_MUTATED | BLOCK_MISSING_PREV | BLOCK_INVALID_PREV | BLOCK_TIME_FUTURE | BLOCK_CHECKPOINT | BLOCK_HEADER_LOW_WORK

type_synonym BlockValidationState = "BlockValidationResult ValidationState"

text \<open>A step ends with a failure of the program, with an invalid block, or goes on with a value.\<close>

type_synonym ('v, 'x) step = "'v \<times> (BlockValidationState + 'x) result"

definition step_bind :: "('v, 'x) step \<Rightarrow> ('v \<Rightarrow> 'x \<Rightarrow> ('v, 'y) step) \<Rightarrow> ('v, 'y) step" where
  "step_bind m f = (case m of (v, Inl e) \<Rightarrow> (v, Inl e) | (v, Inr (Inl s)) \<Rightarrow> (v, Inr (Inl s)) | (v, Inr (Inr x)) \<Rightarrow> f v x)"

definition block_Invalid :: "BlockValidationState \<Rightarrow> string \<Rightarrow> string \<Rightarrow> (BlockValidationState + 'x) result" where
  "block_Invalid state reason debug = Inr (Inl (snd (state_Invalid state BLOCK_CONSENSUS reason debug)))"

primrec bip30_outputs ::
  "CTxOut txout_ops \<Rightarrow> ('b, CTxOut) coins_view_ops \<Rightarrow> BlockValidationState \<Rightarrow> outpoint list \<Rightarrow> ('b, CTxOut) CCoinsViewCache \<Rightarrow>
   (('b, CTxOut) CCoinsViewCache, unit) step" where
  "bip30_outputs T V state [] view = (view, Inr (Inr ()))"
| "bip30_outputs T V state (k # ks) view =
     (case HaveCoin T V view k of
        (have_coin, view) \<Rightarrow>
          if have_coin then (view, block_Invalid state ''bad-txns-BIP30'' '''') else bip30_outputs T V state ks view)"

definition check_bip30 ::
  "CTxOut txout_ops \<Rightarrow> ('b, CTxOut) coins_view_ops \<Rightarrow> BlockValidationState \<Rightarrow> bool \<Rightarrow> int \<Rightarrow> CTx list \<Rightarrow> ('b, CTxOut) CCoinsViewCache \<Rightarrow>
   (('b, CTxOut) CCoinsViewCache, unit) step" where
  "check_bip30 T V state fEnforceBIP30 height vtx view =
     (if fEnforceBIP30 \<or> height \<ge> 1983702
      then bip30_outputs T V state (concat (map (\<lambda>tx. map (\<lambda>i. (tx_hash tx, i)) [0..<length (vout tx)]) vtx)) view
      else (view, Inr (Inr ())))"

text \<open>What does not change in the loop.\<close>

record connect_env =
  ce_pindex :: addr
  ce_nHeight :: int
  ce_nLockTimeFlags :: u32
  ce_flags :: u32
  ce_fScriptChecks :: bool
  ce_fJustCheck :: bool
  ce_parallel :: bool

text \<open>What the loop accumulates.\<close>

record connect_acc =
  ca_nFees :: CAmount
  ca_nSigOpsCost :: u64
  ca_vtxundo :: "CTxOut Coin list list"
  ca_queue :: "CScriptCheck list"

definition connect_fee ::
  "tx_lib \<Rightarrow> CTxOut txout_ops \<Rightarrow> ('b, CTxOut) coins_view_ops \<Rightarrow> connect_env \<Rightarrow> BlockValidationState \<Rightarrow> CTx \<Rightarrow> connect_acc \<Rightarrow>
   ('b, CTxOut) CCoinsViewCache \<times> 'e \<Rightarrow> (('b, CTxOut) CCoinsViewCache \<times> 'e, connect_acc) step" where
  "connect_fee L T V E state tx a = (\<lambda>(view, e).
     case CheckTxInputs L T V tx state_new view (ce_nHeight E) of
       (view, Inl err) \<Rightarrow> ((view, e), Inl err)
     | (view, Inr (None, tx_state)) \<Rightarrow>
         ((view, e), block_Invalid state (m_reject_reason tx_state) (m_debug_message tx_state))
     | (view, Inr (Some txfee, _)) \<Rightarrow>
         let nFees = ca_nFees a + txfee
         in if \<not> MoneyRange nFees then ((view, e), block_Invalid state ''bad-txns-accumulated-fee-outofrange'' '''')
            else ((view, e), Inr (Inr (a\<lparr>ca_nFees := nFees\<rparr>))))"

primrec prev_heights ::
  "CTxOut txout_ops \<Rightarrow> ('b, CTxOut) coins_view_ops \<Rightarrow> CTxIn list \<Rightarrow> ('b, CTxOut) CCoinsViewCache \<Rightarrow>
   int list \<times> ('b, CTxOut) CCoinsViewCache" where
  "prev_heights T V [] view = ([], view)"
| "prev_heights T V (txin # txins) view =
     (let (x, view) = AccessCoin T V view (prevout txin);
          (hs, view) = prev_heights T V txins view
      in (uint (coin_nHeight x) # hs, view))"

definition connect_locks ::
  "tx_lib \<Rightarrow> CTxOut txout_ops \<Rightarrow> ('b, CTxOut) coins_view_ops \<Rightarrow> block_store \<Rightarrow> connect_env \<Rightarrow> BlockValidationState \<Rightarrow> CTx \<Rightarrow>
   connect_acc \<Rightarrow> ('b, CTxOut) CCoinsViewCache \<times> 'e \<Rightarrow> (('b, CTxOut) CCoinsViewCache \<times> 'e, connect_acc) step" where
  "connect_locks L T V st E state tx a = (\<lambda>(view, e).
     case prev_heights T V (vin tx) view of
       (prevheights, view) \<Rightarrow>
         (case SequenceLocks L st tx (ce_nLockTimeFlags E) prevheights (ce_pindex E) of
            Inl err \<Rightarrow> ((view, e), Inl err)
          | Inr ok \<Rightarrow> if \<not> ok then ((view, e), block_Invalid state ''bad-txns-nonfinal'' '''') else ((view, e), Inr (Inr a))))"

definition connect_sigops ::
  "tx_lib \<Rightarrow> CTxOut txout_ops \<Rightarrow> ('b, CTxOut) coins_view_ops \<Rightarrow> connect_env \<Rightarrow> BlockValidationState \<Rightarrow> CTx \<Rightarrow> connect_acc \<Rightarrow>
   ('b, CTxOut) CCoinsViewCache \<times> 'e \<Rightarrow> (('b, CTxOut) CCoinsViewCache \<times> 'e, connect_acc) step" where
  "connect_sigops L T V E state tx a = (\<lambda>(view, e).
     case GetTransactionSigOpCost L T V tx (ce_flags E) view of
       (view, Inl err) \<Rightarrow> ((view, e), Inl err)
     | (view, Inr n) \<Rightarrow>
         let nSigOpsCost = ca_nSigOpsCost a + n
         in if sint nSigOpsCost > MAX_BLOCK_SIGOPS_COST then ((view, e), block_Invalid state ''bad-blk-sigops'' '''')
            else ((view, e), Inr (Inr (a\<lparr>ca_nSigOpsCost := nSigOpsCost\<rparr>))))"

definition connect_scripts ::
  "tx_lib \<Rightarrow> 'e script_lib \<Rightarrow> CTxOut txout_ops \<Rightarrow> ('b, CTxOut) coins_view_ops \<Rightarrow> connect_env \<Rightarrow> BlockValidationState \<Rightarrow> CTx \<Rightarrow>
   connect_acc \<Rightarrow> ('b, CTxOut) CCoinsViewCache \<times> 'e \<Rightarrow> (('b, CTxOut) CCoinsViewCache \<times> 'e, connect_acc) step" where
  "connect_scripts L S T V E state tx a v =
     (if \<not> ce_fScriptChecks E then (v, Inr (Inr a))
      else case CheckInputScripts L S T V tx state_new (ce_flags E) (ce_fJustCheck E) None
          (if ce_parallel E then Some [] else None) v of
        (v, Inl err) \<Rightarrow> (v, Inl err)
      | (v, Inr (Inl tx_state)) \<Rightarrow> (v, block_Invalid state (m_reject_reason tx_state) (m_debug_message tx_state))
      | (v, Inr (Inr pvChecks)) \<Rightarrow>
          (v, Inr (Inr (a\<lparr>ca_queue := ca_queue a @ (case pvChecks of Some vChecks \<Rightarrow> vChecks | None \<Rightarrow> [])\<rparr>))))"

definition connect_update ::
  "tx_lib \<Rightarrow> CTxOut txout_ops \<Rightarrow> ('b, CTxOut) coins_view_ops \<Rightarrow> connect_env \<Rightarrow> bool \<Rightarrow> CTx \<Rightarrow> connect_acc \<Rightarrow>
   ('b, CTxOut) CCoinsViewCache \<times> 'e \<Rightarrow> (('b, CTxOut) CCoinsViewCache \<times> 'e, connect_acc) step" where
  "connect_update L T V E first tx a = (\<lambda>(view, e).
     case UpdateCoins T V (coins_tx L tx) view (ce_nHeight E) of
       (view, Inl err) \<Rightarrow> ((view, e), Inl err)
     | (view, Inr undo) \<Rightarrow>
         ((view, e), Inr (Inr (if first then a else a\<lparr>ca_vtxundo := ca_vtxundo a @ [undo]\<rparr>))))"

definition connect_tx ::
  "tx_lib \<Rightarrow> 'e script_lib \<Rightarrow> CTxOut txout_ops \<Rightarrow> ('b, CTxOut) coins_view_ops \<Rightarrow> block_store \<Rightarrow> connect_env \<Rightarrow>
   BlockValidationState \<Rightarrow> bool \<Rightarrow> CTx \<Rightarrow> connect_acc \<Rightarrow> ('b, CTxOut) CCoinsViewCache \<times> 'e \<Rightarrow>
   (('b, CTxOut) CCoinsViewCache \<times> 'e, connect_acc) step" where
  "connect_tx L S T V st E state first tx a v =
     step_bind
       (if \<not> lib_IsCoinBase L tx
        then step_bind (connect_fee L T V E state tx a v) (\<lambda>v a. connect_locks L T V st E state tx a v)
        else (v, Inr (Inr a))) (\<lambda>v a.
     step_bind (connect_sigops L T V E state tx a v) (\<lambda>v a.
     step_bind (if \<not> lib_IsCoinBase L tx then connect_scripts L S T V E state tx a v else (v, Inr (Inr a))) (\<lambda>v a.
     connect_update L T V E first tx a v)))"

primrec connect_loop ::
  "tx_lib \<Rightarrow> 'e script_lib \<Rightarrow> CTxOut txout_ops \<Rightarrow> ('b, CTxOut) coins_view_ops \<Rightarrow> block_store \<Rightarrow> connect_env \<Rightarrow>
   BlockValidationState \<Rightarrow> bool \<Rightarrow> CTx list \<Rightarrow> connect_acc \<Rightarrow> ('b, CTxOut) CCoinsViewCache \<times> 'e \<Rightarrow>
   (('b, CTxOut) CCoinsViewCache \<times> 'e, connect_acc) step" where
  "connect_loop L S T V st E state first [] a v = (v, Inr (Inr a))"
| "connect_loop L S T V st E state first (tx # txs) a v =
     step_bind (connect_tx L S T V st E state first tx a v) (\<lambda>v a. connect_loop L S T V st E state False txs a v)"

text \<open>The reward check and the wait for the queue of script checks.\<close>

definition connect_finish ::
  "tx_lib \<Rightarrow> 'e script_lib \<Rightarrow> connect_env \<Rightarrow> Params \<Rightarrow> BlockValidationState \<Rightarrow> CTx list \<Rightarrow> connect_acc \<Rightarrow>
   (BlockValidationState + connect_acc) result" where
  "connect_finish L S E params state vtx a =
     rbind (GetBlockSubsidy (ce_nHeight E) params) (\<lambda>subsidy.
     let blockReward = ca_nFees a + subsidy
     in if vtx = [] then Inl Out_of_range
        else rbind (lib_GetValueOut L (vtx ! 0)) (\<lambda>value_out.
          if sint value_out > sint blockReward then block_Invalid state ''bad-cb-amount'' ''''
          else if \<not> list_all (sl_VerifyScript S) (ca_queue a) then block_Invalid state ''block-validation-failed'' ''''
          else Inr (Inr a)))"

definition connect_txs ::
  "tx_lib \<Rightarrow> 'e script_lib \<Rightarrow> CTxOut txout_ops \<Rightarrow> ('b, CTxOut) coins_view_ops \<Rightarrow> block_store \<Rightarrow> connect_env \<Rightarrow> Params \<Rightarrow>
   BlockValidationState \<Rightarrow> CTx list \<Rightarrow> ('b, CTxOut) CCoinsViewCache \<times> 'e \<Rightarrow>
   (('b, CTxOut) CCoinsViewCache \<times> 'e, connect_acc) step" where
  "connect_txs L S T V st E params state vtx v =
     step_bind (connect_loop L S T V st E state True vtx
         \<lparr>ca_nFees = 0, ca_nSigOpsCost = 0, ca_vtxundo = [], ca_queue = []\<rparr> v)
       (\<lambda>v a. (v, connect_finish L S E params state vtx a))"

section \<open>Amounts in a set of coins\<close>

definition total_value :: "(outpoint \<Rightarrow> CTxOut Coin option) \<Rightarrow> int" where
  "total_value U = (\<Sum>k\<in>dom U. coin_value (U k))"

lemma total_value_remove: "finite (dom U) \<Longrightarrow> total_value (U(k := None)) = total_value U - coin_value (U k)"
proof -
  assume f: "finite (dom U)"
  have "total_value (U(k := None)) = (\<Sum>j\<in>dom U - {k}. coin_value (U j))"
    unfolding total_value_def by (rule sum.cong) simp_all
  thus ?thesis using f by (cases "U k") (auto simp: total_value_def sum_diff1 coin_value_def)
qed

lemma total_value_insert: "finite (dom U) \<Longrightarrow> U k = None \<Longrightarrow> total_value (U(k \<mapsto> x)) = total_value U + coin_value (Some x)"
  using total_value_remove [of "U(k \<mapsto> x)" k] by (simp add: fun_upd_idem)

lemma finite_spend_all: "finite (dom U) \<Longrightarrow> finite (dom (spend_all ks U))"
  by (rule finite_subset [of _ "dom U"]) (auto simp: spend_all_def split: if_splits)

lemma total_value_spend:
  "finite (dom U) \<Longrightarrow> distinct ks \<Longrightarrow> total_value (spend_all ks U) = total_value U - (\<Sum>k\<leftarrow>ks. coin_value (U k))"
proof (induction ks)
  case (Cons k ks)
  have "spend_all (k # ks) U = (spend_all ks U)(k := None)" by (auto simp: spend_all_def)
  moreover have "spend_all ks U k = U k" using Cons.prems by (simp add: spend_all_def)
  ultimately have "total_value (spend_all (k # ks) U) = total_value (spend_all ks U) - coin_value (U k)"
    using total_value_remove [OF finite_spend_all [OF Cons.prems(1)], of ks k] by metis
  thus ?case using Cons by simp
qed (simp add: spend_all_def)

lemma total_value_outputs:
  "finite (dom U) \<Longrightarrow> list_all (\<lambda>x. MoneyRange (nValue x)) outs \<Longrightarrow> (\<And>j. i \<le> j \<Longrightarrow> j < i + length outs \<Longrightarrow> U (txid, j) = None) \<Longrightarrow>
    finite (dom (add_outputs T txid cb h outs i U)) \<and>
    total_value (add_outputs T txid cb h outs i U) \<le> total_value U + value_sum outs"
proof (induction outs arbitrary: i U)
  case (Cons x outs)
  let ?W = "if out_IsUnspendable T x then U else U((txid, i) \<mapsto> make_Coin x h cb)"
  have f: "finite (dom ?W)" using Cons.prems(1) by simp
  have "?W (txid, j) = None" if "Suc i \<le> j" "j < Suc i + length outs" for j using that Cons.prems(3) [of j] by auto
  from Cons.IH [OF f _ this] Cons.prems(2)
  have "finite (dom (add_outputs T txid cb h outs (Suc i) ?W)) \<and>
      total_value (add_outputs T txid cb h outs (Suc i) ?W) \<le> total_value ?W + value_sum outs" by simp
  moreover have "total_value ?W \<le> total_value U + sint (nValue x)"
    using Cons.prems(2) total_value_insert [OF Cons.prems(1), of "(txid, i)"] Cons.prems(3) [of i]
    by (auto simp: coin_value_def MoneyRange_def)
  ultimately show ?case by simp
qed simp

lemma subsidy_word: "sint (signed_drop_bit n (500 * of_int COIN :: CAmount)) = 50000000000 div 2 ^ n"
proof -
  have "sint (500 * of_int COIN :: CAmount) = 50000000000" by (simp add: COIN_def)
  thus ?thesis by (simp add: sint_signed_drop_bit_eq drop_bit_eq_div)
qed

lemma GetBlockSubsidy_bounds:
  assumes "GetBlockSubsidy height params = Inr s"
  shows "0 \<le> sint s \<and> sint s \<le> 500 * COIN"
proof -
  consider "s = 0" | n where "s = signed_drop_bit n (500 * of_int COIN)"
    using assms by (auto simp: GetBlockSubsidy_def Let_def rbind_def split: sum.splits if_splits)
  thus ?thesis
  proof cases
    case 1
    thus ?thesis by (simp add: COIN_def)
  next
    case 2
    thus ?thesis unfolding 2 subsidy_word by (simp add: COIN_def int_div_le_self pos_imp_zdiv_nonneg_iff)
  qed
qed

lemma GetBlockSubsidy_value:
  assumes "0 < nSubsidyHalvingInterval params"
  shows "\<exists>s. GetBlockSubsidy (int h) params = Inr s \<and> sint s = 50000000000 div 2 ^ (h div nat (nSubsidyHalvingInterval params))"
proof -
  let ?k = "h div nat (nSubsidyHalvingInterval params)"
  have d: "int h div nSubsidyHalvingInterval params = int ?k" using assms by (simp add: zdiv_int)
  show ?thesis
  proof (cases "64 \<le> ?k")
    case True
    have "(50000000000 :: int) < 2 ^ 64" by simp
    also have "\<dots> \<le> 2 ^ ?k" using True by (intro power_increasing) simp_all
    finally have "(50000000000 :: int) div 2 ^ ?k = 0" by simp
    thus ?thesis using True assms by (simp add: GetBlockSubsidy_def d)
  next
    case False
    thus ?thesis using assms subsidy_word [of ?k] by (simp add: GetBlockSubsidy_def d Let_def)
  qed
qed

lemma subsidy_halves: "(\<Sum>k<n. 50000000000 div 2 ^ k) + 2 * (50000000000 div 2 ^ n) \<le> (2 * 50000000000 :: int)"
proof (induction n)
  case (Suc n)
  have "(50000000000 :: int) div 2 ^ Suc n = 50000000000 div 2 ^ n div 2" unfolding power_Suc2 by (rule zdiv_zmult2_eq) simp
  hence "2 * (50000000000 div 2 ^ Suc n) \<le> (50000000000 div 2 ^ n :: int)" by simp
  thus ?case using Suc by (simp del: power_Suc)
qed simp

section \<open>No money from nothing\<close>

lemma step_bind_ok: "step_bind m f = (v', Inr (Inr y)) \<longleftrightarrow> (\<exists>v x. m = (v, Inr (Inr x)) \<and> f v x = (v', Inr (Inr y)))"
  by (auto simp: step_bind_def split: prod.splits sum.splits)

lemma block_Invalid_not_ok [simp]: "block_Invalid state r d \<noteq> Inr (Inr x)" "Inr (Inr x) \<noteq> block_Invalid state r d"
  by (simp_all add: block_Invalid_def)

text \<open>A null output is one of value \<^verbatim>\<open>-1\<close>.\<close>

definition null_output_ok :: "CTxOut txout_ops \<Rightarrow> bool" where
  "null_output_ok T \<longleftrightarrow> (\<forall>x. out_IsNull T x \<longleftrightarrow> nValue x = -1)"

lemma null_not_in_range: "null_output_ok T \<Longrightarrow> MoneyRange (nValue x) \<Longrightarrow> \<not> out_IsNull T x"
  by (auto simp: null_output_ok_def MoneyRange_def)

text \<open>What is known of a transaction of the block before it is connected: its form, and that its outputs are new.\<close>

definition tx_fresh :: "CTx \<Rightarrow> (outpoint \<Rightarrow> CTxOut Coin option) \<Rightarrow> bool" where
  "tx_fresh tx U \<longleftrightarrow> (\<forall>i < length (vout tx). U (tx_hash tx, i) = None)"

lemma coins_tx_sel [simp]:
  "tx_GetHash (coins_tx L tx) = tx_hash tx" "tx_IsCoinBase (coins_tx L tx) = lib_IsCoinBase L tx"
  "tx_vout (coins_tx L tx) = vout tx"
  "tx_spends (coins_tx L tx) = (if lib_IsCoinBase L tx then [] else map prevout (vin tx))"
  by (simp_all add: coins_tx_def tx_spends_def)

lemma coins_tx_applies:
  assumes "null_output_ok T" "tx_well_formed L tx" "tx_fresh tx U" "lib_IsCoinBase L tx \<or> inputs_acceptable U tx h"
  shows "tx_applies T (coins_tx L tx) U"
proof -
  have "list_all (\<lambda>x. \<not> out_IsNull T x) (vout tx)"
    using assms(2) null_not_in_range [OF assms(1)] by (auto simp: tx_well_formed_def list_all_iff)
  moreover have "list_all (\<lambda>k. U k \<noteq> None) (map prevout (vin tx))" if "inputs_acceptable U tx h"
    using that by (auto simp: inputs_acceptable_def spent_coins_def list_all_iff coin_spendable_def split: option.splits)
  moreover have "distinct (map prevout (vin tx))" using assms(2) by (simp add: tx_well_formed_def)
  ultimately show ?thesis using assms(3,4) by (auto simp: tx_applies_def tx_fresh_def)
qed

lemma apply_tx_total:
  assumes "finite (dom U)" "tx_well_formed L tx" "tx_fresh tx U"
  shows "finite (dom (apply_tx T h (coins_tx L tx) U)) \<and>
    total_value (apply_tx T h (coins_tx L tx) U) \<le>
      total_value U - (if lib_IsCoinBase L tx then 0 else input_sum U tx) + value_sum (vout tx)"
proof -
  let ?W = "spend_all (tx_spends (coins_tx L tx)) U"
  have w: "distinct (tx_spends (coins_tx L tx))" "list_all (\<lambda>x. MoneyRange (nValue x)) (vout tx)"
    using assms(2) by (simp_all add: tx_well_formed_def)
  have "total_value ?W = total_value U - (if lib_IsCoinBase L tx then 0 else input_sum U tx)"
    unfolding total_value_spend [OF assms(1) w(1)] by (simp add: input_sum_def spent_coins_def comp_def)
  moreover have "?W (tx_hash tx, j) = None" if "0 \<le> j" "j < 0 + length (vout tx)" for j
    using that assms(3) by (simp add: tx_fresh_def spend_all_def)
  ultimately show ?thesis
    using total_value_outputs [OF finite_spend_all [OF assms(1)] w(2), of 0 "tx_spends (coins_tx L tx)" "tx_hash tx" T "lib_IsCoinBase L tx" h]
    by (simp add: apply_tx_def)
qed

lemma apply_tx_fresh:
  "tx_hash tx' \<noteq> tx_hash tx \<Longrightarrow> tx_fresh tx' U \<Longrightarrow> tx_fresh tx' (apply_tx T h (coins_tx L tx) U)"
  by (simp add: tx_fresh_def apply_tx_def add_outputs_apply spend_all_def)

context tx_view
begin

lemma prev_heights_keeps:
  "txout_ok T \<Longrightarrow> cinv c \<Longrightarrow> cinv (snd (prev_heights T V txins c)) \<and> cview (snd (prev_heights T V txins c)) = cview c"
proof (induction txins arbitrary: c)
  case (Cons txin txins)
  obtain x c1 where a: "AccessCoin T V c (prevout txin) = (x, c1)" by fastforce
  note A = AccessCoin_spec [OF Cons.prems a]
  with Cons.IH [of c1] Cons.prems(1) a show ?case by (auto simp: Let_def split: prod.splits)
qed simp

lemma p2sh_loop_keeps:
  "txout_ok T \<Longrightarrow> cinv c \<Longrightarrow> cinv (fst (p2sh_loop L T V txins n c)) \<and> cview (fst (p2sh_loop L T V txins n c)) = cview c"
proof (induction txins arbitrary: n c)
  case (Cons txin txins)
  obtain x c1 where a: "AccessCoin T V c (prevout txin) = (x, c1)" by fastforce
  note A = AccessCoin_spec [OF Cons.prems a]
  with Cons.IH [of c1] Cons.prems(1) a show ?case by (simp add: Let_def)
qed simp

lemma witness_loop_keeps:
  "txout_ok T \<Longrightarrow> cinv c \<Longrightarrow> cinv (fst (witness_loop L T V fl txins n c)) \<and> cview (fst (witness_loop L T V fl txins n c)) = cview c"
proof (induction txins arbitrary: n c)
  case (Cons txin txins)
  obtain x c1 where a: "AccessCoin T V c (prevout txin) = (x, c1)" by fastforce
  note A = AccessCoin_spec [OF Cons.prems a]
  with Cons.IH [of c1] Cons.prems(1) a show ?case by (simp add: Let_def)
qed simp

lemma spent_outputs_keeps:
  "txout_ok T \<Longrightarrow> cinv c \<Longrightarrow> cinv (fst (spent_outputs_loop T V txins os c)) \<and> cview (fst (spent_outputs_loop T V txins os c)) = cview c"
proof (induction txins arbitrary: os c)
  case (Cons txin txins)
  obtain x c1 where a: "AccessCoin T V c (prevout txin) = (x, c1)" by fastforce
  note A = AccessCoin_spec [OF Cons.prems a]
  with Cons.IH [of c1] Cons.prems(1) a show ?case by (simp add: Let_def)
qed simp

lemma SigOpCost_keeps:
  assumes "txout_ok T" "cinv c" "GetTransactionSigOpCost L T V tx fl c = (c', r)"
  shows "cinv c' \<and> cview c' = cview c"
proof -
  have p: "cinv (fst (GetP2SHSigOpCount L T V tx c)) \<and> cview (fst (GetP2SHSigOpCount L T V tx c)) = cview c"
    using p2sh_loop_keeps [OF assms(1,2)] assms(2) by (simp add: GetP2SHSigOpCount_def)
  obtain c1 q where q: "(if fl AND lib_SCRIPT_VERIFY_P2SH L \<noteq> 0 then GetP2SHSigOpCount L T V tx c else (c, Inr 0)) = (c1, q)" by fastforce
  hence c1: "cinv c1 \<and> cview c1 = cview c" using p assms(2) by (metis fst_conv)
  show ?thesis
    using assms(2,3) c1 witness_loop_keeps [OF assms(1) conjunct1 [OF c1]]
    unfolding GetTransactionSigOpCost_def q Let_def by (auto split: if_splits sum.splits) (metis fst_conv)+
qed

lemma CheckInputScripts_keeps:
  assumes "txout_ok T" "cinv c" "CheckInputScripts L S T V tx s fl cs None pv (c, e) = ((c', e'), r)"
  shows "cinv c' \<and> cview c' = cview c"
proof -
  obtain c1 q where q: "spent_outputs_loop T V (vin tx) [] c = (c1, q)" by fastforce
  have "cinv c1 \<and> cview c1 = cview c" using spent_outputs_keeps [OF assms(1,2), of "vin tx" "[]"] q by simp
  thus ?thesis using assms(2,3) unfolding CheckInputScripts_def
    by (auto simp: Let_def q split: if_splits sum.splits prod.splits)
qed

lemma connect_fee_ok:
  assumes "txout_ok T" "value_out_ok L" "cinv c" "tx_well_formed L tx" "\<not> lib_IsCoinBase L tx" "MoneyRange (ca_nFees a)"
    "connect_fee L T V E state tx a (c, e) = ((c', e'), Inr (Inr a'))"
  shows "cinv c' \<and> cview c' = cview c \<and> inputs_acceptable (cview c) tx (ce_nHeight E) \<and> MoneyRange (ca_nFees a') \<and>
    sint (ca_nFees a') = sint (ca_nFees a) + (input_sum (cview c) tx - value_sum (vout tx))"
proof -
  from CheckTxInputs_spec [OF assms(1,3,2,4,5), of state_new "ce_nHeight E"] obtain c1 f s1 where
    k: "CheckTxInputs L T V tx state_new c (ce_nHeight E) = (c1, Inr (f, s1))" "cinv c1" "cview c1 = cview c"
      "case f of Some fee \<Rightarrow> inputs_acceptable (cview c) tx (ce_nHeight E) \<and> s1 = state_new \<and>
          sint fee = input_sum (cview c) tx - value_sum (vout tx)
        | None \<Rightarrow> \<not> inputs_acceptable (cview c) tx (ce_nHeight E)" by blast
  obtain fee where f: "f = Some fee" using k(1) assms(7) by (cases f) (auto simp: connect_fee_def)
  hence d: "c' = c1" "a' = a\<lparr>ca_nFees := ca_nFees a + fee\<rparr>" "MoneyRange (ca_nFees a + fee)"
    using k(1) assms(7) by (auto simp: connect_fee_def Let_def split: if_splits)
  have acc: "inputs_acceptable (cview c) tx (ce_nHeight E)" "sint fee = input_sum (cview c) tx - value_sum (vout tx)"
    using k(4) f by simp_all
  moreover have "0 \<le> value_sum (vout tx)" using assms(4) by (simp add: tx_well_formed_def value_sum_nonneg)
  ultimately have "MoneyRange fee" by (simp add: MoneyRange_def inputs_acceptable_def)
  from MoneyRange_add [OF assms(6) this] acc d k(2,3) show ?thesis by simp
qed

lemma connect_checks_keep:
  assumes "txout_ok T" "cinv c"
  shows "connect_locks L T V st E state tx a (c, e) = ((c', e'), Inr (Inr a')) \<Longrightarrow> cinv c' \<and> cview c' = cview c \<and> ca_nFees a' = ca_nFees a"
    and "connect_sigops L T V E state tx a (c, e) = ((c', e'), Inr (Inr a')) \<Longrightarrow> cinv c' \<and> cview c' = cview c \<and> ca_nFees a' = ca_nFees a"
    and "connect_scripts L S T V E state tx a (c, e) = ((c', e'), Inr (Inr a')) \<Longrightarrow> cinv c' \<and> cview c' = cview c \<and> ca_nFees a' = ca_nFees a"
proof -
  assume l: "connect_locks L T V st E state tx a (c, e) = ((c', e'), Inr (Inr a'))"
  show "cinv c' \<and> cview c' = cview c \<and> ca_nFees a' = ca_nFees a"
    using l prev_heights_keeps [OF assms, of "vin tx"] by (auto simp: connect_locks_def split: prod.splits sum.splits if_splits)
next
  assume l: "connect_sigops L T V E state tx a (c, e) = ((c', e'), Inr (Inr a'))"
  show "cinv c' \<and> cview c' = cview c \<and> ca_nFees a' = ca_nFees a"
    using l SigOpCost_keeps [OF assms] by (auto simp: connect_sigops_def Let_def split: prod.splits sum.splits if_splits)
next
  assume l: "connect_scripts L S T V E state tx a (c, e) = ((c', e'), Inr (Inr a'))"
  obtain c1 e1 q where q: "CheckInputScripts L S T V tx state_new (ce_flags E) (ce_fJustCheck E) None
      (if ce_parallel E then Some [] else None) (c, e) = ((c1, e1), q)" by (metis prod.collapse)
  show "cinv c' \<and> cview c' = cview c \<and> ca_nFees a' = ca_nFees a"
    using l assms(2) CheckInputScripts_keeps [OF assms q] unfolding connect_scripts_def q
    by (auto split: sum.splits if_splits)
qed

text \<open>A transaction that is connected changes the coins as it says; what it leaves over goes to the fees.\<close>

lemma connect_tx_ok:
  assumes "txout_ok T" "value_out_ok L" "null_output_ok T" "cinv c" "tx_well_formed L tx" "tx_fresh tx (cview c)"
    "MoneyRange (ca_nFees a)" "connect_tx L S T V st E state first tx a (c, e) = ((c', e'), Inr (Inr a'))"
  shows "cinv c' \<and> cview c' = apply_tx T (ce_nHeight E) (coins_tx L tx) (cview c) \<and> MoneyRange (ca_nFees a') \<and>
    sint (ca_nFees a') = sint (ca_nFees a) + (if lib_IsCoinBase L tx then 0 else input_sum (cview c) tx - value_sum (vout tx))"
proof -
  obtain c1 e1 a1 c2 e2 a2 c3 e3 a3 where
    1: "(if \<not> lib_IsCoinBase L tx
        then step_bind (connect_fee L T V E state tx a (c, e)) (\<lambda>v a. connect_locks L T V st E state tx a v)
        else ((c, e), Inr (Inr a))) = ((c1, e1), Inr (Inr a1))" and
    2: "connect_sigops L T V E state tx a1 (c1, e1) = ((c2, e2), Inr (Inr a2))" and
    3: "(if \<not> lib_IsCoinBase L tx then connect_scripts L S T V E state tx a2 (c2, e2) else ((c2, e2), Inr (Inr a2))) = ((c3, e3), Inr (Inr a3))" and
    4: "connect_update L T V E first tx a3 (c3, e3) = ((c', e'), Inr (Inr a'))"
    using assms(8) unfolding connect_tx_def step_bind_ok by (metis (no_types, lifting) prod.collapse)
  have A: "cinv c1 \<and> cview c1 = cview c \<and> (lib_IsCoinBase L tx \<or> inputs_acceptable (cview c) tx (ce_nHeight E)) \<and>
    MoneyRange (ca_nFees a1) \<and>
    sint (ca_nFees a1) = sint (ca_nFees a) + (if lib_IsCoinBase L tx then 0 else input_sum (cview c) tx - value_sum (vout tx))"
  proof (cases "lib_IsCoinBase L tx")
    case True
    thus ?thesis using 1 assms(4,7) by simp
  next
    case False
    then obtain c0 e0 a0 where f: "connect_fee L T V E state tx a (c, e) = ((c0, e0), Inr (Inr a0))"
      "connect_locks L T V st E state tx a0 (c0, e0) = ((c1, e1), Inr (Inr a1))"
      using 1 by (auto simp: step_bind_ok)
    note F = connect_fee_ok [OF assms(1,2,4,5) False assms(7) f(1)]
    from connect_checks_keep(1) [OF assms(1) conjunct1 [OF F] f(2)] F False show ?thesis by simp
  qed
  note B = connect_checks_keep(2) [OF assms(1) conjunct1 [OF A] 2]
  have C: "cinv c3 \<and> cview c3 = cview c2 \<and> ca_nFees a3 = ca_nFees a2"
  proof (cases "lib_IsCoinBase L tx")
    case True
    thus ?thesis using 3 B by simp
  next
    case False
    hence "connect_scripts L S T V E state tx a2 (c2, e2) = ((c3, e3), Inr (Inr a3))" using 3 by simp
    from connect_checks_keep(3) [OF assms(1) conjunct1 [OF B] this] show ?thesis .
  qed
  have v: "cview c3 = cview c" using A B C by simp
  have "tx_applies T (coins_tx L tx) (cview c3)"
    unfolding v using coins_tx_applies [OF assms(3,5,6)] A by blast
  from UpdateCoins_spec [OF assms(1) conjunct1 [OF C] this, of "ce_nHeight E"] 4 v A B C show ?thesis
    by (auto simp: connect_update_def split: if_splits)
qed

lemma connect_loop_ok:
  assumes "txout_ok T" "value_out_ok L" "null_output_ok T"
  shows "cinv c \<Longrightarrow> list_all (tx_well_formed L) txs \<Longrightarrow> list_all (\<lambda>tx. \<not> lib_IsCoinBase L tx) txs \<Longrightarrow>
    list_all (\<lambda>tx. tx_fresh tx (cview c)) txs \<Longrightarrow> distinct (map tx_hash txs) \<Longrightarrow> finite (dom (cview c)) \<Longrightarrow>
    MoneyRange (ca_nFees a) \<Longrightarrow> connect_loop L S T V st E state first txs a (c, e) = ((c', e'), Inr (Inr a')) \<Longrightarrow>
    cinv c' \<and> cview c' = apply_txs T (ce_nHeight E) (map (coins_tx L) txs) (cview c) \<and> MoneyRange (ca_nFees a') \<and>
    total_value (cview c') + sint (ca_nFees a') \<le> total_value (cview c) + sint (ca_nFees a)"
proof (induction txs arbitrary: first a c e)
  case (Cons tx txs)
  from Cons.prems(8) obtain c1 e1 a1 where
    1: "connect_tx L S T V st E state first tx a (c, e) = ((c1, e1), Inr (Inr a1))" and
    2: "connect_loop L S T V st E state False txs a1 (c1, e1) = ((c', e'), Inr (Inr a'))"
    by (auto simp: step_bind_ok)
  have w: "tx_well_formed L tx" "tx_fresh tx (cview c)" "\<not> lib_IsCoinBase L tx" using Cons.prems(2-4) by simp_all
  note A = connect_tx_ok [OF assms Cons.prems(1) w(1,2) Cons.prems(7) 1]
  note t = apply_tx_total [OF Cons.prems(6) w(1,2), of T "ce_nHeight E"]
  have "tx_fresh x (cview c1)" if "x \<in> set txs" for x
  proof -
    have "tx_hash x \<noteq> tx_hash tx" using Cons.prems(5) that by (metis distinct.simps(2) image_eqI list.simps(9) set_map)
    thus ?thesis using apply_tx_fresh [of x tx "cview c"] Cons.prems(4) that A by (simp add: list_all_iff)
  qed
  hence "list_all (\<lambda>tx. tx_fresh tx (cview c1)) txs" by (simp add: list_all_iff)
  moreover have "list_all (tx_well_formed L) txs" "list_all (\<lambda>tx. \<not> lib_IsCoinBase L tx) txs" "distinct (map tx_hash txs)"
    "finite (dom (cview c1))" "MoneyRange (ca_nFees a1)" using Cons.prems(2,3,5) A t by simp_all
  ultimately have I: "cinv c' \<and> cview c' = apply_txs T (ce_nHeight E) (map (coins_tx L) txs) (cview c1) \<and> MoneyRange (ca_nFees a')"
    "total_value (cview c') + sint (ca_nFees a') \<le> total_value (cview c1) + sint (ca_nFees a1)"
    using Cons.IH [OF conjunct1 [OF A] _ _ _ _ _ _ 2] by blast+
  have "total_value (cview c') + sint (ca_nFees a') \<le> total_value (cview c) + sint (ca_nFees a)"
    using I(2) A t w(3) by simp
  thus ?case using I(1) A by simp
qed simp

lemma bip30_outputs_ok:
  "cinv c \<Longrightarrow> bip30_outputs T V state ks c = (c', Inr (Inr ())) \<Longrightarrow>
    cinv c' \<and> cview c' = cview c \<and> list_all (\<lambda>k. cview c k = None) ks"
proof (induction ks arbitrary: c)
  case (Cons k ks)
  obtain r c1 where h: "HaveCoin T V c k = (r, c1)" by fastforce
  note H = HaveCoin_spec [OF Cons.prems(1) h]
  have "\<not> r" "bip30_outputs T V state ks c1 = (c', Inr (Inr ()))" using Cons.prems(2) h by (auto split: if_splits)
  with Cons.IH [of c1] H show ?case by simp
qed simp

lemma check_bip30_ok:
  assumes "cinv c" "check_bip30 T V state True h vtx c = (c', Inr (Inr ()))"
  shows "cinv c' \<and> cview c' = cview c \<and> list_all (\<lambda>tx. tx_fresh tx (cview c)) vtx"
  using bip30_outputs_ok [OF assms(1), of state "concat (map (\<lambda>tx. map (\<lambda>i. (tx_hash tx, i)) [0..<length (vout tx)]) vtx)" c'] assms(2)
  by (auto simp: check_bip30_def list_all_iff tx_fresh_def)

lemma connect_txs_ok:
  assumes "txout_ok T" "value_out_ok L" "null_output_ok T" "cinv c" "list_all (tx_well_formed L) (tx # txs)" "lib_IsCoinBase L tx"
    "list_all (\<lambda>tx. \<not> lib_IsCoinBase L tx) txs" "list_all (\<lambda>tx. tx_fresh tx (cview c)) (tx # txs)"
    "distinct (map tx_hash (tx # txs))" "finite (dom (cview c))"
    "connect_txs L S T V st E params state (tx # txs) (c, e) = ((c', e'), Inr (Inr a))"
  shows "\<exists>subsidy. GetBlockSubsidy (ce_nHeight E) params = Inr subsidy \<and> 0 \<le> sint subsidy \<and> sint subsidy \<le> 500 * COIN \<and>
    total_value (cview c') \<le> total_value (cview c) + sint subsidy \<and>
    cview c' = apply_txs T (ce_nHeight E) (map (coins_tx L) (tx # txs)) (cview c)"
proof -
  define a0 where "a0 = \<lparr>ca_nFees = 0, ca_nSigOpsCost = 0, ca_vtxundo = [], ca_queue = []\<rparr>"
  from assms(11) obtain c1 e1 a1 a2 where
    1: "connect_tx L S T V st E state True tx a0 (c, e) = ((c1, e1), Inr (Inr a1))" and
    2: "connect_loop L S T V st E state False txs a1 (c1, e1) = ((c', e'), Inr (Inr a2))" and
    3: "connect_finish L S E params state (tx # txs) a2 = Inr (Inr a)"
    by (auto simp: connect_txs_def step_bind_ok a0_def)
  have w: "tx_well_formed L tx" "tx_fresh tx (cview c)" "MoneyRange (ca_nFees a0)"
    using assms(5,8) MAX_MONEY_bounds by (simp_all add: a0_def MoneyRange_def)
  note A = connect_tx_ok [OF assms(1-4) w 1]
  note t = apply_tx_total [OF assms(10) w(1,2), of T "ce_nHeight E"]
  have "tx_fresh x (cview c1)" if "x \<in> set txs" for x
  proof -
    have "tx_hash x \<noteq> tx_hash tx" using assms(9) that by (metis distinct.simps(2) image_eqI list.simps(9) set_map)
    thus ?thesis using apply_tx_fresh [of x tx "cview c"] assms(8) that A by (simp add: list_all_iff)
  qed
  hence "list_all (\<lambda>tx. tx_fresh tx (cview c1)) txs" by (simp add: list_all_iff)
  moreover have "list_all (tx_well_formed L) txs" "distinct (map tx_hash txs)" "finite (dom (cview c1))" "MoneyRange (ca_nFees a1)"
    using assms(5,9) A t by simp_all
  ultimately have I: "cview c' = apply_txs T (ce_nHeight E) (map (coins_tx L) txs) (cview c1)" "MoneyRange (ca_nFees a2)"
    "total_value (cview c') + sint (ca_nFees a2) \<le> total_value (cview c1) + sint (ca_nFees a1)"
    using connect_loop_ok [OF assms(1-3) conjunct1 [OF A] _ assms(7) _ _ _ _ 2] by blast+
  obtain v where v: "lib_GetValueOut L tx = Inr v" "sint v = value_sum (vout tx)"
    using assms(2) w(1) unfolding value_out_ok_def tx_well_formed_def by blast
  obtain s where s: "GetBlockSubsidy (ce_nHeight E) params = Inr s" "sint v \<le> sint (ca_nFees a2 + s)"
    using 3 v(1) by (auto simp: connect_finish_def Let_def rbind_def split: sum.splits if_splits)
  have b: "0 \<le> sint s" "sint s \<le> 500 * COIN" using GetBlockSubsidy_bounds [OF s(1)] by simp_all
  hence "MoneyRange s" by (simp add: MoneyRange_def MAX_MONEY_def COIN_def)
  from MoneyRange_add [OF I(2) this] s(2) v(2) have "value_sum (vout tx) \<le> sint (ca_nFees a2) + sint s" by simp
  moreover have "total_value (cview c1) + sint (ca_nFees a1) \<le> total_value (cview c) + value_sum (vout tx)"
    using A t assms(6) by (simp add: a0_def)
  ultimately have "total_value (cview c') \<le> total_value (cview c) + sint s" using I(3) by linarith
  thus ?thesis using s(1) b I(1) A by simp
qed

end

section \<open>Properties\<close>

text \<open>
  C2: a block that \<^verbatim>\<open>ConnectBlock\<close> accepts creates no more money than the subsidy of its height: if its
  transactions are well formed, only the first is a coinbase, their hashes differ, the check against
  overwriting passes, and the loop, the reward check and the script checks succeed, then the coins
  change exactly as the transactions say and their total value grows by at most the subsidy, which is
  at most 500 coins.
\<close>

theorem connected_block_no_inflation:
  assumes "txout_ok T" "value_out_ok L" "null_output_ok T"
    "cache_ok T (cache_utxo T db_coin) (cache_ok T db_coin (db_ok T)) c" "finite (dom (cache_utxo T (cache_utxo T db_coin) c))"
    "list_all (tx_well_formed L) (tx # txs)" "lib_IsCoinBase L tx" "list_all (\<lambda>tx. \<not> lib_IsCoinBase L tx) txs"
    "distinct (map tx_hash (tx # txs))"
    "check_bip30 T (cache_view T (CCoinsViewDB T est lim)) state True (ce_nHeight E) (tx # txs) c = (c0, Inr (Inr ()))"
    "connect_txs L S T (cache_view T (CCoinsViewDB T est lim)) st E params state (tx # txs) (c0, e) = ((c', e'), Inr (Inr a))"
  shows "\<exists>subsidy. GetBlockSubsidy (ce_nHeight E) params = Inr subsidy \<and> 0 \<le> sint subsidy \<and> sint subsidy \<le> 500 * COIN \<and>
    total_value (cache_utxo T (cache_utxo T db_coin) c') \<le> total_value (cache_utxo T (cache_utxo T db_coin) c) + sint subsidy \<and>
    cache_utxo T (cache_utxo T db_coin) c' =
      apply_txs T (ce_nHeight E) (map (coins_tx L) (tx # txs)) (cache_utxo T (cache_utxo T db_coin) c)"
proof -
  from tx_tip.check_bip30_ok [OF assms(4,10)] have b:
    "cache_ok T (cache_utxo T db_coin) (cache_ok T db_coin (db_ok T)) c0"
    "cache_utxo T (cache_utxo T db_coin) c0 = cache_utxo T (cache_utxo T db_coin) c"
    "list_all (\<lambda>tx. tx_fresh tx (cache_utxo T (cache_utxo T db_coin) c0)) (tx # txs)" by simp_all
  have "finite (dom (cache_utxo T (cache_utxo T db_coin) c0))" using assms(5) b(2) by simp
  from tx_tip.connect_txs_ok [OF assms(1-3) b(1) assms(6-8) b(3) assms(9) this assms(11)] show ?thesis unfolding b(2) .
qed

text \<open>A block of a coinbase and a transaction that pays a fee of 5.\<close>

definition sample_coinbase :: CTx where
  "sample_coinbase = \<lparr>tx_hash = sample_hash 4, tx_nVersion = 2,
     vin = [\<lparr>prevout = (null_hash, 4294967295), scriptSig = [1, 4], nSequence = 0xffffffff, scriptWitness = []\<rparr>],
     vout = [\<lparr>nValue = 50000000005, scriptPubKey = [0x53]\<rparr>], tx_nLockTime = 0\<rparr>"

definition sample_scripts :: "unit script_lib" where
  "sample_scripts = \<lparr>sl_entry = (\<lambda>tx fl. tx_hash tx), sl_contains = (\<lambda>e k er. (False, e)), sl_insert = (\<lambda>e k. e),
     sl_VerifyScript = (\<lambda>(outs, tx, i, fl). scriptPubKey (outs ! i) = scriptSig (vin tx ! i)), sl_error = (\<lambda>_. ''error''),
     sl_NOT_MANDATORY = 0\<rparr>"

definition sample_env :: connect_env where
  "sample_env = \<lparr>ce_pindex = 4, ce_nHeight = 4, ce_nLockTimeFlags = 1, ce_flags = 1, ce_fScriptChecks = True,
     ce_fJustCheck = False, ce_parallel = True\<rparr>"

definition connect_db :: "CTxOut coins_db" where
  "connect_db = \<lparr>db_coin = [(sample_hash 1, 0) \<mapsto> make_Coin \<lparr>nValue = 50, scriptPubKey = [0x51]\<rparr> 1 False],
     db_best_block = Some (sample_hash 9), db_head_blocks = None\<rparr>"

definition block_state_new :: BlockValidationState where
  "block_state_new = \<lparr>m_mode = M_VALID, m_result = BLOCK_RESULT_UNSET, m_reject_reason = '''', m_debug_message = ''''\<rparr>"

abbreviation sample_tip :: "((CTxOut coins_db, CTxOut) CCoinsViewCache, CTxOut) coins_view_ops" where
  "sample_tip \<equiv> cache_view sample_txouts (CCoinsViewDB sample_txouts length 2)"

definition sample_bip30 where
  "sample_bip30 = check_bip30 sample_txouts sample_tip block_state_new True 4 [sample_coinbase, sample_tx]
     (CCoinsViewCache_new (CCoinsViewCache_new connect_db))"

definition sample_connect where
  "sample_connect = connect_txs sample_lib sample_scripts sample_txouts sample_tip (store_of small_index) sample_env
     example_params block_state_new [sample_coinbase, sample_tx] (fst sample_bip30, ())"

lemma sample_locks: "SequenceLocks sample_lib (store_of small_index) sample_tx 1 [1] 4 = Inr True"
proof -
  have "store_of small_index 4 = Some (entry (Some 3) (Some 0) 4 350)" "store_of small_index 3 = Some (entry (Some 2) (Some 1) 3 250)"
    by (simp_all add: store_of_def small_index_def)
  from SequenceLocks_value [OF wf_small_index this(1) _ this(2), of "[1]" sample_tx sample_lib 1] show ?thesis
    by (simp add: entry_def sample_tx_def sample_lib_def lock_satisfied_def LOCKTIME_VERIFY_SEQUENCE_def)
qed

lemmas cache_evals =
  FetchCoin_def GetCoin_def AddCoin_def SpendCoin_def AccessCoin_def HaveCoin_def IsSpent_def Coin_Clear_def coinEmpty_def
  Coin_DynamicMemoryUsage_def make_Coin_def cache_view_def CCoinsViewDB_def DB_GetCoin_def CCoinsViewCache_new_def
  sample_txouts_def connect_db_def sample_hash_inj Let_def

lemma sample_sel:
  "tx_hash sample_tx = sample_hash 3" "tx_hash sample_coinbase = sample_hash 4"
  "vin sample_tx = [\<lparr>prevout = (sample_hash 1, 0), scriptSig = [0x51], nSequence = 0, scriptWitness = []\<rparr>]"
  "vout sample_tx = [\<lparr>nValue = 20, scriptPubKey = [0x51]\<rparr>, \<lparr>nValue = 25, scriptPubKey = [0x52]\<rparr>]"
  "vin sample_coinbase = [\<lparr>prevout = (null_hash, 4294967295), scriptSig = [1, 4], nSequence = 0xffffffff, scriptWitness = []\<rparr>]"
  "vout sample_coinbase = [\<lparr>nValue = 50000000005, scriptPubKey = [0x53]\<rparr>]"
  by (simp_all add: sample_tx_def sample_coinbase_def)

lemma sample_lib_sel:
  "\<not> lib_IsCoinBase sample_lib sample_tx" "lib_IsCoinBase sample_lib sample_coinbase"
  "lib_GetValueOut sample_lib = sample_GetValueOut"
  "lib_GetSigOpCount sample_lib = (\<lambda>s acc. of_nat (length (filter (\<lambda>b. b = 0xac) s)))"
  "lib_IsPayToScriptHash sample_lib = (\<lambda>s. length s = 23)" "lib_CountWitnessSigOps sample_lib = (\<lambda>sig pk w fl. 0)"
  "lib_SCRIPT_VERIFY_P2SH sample_lib = 1"
  by (simp_all add: sample_lib_def sample_sel)

lemmas block_evals = sample_sel sample_lib_sel sample_env_def sample_scripts_def coins_tx_def

lemma sample_bip30_ok: "\<exists>c. sample_bip30 = (c, Inr (Inr ()))"
  by (simp add: sample_bip30_def check_bip30_def cache_evals block_evals)

lemma sample_connect_ok: "\<exists>v a. sample_connect = (v, Inr (Inr a))"
  by (simp add: sample_connect_def connect_txs_def connect_tx_def step_bind_def connect_fee_def connect_locks_def
    connect_sigops_def connect_scripts_def connect_update_def connect_finish_def CheckTxInputs_def
    sample_bip30_def check_bip30_def cache_evals block_evals sample_locks UpdateCoins_def AddCoins_def
    GetTransactionSigOpCost_def GetLegacySigOpCount_def GetP2SHSigOpCount_def HaveInputs_def CheckInputScripts_def
    WITNESS_SCALE_FACTOR_def MoneyRange_def MAX_MONEY_def COIN_def COINBASE_MATURITY_def MAX_BLOCK_SIGOPS_COST_def
    GetBlockSubsidy_def example_params_def sample_GetValueOut_def)

lemma sample_connect_parts:
  "null_output_ok sample_txouts" "list_all (tx_well_formed sample_lib) [sample_coinbase, sample_tx]"
  "distinct (map tx_hash [sample_coinbase, sample_tx])" "total_value (db_coin connect_db) = 50"
  "GetBlockSubsidy 4 example_params = Inr 50000000000" "db_ok sample_txouts connect_db"
proof -
  have "tx_well_formed sample_lib sample_coinbase"
    by (simp add: tx_well_formed_def sample_coinbase_def sample_lib_def MoneyRange_def MAX_MONEY_def COIN_def word_less_nat_alt)
  thus "list_all (tx_well_formed sample_lib) [sample_coinbase, sample_tx]" using sample_tx_well_formed by simp
  have "dom (db_coin connect_db) = {(sample_hash 1, 0)}" by (simp add: connect_db_def)
  thus "total_value (db_coin connect_db) = 50" by (simp add: total_value_def connect_db_def coin_value_def)
  show "GetBlockSubsidy 4 example_params = Inr 50000000000" by (simp add: GetBlockSubsidy_def example_params_def COIN_def)
  show "db_ok sample_txouts connect_db" by (simp add: db_ok_def connect_db_def sample_txouts_def)
qed (simp_all add: null_output_ok_def sample_txouts_def sample_sel sample_hash_inj)

theorem connected_block_no_inflation_witness:
  "\<exists>c0 c' a. check_bip30 sample_txouts sample_tip block_state_new True 4 [sample_coinbase, sample_tx]
      (CCoinsViewCache_new (CCoinsViewCache_new connect_db)) = (c0, Inr (Inr ())) \<and>
    connect_txs sample_lib sample_scripts sample_txouts sample_tip (store_of small_index) sample_env example_params
      block_state_new [sample_coinbase, sample_tx] (c0, ()) = ((c', ()), Inr (Inr a)) \<and>
    total_value (cache_utxo sample_txouts (cache_utxo sample_txouts db_coin) c') \<le> 50000000050"
proof -
  let ?c = "CCoinsViewCache_new (CCoinsViewCache_new connect_db)"
  obtain c0 where c0: "sample_bip30 = (c0, Inr (Inr ()))" using sample_bip30_ok by blast
  obtain v a where "sample_connect = (v, Inr (Inr a))" using sample_connect_ok by blast
  then obtain c' where c': "sample_connect = ((c', ()), Inr (Inr a))" by (cases v) auto
  have u: "cache_utxo sample_txouts (cache_utxo sample_txouts db_coin) ?c = db_coin connect_db" by simp
  have ok: "cache_ok sample_txouts (cache_utxo sample_txouts db_coin) (cache_ok sample_txouts db_coin (db_ok sample_txouts)) ?c"
    using sample_connect_parts(6) by simp
  have fin: "finite (dom (cache_utxo sample_txouts (cache_utxo sample_txouts db_coin) ?c))" unfolding u by (simp add: connect_db_def)
  have E: "ce_nHeight sample_env = 4" by (simp add: sample_env_def)
  have cb: "lib_IsCoinBase sample_lib sample_coinbase" "list_all (\<lambda>tx. \<not> lib_IsCoinBase sample_lib tx) [sample_tx]"
    by (simp_all add: sample_lib_sel)
  have r: "check_bip30 sample_txouts sample_tip block_state_new True (ce_nHeight sample_env) [sample_coinbase, sample_tx] ?c = (c0, Inr (Inr ()))"
    "connect_txs sample_lib sample_scripts sample_txouts sample_tip (store_of small_index) sample_env example_params
      block_state_new [sample_coinbase, sample_tx] (c0, ()) = ((c', ()), Inr (Inr a))"
    using c0 c' by (simp_all add: sample_bip30_def sample_connect_def E)
  from connected_block_no_inflation [OF sample_txouts_ok(1) sample_lib_value_out sample_connect_parts(1) ok fin
      sample_connect_parts(2) cb sample_connect_parts(3) r]
  obtain s where "GetBlockSubsidy 4 example_params = Inr s"
    "total_value (cache_utxo sample_txouts (cache_utxo sample_txouts db_coin) c') \<le> total_value (db_coin connect_db) + sint s"
    unfolding u E by blast
  hence "total_value (cache_utxo sample_txouts (cache_utxo sample_txouts db_coin) c') \<le> 50000000050"
    by (simp add: sample_connect_parts(4,5))
  thus ?thesis using r unfolding E by blast
qed

text \<open>
  C40: with a positive halving interval every height has a subsidy, and the subsidies of the first \<open>n\<close> heights
  never add up to more than a thousand coins for each block of an interval.
\<close>

theorem total_subsidy_bounded:
  assumes "0 < nSubsidyHalvingInterval params"
  shows "\<exists>f. (\<forall>h. GetBlockSubsidy (int h) params = Inr (f h)) \<and>
    (\<Sum>h<n. sint (f h)) \<le> 1000 * COIN * nSubsidyHalvingInterval params"
proof -
  let ?i = "nat (nSubsidyHalvingInterval params)"
  define g :: "nat \<Rightarrow> int" where "g k = 50000000000 div 2 ^ k" for k
  obtain f where f: "GetBlockSubsidy (int h) params = Inr (f h)" "sint (f h) = g (h div ?i)" for h
    using GetBlockSubsidy_value [OF assms] unfolding g_def by metis
  have nn: "0 \<le> g k" for k by (simp add: g_def pos_imp_zdiv_nonneg_iff)
  have "(\<Sum>h<n. g (h div ?i)) \<le> (\<Sum>h<n * ?i. g (h div ?i))"
    using assms nn by (intro sum_mono2) (auto intro: order_less_le_trans)
  also have "\<dots> = (\<Sum>k<n. \<Sum>h = k * ?i..<k * ?i + ?i. g (h div ?i))" by (simp add: sum.nat_group)
  also have "\<dots> = (\<Sum>k<n. int ?i * g k)"
  proof (intro sum.cong refl)
    fix k
    have "g (h div ?i) = g k" if "h \<in> {k * ?i..<k * ?i + ?i}" for h
      using that assms div_nat_eqI [of ?i k h] by (simp add: mult.commute)
    thus "(\<Sum>h = k * ?i..<k * ?i + ?i. g (h div ?i)) = int ?i * g k" by simp
  qed
  also have "\<dots> \<le> int ?i * (2 * g 0)"
    using subsidy_halves [of n] nn [of n] unfolding g_def sum_distrib_left [symmetric] by (intro mult_left_mono) auto
  finally show ?thesis using f assms by (auto simp: g_def COIN_def intro!: exI [of _ f])
qed

theorem total_subsidy_bounded_witness:
  "\<exists>f. (\<forall>h. GetBlockSubsidy (int h) example_params = Inr (f h)) \<and> (\<Sum>h<5000000. sint (f h)) \<le> MAX_MONEY"
proof -
  have i: "nSubsidyHalvingInterval example_params = 840000" by (simp add: example_params_def)
  hence "1000 * COIN * nSubsidyHalvingInterval example_params \<le> MAX_MONEY" by (simp add: COIN_def MAX_MONEY_def)
  moreover have "0 < nSubsidyHalvingInterval example_params" using i by simp
  ultimately show ?thesis using total_subsidy_bounded [of example_params 5000000] by (meson order_trans)
qed

end
