(* ===== verification/Spec2Isabelle.thy ===== *)
theory Spec2Isabelle
  imports Arith_Compact Pow Hash_Util Coins_Run Deployments Merkle Connect_Block
begin

text \<open>
  A verification of the consensus core of KPCoin, a Bitcoin Core derivative with RandomX proof of work.
  File names below are relative to \<^verbatim>\<open>src/src\<close>.

  \<^bold>\<open>Layers.\<close> The code is layered, and the theories follow the layers.

  \<^item> \<^verbatim>\<open>Prelude\<close> holds the result type for C++ failures (failed assertion, null dereference, out of range,
    division by zero, exception), C++ division, word and list lemmas.
  \<^item> \<^verbatim>\<open>Crypto_Common\<close>, \<^verbatim>\<open>Arith_Uint256\<close>, \<^verbatim>\<open>Arith_Compact\<close> (\<^verbatim>\<open>crypto/common.h\<close>, \<^verbatim>\<open>arith_uint256.cpp/.h\<close>,
    \<^verbatim>\<open>uint256.h\<close>): byte order, 256-bit numbers as eight 32-bit limbs, and the compact encoding of targets.
    Every limb routine refines the operation on 256-bit words; encoding and decoding round trip.
  \<^item> \<^verbatim>\<open>Block_Index\<close>, \<^verbatim>\<open>Active_Chain\<close>, \<^verbatim>\<open>Block_Work\<close> (\<^verbatim>\<open>chain.cpp/.h\<close>): block index entries in an explicit
    store from addresses to records, with the skip list, the median time, the status bits, the active
    chain as a vector, the fork searches, locators, and the work of a block.
  \<^item> \<^verbatim>\<open>Consensus_Params\<close>, \<^verbatim>\<open>Pow\<close> (\<^verbatim>\<open>consensus/params.h\<close>, \<^verbatim>\<open>pow.cpp\<close>, \<^verbatim>\<open>mine_genesis.cpp\<close>): retargeting, the
    target check, RandomX keys and hashes, and the genesis miner.
  \<^item> \<^verbatim>\<open>RandomX\<close> (\<^verbatim>\<open>crypto/randomx_wrapper.cpp/.h\<close>): the singleton that owns the RandomX cache, dataset and
    machine. The library is a record of functions with a documented contract.
  \<^item> \<^verbatim>\<open>Hash_Stream\<close>, \<^verbatim>\<open>Message_Schedule\<close>, \<^verbatim>\<open>Sha2_Rounds\<close>, \<^verbatim>\<open>Sha256\<close>, \<^verbatim>\<open>Sha512\<close>, \<^verbatim>\<open>Rounds5\<close>, \<^verbatim>\<open>Sha1\<close>,
    \<^verbatim>\<open>Ripemd160\<close>, \<^verbatim>\<open>Hash_Util\<close> (\<^verbatim>\<open>crypto/sha256.cpp\<close>, \<^verbatim>\<open>crypto/sha512.cpp\<close>, \<^verbatim>\<open>crypto/sha1.cpp\<close>,
    \<^verbatim>\<open>crypto/ripemd160.cpp\<close>, \<^verbatim>\<open>crypto/hmac_*.cpp\<close>, \<^verbatim>\<open>crypto/hkdf_sha256_32.cpp\<close>, \<^verbatim>\<open>hash.h\<close>, \<^verbatim>\<open>hash.cpp\<close>): the
    unrolled compression functions, the buffered hasher classes, and what is built from them.
  \<^item> \<^verbatim>\<open>Coins\<close>, \<^verbatim>\<open>Coins_View\<close>, \<^verbatim>\<open>Coins_DB\<close>, \<^verbatim>\<open>Coins_Run\<close> (\<^verbatim>\<open>coins.cpp/.h\<close>, \<^verbatim>\<open>txdb.cpp\<close>): the cache of unspent
    outputs with its dirty and fresh flags over a view, and the database at the bottom with its
    batched, interruptible write.
  \<^item> \<^verbatim>\<open>Version_Bits\<close>, \<^verbatim>\<open>Deployment_States\<close>, \<^verbatim>\<open>Deployments\<close> (\<^verbatim>\<open>versionbits.cpp/.h\<close>): the deployment state machine
    with its cache, and the block version derived from it.
  \<^item> \<^verbatim>\<open>Merkle\<close>, \<^verbatim>\<open>Tx_Rules\<close>, \<^verbatim>\<open>Tx_Verify\<close> (\<^verbatim>\<open>consensus/merkle.cpp\<close>, \<^verbatim>\<open>consensus/validation.h\<close>,
    \<^verbatim>\<open>consensus/amount.h\<close>, \<^verbatim>\<open>consensus/consensus.h\<close>, \<^verbatim>\<open>consensus/tx_check.cpp\<close>, \<^verbatim>\<open>consensus/tx_verify.cpp\<close>): hash
    trees of blocks, the validation state, and the transaction rules with and without context.
  \<^item> \<^verbatim>\<open>Chain_Coins\<close>, \<^verbatim>\<open>Connect_Block\<close> (\<^verbatim>\<open>validation.cpp\<close>): how connecting, disconnecting and rolling forward a block
    changes the coins; the subsidy, the script checks, and the loop of \<^verbatim>\<open>ConnectBlock\<close> over the transactions
    with the reward check.

  \<^bold>\<open>Modelling.\<close> Machine integers are words where they wrap and integers where the code stays in range;
  the signed heights and times are integers. Objects are records, pointers into the block index are
  addresses of a store and a null pointer is \<^term>\<open>None\<close>. A loop that ends only because of an invariant is a
  partial function to an option, and the theorems say that it returns; other loops recurse on their
  data or have a measure. There is no fuel. Code outside the sources (the RandomX library, LevelDB,
  transactions, scripts and their serialisation) appears as arguments: records of functions whose
  documented behaviour is a named predicate, such as \<^verbatim>\<open>txout_ok\<close> or \<^verbatim>\<open>d64_impl_ok\<close>, and every property
  with such a hypothesis has a witness on a concrete instance.

  \<^bold>\<open>Interfaces.\<close> Seven locales state what one part relies on in another: \<^verbatim>\<open>ancestor_lookup\<close> (lookups in a tree
  of entries, interpreted on \<^verbatim>\<open>GetAncestor\<close> and used by the chain and proof-of-work theories), \<^verbatim>\<open>md_stream\<close>
  (a buffered hasher over a compression function, interpreted four times), \<^verbatim>\<open>message_schedule\<close> and
  \<^verbatim>\<open>hash_class\<close> (interpreted on the hash classes), and \<^verbatim>\<open>coins_view\<close> (a view of unspent coins, interpreted on
  the database, on a view that passes calls on, and on a cache over the database, so that caches
  stack), which \<^verbatim>\<open>tx_view\<close> specialises to real outputs for the checks of inputs, and \<^verbatim>\<open>node_hash\<close> (the hash at
  the nodes of a tree, interpreted on double SHA-256).

  \<^bold>\<open>What is shown.\<close> For the numbers, that limbs refine words and that compact targets round trip. For the
  index, that skip lookups agree with walking back, that \<^verbatim>\<open>BuildSkip\<close> keeps the index well formed, and
  that the median time does not decrease. For the chain, that \<^verbatim>\<open>SetTip\<close> ends and installs the branch and
  that the two fork searches agree. For proof of work, that the computed target is always a permitted
  transition, when a hash is accepted, and that a hash is computed under the key given, which fails
  after a failed allocation. For the hash classes, that any split of the input gives the standard's
  digest, through HMAC and HKDF. For the coins, that a cache behaves like a set of coins under every
  sequence of calls, that stacked caches flush their changes exactly, that an interrupted database
  write is visible and can be completed, and that an exception in \<^verbatim>\<open>AddCoin\<close> leaves a wrong counter.
  For deployments, that the cached state is the one of the branch, that it moves only forward, since
  when it holds, and that the computed block version signals for the right deployments. For blocks and
  transactions, that the loop over levels computes the recursive tree and its root binds the leaves up
  to a collision, that the checks accept exactly the transactions the rules describe with exact fees
  and sums, that disconnecting a block restores the coins, that rolling a block forward completes an
  interrupted write, that a block that is connected raises the value of all coins by at most its
  subsidy, and that the subsidies are bounded.

  \<^bold>\<open>Not modelled.\<close> The vectorised hash routines and the processor detection (intrinsics, covered by a
  contract); the locking, which every operation modelled here holds throughout; tracing, logging,
  memory pools and serialisation of transactions. The parts that are mostly input and output (network,
  peers, RPC, HTTP, wallet tools, start-up), the rest of block validation, which calls scripts and
  files that are not in the sources, the mempool, and the encodings of keys and addresses are not
  modelled either; their list with reasons is in the manifest.
\<close>

end
